(* ===== verification/Prelude.thy ===== *)
theory Prelude
  imports
    Main
    "HOL-Library.Char_ord"
    "HOL-Library.List_Lexorder"
    "HOL-Library.AList"
    "HOL-Library.Sublist"
    "HOL-Library.Code_Target_Nat"
begin

text \<open>
  Shared vocabulary of the development. A Go \<open>byte\<close> is an Isabelle \<open>char\<close> (256 values)
  and a Go \<open>[]byte\<close> or \<open>string\<close> is a list of them, so lengths count bytes and
  \<open>sort.Strings\<close> is the lexicographic order of List\_Lexorder over Char\_ord. The functions
  of the packages \<open>bytes\<close> and \<open>strings\<close> that the gateway calls are defined here under
  their Go names, with the facts about them that several components need; a fallible Go
  function returns a sum whose left summand is the error.
\<close>

type_synonym byte = char
type_synonym bytes = "char list"

named_theorems shrink \<open>functions that return a part of their input do not lengthen it\<close>

section \<open>Byte strings: packages bytes and strings\<close>

abbreviation nl :: byte where "nl \<equiv> CHR 0x0A"
abbreviation cr :: byte where "cr \<equiv> CHR 0x0D"
abbreviation dquote :: byte where "dquote \<equiv> CHR 0x22"
abbreviation backslash :: byte where "backslash \<equiv> CHR 0x5C"

definition HasPrefix :: "bytes \<Rightarrow> bytes \<Rightarrow> bool" where
  "HasPrefix s p \<longleftrightarrow> take (length p) s = p"

definition HasSuffix :: "bytes \<Rightarrow> bytes \<Rightarrow> bool" where
  "HasSuffix s p \<longleftrightarrow> length p \<le> length s \<and> drop (length s - length p) s = p"

definition TrimPrefix :: "bytes \<Rightarrow> bytes \<Rightarrow> bytes" where
  "TrimPrefix s p = (if HasPrefix s p then drop (length p) s else s)"

definition TrimSuffix :: "bytes \<Rightarrow> bytes \<Rightarrow> bytes" where
  "TrimSuffix s p = (if HasSuffix s p then take (length s - length p) s else s)"

fun Contains :: "bytes \<Rightarrow> bytes \<Rightarrow> bool" where
  "Contains [] p = (p = [])"
| "Contains (c # s) p = (HasPrefix (c # s) p \<or> Contains s p)"

text \<open>\<open>bytes.IndexByte\<close>; the Go result -1 is \<open>None\<close>.\<close>

fun IndexByte :: "bytes \<Rightarrow> byte \<Rightarrow> nat option" where
  "IndexByte [] c = None"
| "IndexByte (x # xs) c = (if x = c then Some 0 else map_option Suc (IndexByte xs c))"

text \<open>
  \<open>bytes.TrimSpace\<close> and \<open>strings.TrimSpace\<close> strip the code points of
  \<open>unicode.IsSpace\<close> from both ends. UTF-8 is self-synchronising, so a text begins (ends) with
  such a code point exactly when it begins (ends) with one of the encodings listed here.
\<close>

definition space_seqs :: "bytes list" where
  "space_seqs =
     [[CHR 0x20], [CHR 0x09], [CHR 0x0A], [CHR 0x0B], [CHR 0x0C], [CHR 0x0D],
      [CHR 0xC2, CHR 0x85], [CHR 0xC2, CHR 0xA0], [CHR 0xE1, CHR 0x9A, CHR 0x80],
      [CHR 0xE2, CHR 0x80, CHR 0x80], [CHR 0xE2, CHR 0x80, CHR 0x81], [CHR 0xE2, CHR 0x80, CHR 0x82],
      [CHR 0xE2, CHR 0x80, CHR 0x83], [CHR 0xE2, CHR 0x80, CHR 0x84], [CHR 0xE2, CHR 0x80, CHR 0x85],
      [CHR 0xE2, CHR 0x80, CHR 0x86], [CHR 0xE2, CHR 0x80, CHR 0x87], [CHR 0xE2, CHR 0x80, CHR 0x88],
      [CHR 0xE2, CHR 0x80, CHR 0x89], [CHR 0xE2, CHR 0x80, CHR 0x8A], [CHR 0xE2, CHR 0x80, CHR 0xA8],
      [CHR 0xE2, CHR 0x80, CHR 0xA9], [CHR 0xE2, CHR 0x80, CHR 0xAF], [CHR 0xE2, CHR 0x81, CHR 0x9F],
      [CHR 0xE3, CHR 0x80, CHR 0x80]]"

text \<open>Length of the space code point at the front of the text, 0 when there is none.\<close>

definition lead_space :: "bytes list \<Rightarrow> bytes \<Rightarrow> nat" where
  "lead_space seqs s = (case filter (HasPrefix s) seqs of [] \<Rightarrow> 0 | p # _ \<Rightarrow> length p)"

function trim_front :: "bytes list \<Rightarrow> bytes \<Rightarrow> bytes" where
  "trim_front seqs s =
     (if lead_space seqs s = 0 \<or> s = [] then s else trim_front seqs (drop (lead_space seqs s) s))"
  by pat_completeness auto
termination
  by (relation "measure (length \<circ> snd)") auto

declare trim_front.simps [simp del]

definition TrimSpace :: "bytes \<Rightarrow> bytes" where
  "TrimSpace s = rev (trim_front (map rev space_seqs) (rev (trim_front space_seqs s)))"

section \<open>Results\<close>

text \<open>Running a list of fallible computations in order; the first error wins.\<close>

fun seq_results :: "('e + 'a) list \<Rightarrow> 'e + 'a list" where
  "seq_results [] = Inr []"
| "seq_results (Inl e # rs) = Inl e"
| "seq_results (Inr x # rs) = (case seq_results rs of Inl e \<Rightarrow> Inl e | Inr xs \<Rightarrow> Inr (x # xs))"

text \<open>The items of a JSON array or object, written with a comma between them.\<close>

fun comma_join :: "bytes list \<Rightarrow> bytes" where
  "comma_join [] = []"
| "comma_join [x] = x"
| "comma_join (x # y # ys) = x @ CHR '','' # comma_join (y # ys)"

section \<open>Lemmas\<close>

lemma HasPrefix_append [simp]: "HasPrefix (p @ s) p"
  by (simp add: HasPrefix_def)

lemma HasPrefix_iff: "HasPrefix s p \<longleftrightarrow> (\<exists>t. s = p @ t)"
  unfolding HasPrefix_def by (metis append_eq_conv_conj append_take_drop_id)

lemma HasSuffix_iff: "HasSuffix s p \<longleftrightarrow> (\<exists>t. s = t @ p)"
  unfolding HasSuffix_def by (metis append_take_drop_id append_eq_conv_conj diff_add_inverse2
      le_add2 length_append)

lemma TrimSuffix_append [simp]: "TrimSuffix (s @ p) p = s"
  by (simp add: TrimSuffix_def HasSuffix_def)

lemma TrimSuffix_notin: "p \<noteq> [] \<Longrightarrow> last p \<notin> set s \<Longrightarrow> TrimSuffix s p = s"
  by (auto simp: TrimSuffix_def HasSuffix_iff)

lemma length_TrimSuffix [shrink]: "length (TrimSuffix s p) \<le> length s"
  by (simp add: TrimSuffix_def)

lemma IndexByte_None [simp]: "IndexByte s c = None \<longleftrightarrow> c \<notin> set s"
  by (induction s) auto

lemma IndexByte_Some: "IndexByte s c = Some i \<Longrightarrow> i < length s \<and> s ! i = c \<and> c \<notin> set (take i s)"
  by (induction s arbitrary: i) (auto split: if_splits)

lemma IndexByte_append: "c \<notin> set s \<Longrightarrow> IndexByte (s @ c # t) c = Some (length s)"
  by (induction s) auto

lemma IndexByte_split:
  "IndexByte s c = Some i \<Longrightarrow> s = take i s @ c # drop (Suc i) s \<and> c \<notin> set (take i s)"
  using IndexByte_Some [of s c i] by (auto simp: id_take_nth_drop [symmetric])

lemma seq_results_map_Inr [simp]: "seq_results (map (\<lambda>x. Inr (f x)) xs) = Inr (map f xs)"
  by (induction xs) auto

lemma seq_results_InrD: "seq_results rs = Inr xs \<Longrightarrow> rs = map Inr xs"
  by (induction rs arbitrary: xs rule: seq_results.induct) (auto split: sum.splits)

lemma seq_results_Inr_iff: "seq_results rs = Inr xs \<longleftrightarrow> rs = map Inr xs"
  using seq_results_InrD seq_results_map_Inr [of id xs] by auto

lemma comma_join_Cons: "comma_join (x # xs) = (if xs = [] then x else x @ CHR '','' # comma_join xs)"
  by (cases xs) auto

lemma comma_join_hd: "x = c # b \<Longrightarrow> \<exists>b'. comma_join (x # xs) = c # b'"
  by (simp add: comma_join_Cons)

text \<open>Trimming a text that neither begins nor ends with a space leaves it alone.\<close>

lemma lead_space_0: "\<forall>p \<in> set seqs. \<not> HasPrefix s p \<Longrightarrow> lead_space seqs s = 0"
  by (simp add: lead_space_def filter_empty_conv)

lemma trim_front_id: "\<forall>p \<in> set seqs. \<not> HasPrefix s p \<Longrightarrow> trim_front seqs s = s"
  by (subst trim_front.simps) (simp add: lead_space_0)

lemma length_trim_front [shrink]: "length (trim_front seqs s) \<le> length s"
proof (induction seqs s rule: trim_front.induct)
  case (1 seqs s)
  then show ?case by (subst trim_front.simps) (fastforce intro: le_trans)
qed

lemma length_TrimSpace [shrink]: "length (TrimSpace s) \<le> length s"
  unfolding TrimSpace_def
  by (metis length_rev length_trim_front le_trans)

lemma HasPrefix_hd: "p \<noteq> [] \<Longrightarrow> HasPrefix s p \<Longrightarrow> hd p = hd s"
  by (auto simp: HasPrefix_iff)

definition space_lead_bytes :: "bytes" where
  "space_lead_bytes = map hd space_seqs"

definition space_last_bytes :: "bytes" where
  "space_last_bytes = map last space_seqs"

lemma space_seqs_nonempty: "p \<in> set space_seqs \<Longrightarrow> p \<noteq> []"
  by (auto simp: space_seqs_def)

lemma TrimSpace_id:
  assumes "hd s \<notin> set space_lead_bytes" "last s \<notin> set space_last_bytes"
  shows "TrimSpace s = s"
proof (cases "s = []")
  case True
  then show ?thesis
    by (simp add: TrimSpace_def trim_front.simps)
next
  case False
  have front: "trim_front space_seqs s = s"
    using assms(1) space_seqs_nonempty
    by (intro trim_front_id) (metis HasPrefix_hd image_eqI list.set_map space_lead_bytes_def)
  have "\<not> HasPrefix (rev s) p" if "p \<in> set (map rev space_seqs)" for p
  proof
    assume "HasPrefix (rev s) p"
    from that obtain q where q: "q \<in> set space_seqs" "p = rev q" by auto
    then have "hd p = hd (rev s)"
      using \<open>HasPrefix (rev s) p\<close> space_seqs_nonempty by (metis HasPrefix_hd rev_is_Nil_conv)
    then have "last q = last s" using q space_seqs_nonempty False by (simp add: hd_rev)
    then show False using assms(2) q(1) by (metis image_eqI list.set_map space_last_bytes_def)
  qed
  then have "trim_front (map rev space_seqs) (rev s) = rev s"
    by (intro trim_front_id) blast
  with front show ?thesis by (simp add: TrimSpace_def)
qed

end
