(* ===== verification/Utf8.thy ===== *)
theory Utf8
  imports Prelude
begin

text \<open>
  Package \<open>unicode/utf8\<close> as the gateway uses it: a \<open>range\<close> loop over a Go string
  decodes one rune after the other (an invalid byte yields U+FFFD and width 1), and
  \<open>WriteRune\<close> encodes one. A rune is a \<open>nat\<close>. The main facts: decoding inverts
  encoding on scalar values, and every decoded rune is a scalar value.
\<close>

definition RuneError :: nat where "RuneError = 0xFFFD"

definition is_surrogate :: "nat \<Rightarrow> bool" where
  "is_surrogate r \<longleftrightarrow> 0xD800 \<le> r \<and> r < 0xE000"

definition is_scalar :: "nat \<Rightarrow> bool" where
  "is_scalar r \<longleftrightarrow> r \<le> 0x10FFFF \<and> \<not> is_surrogate r"

text \<open>The accept range of the second byte, by the first byte.\<close>

definition accept_lo :: "nat \<Rightarrow> nat" where
  "accept_lo b0 = (if b0 = 0xE0 then 0xA0 else if b0 = 0xF0 then 0x90 else 0x80)"

definition accept_hi :: "nat \<Rightarrow> nat" where
  "accept_hi b0 = (if b0 = 0xED then 0x9F else if b0 = 0xF4 then 0x8F else 0xBF)"

definition is_cont :: "nat \<Rightarrow> bool" where
  "is_cont b \<longleftrightarrow> 0x80 \<le> b \<and> b \<le> 0xBF"

text \<open>\<open>utf8.DecodeRune\<close>: the first rune and its width in bytes.\<close>

fun decode_rune :: "bytes \<Rightarrow> nat \<times> nat" where
  "decode_rune [] = (RuneError, 0)"
| "decode_rune (c # cs) =
     (let b0 = of_char c in
      if b0 < 0x80 then (b0, 1)
      else if b0 < 0xC2 \<or> 0xF4 < b0 then (RuneError, 1)
      else case cs of [] \<Rightarrow> (RuneError, 1) | c1 # cs1 \<Rightarrow>
        (let b1 = of_char c1 in
         if b1 < accept_lo b0 \<or> accept_hi b0 < b1 then (RuneError, 1)
         else if b0 < 0xE0 then (b0 mod 32 * 64 + b1 mod 64, 2)
         else case cs1 of [] \<Rightarrow> (RuneError, 1) | c2 # cs2 \<Rightarrow>
           (let b2 = of_char c2 in
            if \<not> is_cont b2 then (RuneError, 1)
            else if b0 < 0xF0 then (b0 mod 16 * 4096 + b1 mod 64 * 64 + b2 mod 64, 3)
            else case cs2 of [] \<Rightarrow> (RuneError, 1) | c3 # cs3 \<Rightarrow>
              (let b3 = of_char c3 in
               if \<not> is_cont b3 then (RuneError, 1)
               else (b0 mod 8 * 262144 + b1 mod 64 * 4096 + b2 mod 64 * 64 + b3 mod 64, 4)))))"

text \<open>\<open>utf8.AppendRune\<close>, which \<open>bytes.Buffer.WriteRune\<close> uses.\<close>

definition encode_rune :: "nat \<Rightarrow> bytes" where
  "encode_rune r =
     (if r < 0x80 then [char_of r]
      else if r < 0x800 then [char_of (0xC0 + r div 64), char_of (0x80 + r mod 64)]
      else if \<not> is_scalar r then [CHR 0xEF, CHR 0xBF, CHR 0xBD]
      else if r < 0x10000 then
        [char_of (0xE0 + r div 4096), char_of (0x80 + r div 64 mod 64), char_of (0x80 + r mod 64)]
      else
        [char_of (0xF0 + r div 262144), char_of (0x80 + r div 4096 mod 64),
         char_of (0x80 + r div 64 mod 64), char_of (0x80 + r mod 64)])"

definition utf8 :: "nat list \<Rightarrow> bytes" where
  "utf8 rs = concat (map encode_rune rs)"

text \<open>The runes a \<open>range\<close> loop over the string yields.\<close>

lemma decode_rune_width: "0 < snd (decode_rune (c # cs))" "snd (decode_rune (c # cs)) \<le> Suc (length cs)"
  by (auto simp: Let_def split: list.splits)

function runes :: "bytes \<Rightarrow> nat list" where
  "runes [] = []"
| "runes (c # cs) = fst (decode_rune (c # cs)) # runes (drop (snd (decode_rune (c # cs))) (c # cs))"
  by pat_completeness auto
termination
  by (relation "measure length") (use decode_rune_width in \<open>auto simp del: decode_rune.simps\<close>)

definition valid_utf8 :: "bytes \<Rightarrow> bool" where
  "valid_utf8 s \<longleftrightarrow> utf8 (runes s) = s"

section \<open>Lemmas\<close>

lemma utf8_simps [simp]: "utf8 [] = []" "utf8 (r # rs) = encode_rune r @ utf8 rs"
  "utf8 (rs @ rs') = utf8 rs @ utf8 rs'"
  by (simp_all add: utf8_def)

lemma of_char_lt: "of_char c < (256 :: nat)"
  by (cases c) (simp add: of_char_def)

text \<open>The bytes of an encoded rune, read back: the payload bits survive the marker bits.\<close>

lemma marker_bits:
  "q < 32 \<Longrightarrow> (0xC0 + q) mod 32 = (q :: nat)" "q < 16 \<Longrightarrow> (0xE0 + q) mod 16 = (q :: nat)"
  "q < 8 \<Longrightarrow> (0xF0 + q) mod 8 = (q :: nat)" "m < 64 \<Longrightarrow> (0x80 + m) mod 64 = (m :: nat)"
  using mod_mult_self3 [of 6 32 q] mod_mult_self3 [of 14 16 q] mod_mult_self3 [of 30 8 q]
    mod_mult_self3 [of 2 64 m] by simp_all

lemma of_char_marker:
  "q < 32 \<Longrightarrow> of_char (char_of (0xC0 + q) :: char) = (0xC0 + q :: nat)"
  "q < 16 \<Longrightarrow> of_char (char_of (0xE0 + q) :: char) = (0xE0 + q :: nat)"
  "q < 8 \<Longrightarrow> of_char (char_of (0xF0 + q) :: char) = (0xF0 + q :: nat)"
  "m < 64 \<Longrightarrow> of_char (char_of (0x80 + m) :: char) = (0x80 + m :: nat)"
  by simp_all

lemmas marker = marker_bits of_char_marker

lemma decode_rune_2:
  assumes "2 \<le> q" "q < 32" "m < 64"
  shows "decode_rune (char_of (0xC0 + q) # char_of (0x80 + m) # s) = (q * 64 + m, 2)"
  using assms by (simp add: Let_def accept_lo_def accept_hi_def marker del: of_char_of)

lemma decode_rune_3:
  assumes "q < 16" "m < 64" "n < 64" "q = 0 \<Longrightarrow> 32 \<le> m" "q = 13 \<Longrightarrow> m < 32"
  shows "decode_rune (char_of (0xE0 + q) # char_of (0x80 + m) # char_of (0x80 + n) # s)
         = (q * 4096 + m * 64 + n, 3)"
  using assms by (auto simp add: Let_def accept_lo_def accept_hi_def is_cont_def marker simp del: of_char_of)

lemma decode_rune_4:
  assumes "q < 5" "m < 64" "n < 64" "k < 64" "q = 0 \<Longrightarrow> 16 \<le> m" "q = 4 \<Longrightarrow> m < 16"
  shows "decode_rune (char_of (0xF0 + q) # char_of (0x80 + m) # char_of (0x80 + n) # char_of (0x80 + k) # s)
         = (q * 262144 + m * 4096 + n * 64 + k, 4)"
  using assms by (auto simp add: Let_def accept_lo_def accept_hi_def is_cont_def marker simp del: of_char_of)

lemma encode_rune_nonempty [simp]: "encode_rune r \<noteq> []"
  by (simp add: encode_rune_def)

lemma decode_encode_rune:
  assumes "is_scalar r"
  shows "decode_rune (encode_rune r @ s) = (r, length (encode_rune r))"
proof -
  consider "r < 0x80" | "0x80 \<le> r" "r < 0x800" | "0x800 \<le> r" "r < 0x10000"
    | "0x10000 \<le> r" "r \<le> 0x10FFFF"
    using assms by (fastforce simp: is_scalar_def)
  then show ?thesis
  proof cases
    case 1
    then show ?thesis by (simp add: encode_rune_def)
  next
    case 2
    then have "2 \<le> r div 64" "r div 64 < 32" by simp_all
    from decode_rune_2 [OF this, of "r mod 64" s] 2 show ?thesis
      by (simp add: encode_rune_def del: decode_rune.simps)
  next
    case 3
    have "r div 4096 = r div 64 div 64" by (simp flip: div_mult2_eq)
    then have top: "r div 64 = r div 4096 * 64 + r div 64 mod 64"
      by (simp del: div_mult2_eq)
    have "32 \<le> r div 64" using 3 by simp
    with top have lo: "r div 4096 = 0 \<Longrightarrow> 32 \<le> r div 64 mod 64" by linarith
    from top have split: "r div 4096 * 4096 + r div 64 mod 64 * 64 + r mod 64 = r"
      using div_mult_mod_eq [of r 64] by linarith
    have "r < 0xD800 \<or> 0xE000 \<le> r" using assms by (auto simp: is_scalar_def is_surrogate_def)
    with split have hi: "r div 4096 = 13 \<Longrightarrow> r div 64 mod 64 < 32"
      using mod_less_divisor [of 64 r] mod_less_divisor [of 64 "r div 64"] by linarith
    have "r div 4096 < 16" using 3 by simp
    from decode_rune_3 [OF this _ _ lo hi, of "r mod 64" s] split 3 assms show ?thesis
      by (simp add: encode_rune_def del: decode_rune.simps)
  next
    case 4
    have d: "r div 4096 = r div 64 div 64" "r div 262144 = r div 4096 div 64"
      by (simp_all flip: div_mult2_eq)
    then have top: "r div 4096 = r div 262144 * 64 + r div 4096 mod 64"
      by (simp del: div_mult2_eq)
    have "16 \<le> r div 4096" "r div 4096 < 272" using 4 by simp_all
    with top have lo: "r div 262144 = 0 \<Longrightarrow> 16 \<le> r div 4096 mod 64"
      and hi: "r div 262144 = 4 \<Longrightarrow> r div 4096 mod 64 < 16" by linarith+
    from d have split:
        "r div 262144 * 262144 + r div 4096 mod 64 * 4096 + r div 64 mod 64 * 64 + r mod 64 = r"
      using div_mult_mod_eq [of r 64] div_mult_mod_eq [of "r div 64" 64] top by linarith
    have "r div 262144 < 5" using 4 by simp
    from decode_rune_4 [OF this _ _ _ lo hi, of "r div 64 mod 64" "r mod 64" s] split 4 assms
    show ?thesis by (simp add: encode_rune_def del: decode_rune.simps)
  qed
qed

text \<open>Every rune that comes out of the decoder is a scalar value.\<close>

lemma is_scalar_RuneError [simp]: "is_scalar RuneError"
  by (simp add: is_scalar_def is_surrogate_def RuneError_def)

lemma payload_bits:
  "0xC0 \<le> b \<Longrightarrow> b < 0xE0 \<Longrightarrow> b mod 32 = b - (0xC0 :: nat)"
  "0xE0 \<le> b \<Longrightarrow> b < 0xF0 \<Longrightarrow> b mod 16 = b - (0xE0 :: nat)"
  "0xF0 \<le> b \<Longrightarrow> b < 0xF8 \<Longrightarrow> b mod 8 = b - (0xF0 :: nat)"
  "0x80 \<le> b \<Longrightarrow> b \<le> 0xBF \<Longrightarrow> b mod 64 = b - (0x80 :: nat)"
  using marker_bits(1) [of "b - 0xC0"] marker_bits(2) [of "b - 0xE0"] marker_bits(3) [of "b - 0xF0"]
    marker_bits(4) [of "b - 0x80"] by simp_all

lemma accept_range: "\<not> b1 < accept_lo b0 \<Longrightarrow> \<not> accept_hi b0 < b1 \<Longrightarrow> 0x80 \<le> b1 \<and> b1 \<le> 0xBF"
  by (auto simp: accept_lo_def accept_hi_def split: if_splits)

lemma scalar_2:
  fixes b0 b1 :: nat
  assumes "\<not> b0 < 0xC2" "b0 < 0xE0" "0x80 \<le> b1 \<and> b1 \<le> 0xBF"
  shows "is_scalar (b0 mod 32 * 64 + b1 mod 64)"
proof -
  have "(b0 - 0xC0) * 64 + (b1 - 0x80) < 0x800" using assms by linarith
  then show ?thesis using assms by (simp add: is_scalar_def is_surrogate_def payload_bits)
qed

lemma scalar_3:
  fixes b0 b1 b2 :: nat
  assumes "\<not> b0 < 0xE0" "b0 < 0xF0" "\<not> b1 < accept_lo b0" "\<not> accept_hi b0 < b1" "is_cont b2"
  shows "is_scalar (b0 mod 16 * 4096 + b1 mod 64 * 64 + b2 mod 64)"
proof -
  note b1 = accept_range [OF assms(3,4)]
  have b2: "0x80 \<le> b2 \<and> b2 \<le> 0xBF" using assms(5) by (simp add: is_cont_def)
  have "b0 = 0xED \<Longrightarrow> b1 \<le> 0x9F" using assms(4) by (simp add: accept_hi_def)
  moreover have "(b0 - 0xE0) * 4096 + (b1 - 0x80) * 64 + (b2 - 0x80) \<le> 0xFFFF"
    using assms(2) b1 b2 by linarith
  moreover have "\<not> is_surrogate ((b0 - 0xE0) * 4096 + (b1 - 0x80) * 64 + (b2 - 0x80))"
  proof (cases "b0 = 0xED")
    case True
    then have "(b0 - 0xE0) * 4096 + (b1 - 0x80) * 64 + (b2 - 0x80) < 0xD800"
      using calculation(1) b2 by linarith
    then show ?thesis by (simp add: is_surrogate_def)
  next
    case False
    then consider "b0 - 0xE0 \<le> 12" | "14 \<le> b0 - 0xE0" using assms(1) by linarith
    then show ?thesis using b1 b2 unfolding is_surrogate_def by cases linarith+
  qed
  ultimately show ?thesis using assms(1,2) b1 b2 by (simp add: is_scalar_def payload_bits)
qed

lemma scalar_4:
  fixes b0 b1 b2 b3 :: nat
  assumes "\<not> b0 < 0xF0" "\<not> 0xF4 < b0" "\<not> b1 < accept_lo b0" "\<not> accept_hi b0 < b1"
    and "is_cont b2" "is_cont b3"
  shows "is_scalar (b0 mod 8 * 262144 + b1 mod 64 * 4096 + b2 mod 64 * 64 + b3 mod 64)"
proof -
  note b1 = accept_range [OF assms(3,4)]
  have b2: "0x80 \<le> b2 \<and> b2 \<le> 0xBF" "0x80 \<le> b3 \<and> b3 \<le> 0xBF"
    using assms(5,6) by (simp_all add: is_cont_def)
  have lo: "b0 = 0xF0 \<Longrightarrow> 0x90 \<le> b1" using assms(3) by (simp add: accept_lo_def)
  have hi: "b0 = 0xF4 \<Longrightarrow> b1 \<le> 0x8F" using assms(4) by (simp add: accept_hi_def)
  consider "b0 = 0xF0" | "b0 = 0xF4" | "0xF1 \<le> b0" "b0 \<le> 0xF3" using assms(1,2) by linarith
  then have "0xE000 \<le> (b0 - 0xF0) * 262144 + (b1 - 0x80) * 4096 + (b2 - 0x80) * 64 + (b3 - 0x80)
    \<and> (b0 - 0xF0) * 262144 + (b1 - 0x80) * 4096 + (b2 - 0x80) * 64 + (b3 - 0x80) \<le> 0x10FFFF"
    using b1 b2 lo hi by cases auto
  then show ?thesis using assms(1,2) b1 b2 by (simp add: is_scalar_def is_surrogate_def payload_bits)
qed

lemma decode_rune_scalar: "is_scalar (fst (decode_rune s))"
proof (cases s)
  case (Cons c cs)
  have ascii: "of_char c < (0x80 :: nat) \<Longrightarrow> is_scalar (of_char c)"
    by (simp add: is_scalar_def is_surrogate_def)
  show ?thesis unfolding Cons
    using ascii accept_range [of "of_char (hd cs)" "of_char c"]
    by (auto simp: Let_def intro: scalar_2 scalar_3 scalar_4 split: list.split)
qed simp

lemma runes_scalar: "r \<in> set (runes s) \<Longrightarrow> is_scalar r"
  by (induction s rule: runes.induct) (auto simp: decode_rune_scalar simp del: decode_rune.simps)

lemma runes_utf8: "\<forall>r \<in> set rs. is_scalar r \<Longrightarrow> runes (utf8 rs) = rs"
proof (induction rs)
  case (Cons r rs)
  obtain c cs where c: "encode_rune r @ utf8 rs = c # cs" by (cases "encode_rune r") auto
  have "decode_rune (c # cs) = (r, length (encode_rune r))"
    using decode_encode_rune [of r "utf8 rs"] Cons.prems c by simp
  moreover have "drop (length (encode_rune r)) (c # cs) = utf8 rs" by (simp flip: c)
  ultimately show ?case using Cons c by (simp del: decode_rune.simps)
qed simp

lemma valid_utf8_utf8: "\<forall>r \<in> set rs. is_scalar r \<Longrightarrow> valid_utf8 (utf8 rs)"
  by (simp add: valid_utf8_def runes_utf8)

lemma valid_utf8E: "valid_utf8 s \<Longrightarrow> (\<And>rs. s = utf8 rs \<Longrightarrow> \<forall>r \<in> set rs. is_scalar r \<Longrightarrow> P) \<Longrightarrow> P"
  unfolding valid_utf8_def by (metis runes_scalar)

lemma valid_utf8_append [simp]: "valid_utf8 s \<Longrightarrow> valid_utf8 t \<Longrightarrow> valid_utf8 (s @ t)"
  by (elim valid_utf8E) (auto simp flip: utf8_simps(3) intro!: valid_utf8_utf8)

lemma valid_utf8_Nil [simp]: "valid_utf8 []"
  by (simp add: valid_utf8_def)

text \<open>A non-ASCII rune is written with non-ASCII bytes only, an ASCII rune as itself.\<close>

lemma encode_rune_ascii: "r < 0x80 \<Longrightarrow> encode_rune r = [char_of r]"
  by (simp add: encode_rune_def)

lemma encode_rune_high:
  assumes "0x80 \<le> r" "c \<in> set (encode_rune r)"
  shows "0x80 \<le> (of_char c :: nat)"
proof -
  have low: "m < 64 \<Longrightarrow> 0x80 \<le> (of_char (char_of (0x80 + m) :: char) :: nat)" for m :: nat by simp
  have "r < 0x800 \<Longrightarrow> r div 64 < 32" "r < 0x10000 \<Longrightarrow> r div 4096 < 16" "is_scalar r \<Longrightarrow> r div 262144 < 8"
    by (auto simp: less_mult_imp_div_less is_scalar_def)
  then have "r < 0x800 \<Longrightarrow> 0x80 \<le> (of_char (char_of (0xC0 + r div 64) :: char) :: nat)"
    "r < 0x10000 \<Longrightarrow> 0x80 \<le> (of_char (char_of (0xE0 + r div 4096) :: char) :: nat)"
    "is_scalar r \<Longrightarrow> 0x80 \<le> (of_char (char_of (0xF0 + r div 262144) :: char) :: nat)"
    by (simp_all add: of_char_marker del: of_char_of)
  with assms low show ?thesis by (auto simp: encode_rune_def split: if_splits simp del: of_char_of)
qed

text \<open>
  Decoding never looks past an ASCII byte, so what follows one cannot influence the runes
  before it.
\<close>

lemma decode_rune_stop:
  assumes "of_char q < (0x80 :: nat)" "x \<noteq> []"
  shows "decode_rune (x @ q # s) = decode_rune (x @ q # t)"
    and "snd (decode_rune (x @ q # s)) \<le> length x"
proof -
  have q: "\<not> is_cont (of_char q)" "of_char q < accept_lo b" for b
    using assms(1) by (auto simp: is_cont_def accept_lo_def)
  from assms(2) consider c where "x = [c]" | c d where "x = [c, d]" | c d e where "x = [c, d, e]"
    | c d e f y where "x = c # d # e # f # y"
    by (metis list.exhaust)
  then have "decode_rune (x @ q # s) = decode_rune (x @ q # t) \<and> snd (decode_rune (x @ q # s)) \<le> length x"
    by cases (simp_all add: q Let_def)
  then show "decode_rune (x @ q # s) = decode_rune (x @ q # t)"
    and "snd (decode_rune (x @ q # s)) \<le> length x" by blast+
qed

end
