(* ===== verification/Json.thy ===== *)
theory Json
  imports Utf8
begin

text \<open>
  Package \<open>encoding/json\<close> of the Go standard library, as far as the gateway uses it: the
  scanner and decoder (RFC 8259 texts, at most 10000 nested containers, strings coerced to valid
  UTF-8), \<open>Unmarshal\<close> (the whole input is one value) and \<open>Decoder.Decode\<close> (the first
  value of the input), decoding into \<open>any\<close> with \<open>UseNumber\<close>, and \<open>Marshal\<close> with its
  HTML escaping. The parse tree keeps, for every element and member, the exact source bytes
  that a \<open>json.RawMessage\<close> field receives, and keeps members in source order with
  duplicates, so that each typed decoder can treat them as Go does.
\<close>

section \<open>Scanner and decoder\<close>

definition is_ws :: "byte \<Rightarrow> bool" where
  "is_ws c \<longleftrightarrow> c = CHR 0x20 \<or> c = CHR 0x09 \<or> c = CHR 0x0A \<or> c = CHR 0x0D"

definition skip_ws :: "bytes \<Rightarrow> bytes" where
  "skip_ws s = dropWhile is_ws s"

definition is_digit :: "byte \<Rightarrow> bool" where
  "is_digit c \<longleftrightarrow> CHR ''0'' \<le> c \<and> c \<le> CHR ''9''"

fun eat :: "byte \<Rightarrow> bytes \<Rightarrow> bytes option" where
  "eat c [] = None"
| "eat c (x # xs) = (if x = c then Some xs else None)"

definition hex_val :: "byte \<Rightarrow> nat option" where
  "hex_val c =
     (if CHR ''0'' \<le> c \<and> c \<le> CHR ''9'' then Some (of_char c - 0x30)
      else if CHR ''a'' \<le> c \<and> c \<le> CHR ''f'' then Some (of_char c - 0x61 + 10)
      else if CHR ''A'' \<le> c \<and> c \<le> CHR ''F'' then Some (of_char c - 0x41 + 10)
      else None)"

text \<open>The four hexadecimal digits of a \<open>\u\<close> escape.\<close>

fun hex4 :: "bytes \<Rightarrow> (nat \<times> bytes) option" where
  "hex4 (a # b # c # d # s) =
     (case (hex_val a, hex_val b, hex_val c, hex_val d) of
        (Some w, Some x, Some y, Some z) \<Rightarrow> Some (w * 4096 + x * 256 + y * 16 + z, s)
      | _ \<Rightarrow> None)"
| "hex4 s = None"

text \<open>
  \<open>unquoteBytes\<close> on the text after a backslash. A surrogate half that is not followed by its
  partner becomes U+FFFD; the text after it is then read on its own.
\<close>

definition low_half :: "bytes \<Rightarrow> (nat \<times> bytes) option" where
  "low_half s = (case eat backslash s of None \<Rightarrow> None
     | Some s1 \<Rightarrow> (case eat (CHR ''u'') s1 of None \<Rightarrow> None | Some s2 \<Rightarrow> hex4 s2))"

definition junescape_u :: "bytes \<Rightarrow> (nat \<times> bytes) option" where
  "junescape_u s = (case hex4 s of None \<Rightarrow> None
     | Some (rr, s1) \<Rightarrow>
        if \<not> is_surrogate rr then Some (rr, s1)
        else (case low_half s1 of None \<Rightarrow> Some (RuneError, s1)
              | Some (rr1, s2) \<Rightarrow>
                 if rr < 0xDC00 \<and> 0xDC00 \<le> rr1 \<and> rr1 < 0xE000
                 then Some ((rr - 0xD800) * 1024 + (rr1 - 0xDC00) + 0x10000, s2)
                 else Some (RuneError, s1)))"

fun junescape :: "bytes \<Rightarrow> (nat \<times> bytes) option" where
  "junescape [] = None"
| "junescape (c # s) =
     (if c = dquote \<or> c = backslash \<or> c = CHR ''/'' then Some (of_char c, s)
      else if c = CHR ''b'' then Some (8, s)
      else if c = CHR ''f'' then Some (12, s)
      else if c = CHR ''n'' then Some (10, s)
      else if c = CHR ''r'' then Some (13, s)
      else if c = CHR ''t'' then Some (9, s)
      else if c = CHR ''u'' then junescape_u s
      else None)"

lemma eat_shrink [shrink]: "eat c s = Some t \<Longrightarrow> s = c # t"
  by (cases s) (auto split: if_splits)

lemma hex4_shrink: "hex4 s = Some (r, t) \<Longrightarrow> length s = length t + 4"
  by (induction s rule: hex4.induct) (auto split: option.splits)

lemma low_half_shrink: "low_half s = Some (r, t) \<Longrightarrow> length t < length s"
  by (auto simp: low_half_def dest!: eat_shrink hex4_shrink split: option.splits)

lemma junescape_u_shrink: "junescape_u s = Some (r, t) \<Longrightarrow> length t < length s"
  by (auto simp: junescape_u_def dest!: hex4_shrink low_half_shrink split: option.splits if_splits)

lemma junescape_shrink: "junescape s = Some (r, t) \<Longrightarrow> length t < length s"
  by (cases s) (auto dest: junescape_u_shrink split: if_splits)

text \<open>The runes of a string literal, from after its opening quote, and the text after its end.\<close>

function jstr :: "bytes \<Rightarrow> (nat list \<times> bytes) option" where
  "jstr [] = None"
| "jstr (c # cs) =
     (if c = dquote then Some ([], cs)
      else if c = backslash then
        (case junescape cs of None \<Rightarrow> None
         | Some (r, t) \<Rightarrow> map_option (apfst ((#) r)) (jstr t))
      else if of_char c < (0x20 :: nat) then None
      else map_option (apfst ((#) (fst (decode_rune (c # cs)))))
             (jstr (drop (snd (decode_rune (c # cs))) (c # cs))))"
  by pat_completeness auto
termination
proof (relation "measure length", goal_cases)
  case (2 c cs x r t)
  then show ?case using junescape_shrink [of cs r t] by simp
next
  case (3 c cs)
  then show ?case using decode_rune_width(1) [of c cs] by (simp del: decode_rune.simps)
qed simp

text \<open>A number literal, kept in its lexical form.\<close>

definition jdigits :: "bytes \<Rightarrow> (bytes \<times> bytes) option" where
  "jdigits s = (if takeWhile is_digit s = [] then None
                else Some (takeWhile is_digit s, dropWhile is_digit s))"

definition jint :: "bytes \<Rightarrow> (bytes \<times> bytes) option" where
  "jint s = (case eat (CHR ''0'') s of Some t \<Rightarrow> Some (''0'', t) | None \<Rightarrow> jdigits s)"

definition jfrac :: "bytes \<Rightarrow> (bytes \<times> bytes) option" where
  "jfrac s = (case eat (CHR ''.'') s of None \<Rightarrow> Some ([], s)
     | Some t \<Rightarrow> map_option (apfst ((#) (CHR ''.''))) (jdigits t))"

definition jsign :: "bytes \<Rightarrow> bytes \<times> bytes" where
  "jsign s = (case eat (CHR ''+'') s of Some t \<Rightarrow> (''+'', t)
     | None \<Rightarrow> (case eat (CHR ''-'') s of Some t \<Rightarrow> (''-'', t) | None \<Rightarrow> ([], s)))"

definition jexp_digits :: "byte \<Rightarrow> bytes \<Rightarrow> (bytes \<times> bytes) option" where
  "jexp_digits e t =
     map_option (apfst (\<lambda>ds. e # fst (jsign t) @ ds)) (jdigits (snd (jsign t)))"

definition jexp :: "bytes \<Rightarrow> (bytes \<times> bytes) option" where
  "jexp s = (case eat (CHR ''e'') s of Some t \<Rightarrow> jexp_digits (CHR ''e'') t
     | None \<Rightarrow> (case eat (CHR ''E'') s of Some t \<Rightarrow> jexp_digits (CHR ''E'') t | None \<Rightarrow> Some ([], s)))"

definition jminus :: "bytes \<Rightarrow> bytes \<times> bytes" where
  "jminus s = (case eat (CHR ''-'') s of Some t \<Rightarrow> (''-'', t) | None \<Rightarrow> ([], s))"

definition jnumber :: "bytes \<Rightarrow> (bytes \<times> bytes) option" where
  "jnumber s =
     (case jint (snd (jminus s)) of None \<Rightarrow> None
      | Some (i, s1) \<Rightarrow> (case jfrac s1 of None \<Rightarrow> None
        | Some (f, s2) \<Rightarrow> (case jexp s2 of None \<Rightarrow> None
          | Some (e, s3) \<Rightarrow> Some (fst (jminus s) @ i @ f @ e, s3))))"

text \<open>
  Parse trees. An array element carries its source bytes; an object member carries its decoded
  key and the source bytes of its value.
\<close>

datatype jtree =
    JNull
  | JBool bool
  | JNum bytes
  | JStr bytes
  | JArr "(bytes \<times> jtree) list"
  | JObj "(bytes \<times> bytes \<times> jtree) list"

definition jlit :: "bytes \<Rightarrow> jtree \<Rightarrow> bytes \<Rightarrow> (jtree \<times> bytes) option" where
  "jlit l v s = (if HasPrefix s l then Some (v, drop (length l) s) else None)"

text \<open>The source bytes between the start of a value and the text left after it.\<close>

definition consumed :: "bytes \<Rightarrow> bytes \<Rightarrow> bytes" where
  "consumed s t = take (length s - length t) s"

lemma jstr_shrink: "jstr s = Some (rs, t) \<Longrightarrow> length t < length s"
proof (induction s arbitrary: rs rule: jstr.induct)
  case (2 c cs)
  then show ?case
    using junescape_shrink [of cs]
    by (fastforce split: if_splits option.splits simp del: decode_rune.simps)
qed simp

lemma skip_ws_shrink: "length (skip_ws s) \<le> length s"
  by (simp add: skip_ws_def length_dropWhile_le)

lemma member_value_shorter:
  assumes "eat dquote s = Some s1" "jstr s1 = Some (k, s2)" "eat (CHR '':'') (skip_ws s2) = Some s3"
  shows "length (skip_ws s3) < length s"
  using assms skip_ws_shrink [of s2] skip_ws_shrink [of s3] jstr_shrink [of s1 k s2]
  by (auto dest!: eat_shrink)

text \<open>
  The decoder proper. The number is the nesting depth still allowed (\<open>maxNestingDepth\<close> is
  10000). The comparison of lengths in the loops over elements and members only serves the
  termination proof: a value is never empty (lemma \<open>jvalue_shrink\<close>), so it always holds.
\<close>

function jvalue :: "nat \<Rightarrow> bytes \<Rightarrow> (jtree \<times> bytes) option"
  and jelems :: "nat \<Rightarrow> bytes \<Rightarrow> ((bytes \<times> jtree) list \<times> bytes) option"
  and jmembers :: "nat \<Rightarrow> bytes \<Rightarrow> ((bytes \<times> bytes \<times> jtree) list \<times> bytes) option"
where
  "jvalue d s =
     (case s of [] \<Rightarrow> None
      | c # cs \<Rightarrow>
        if c = CHR ''{'' then
          (if d = 0 then None
           else (case eat (CHR ''}'') (skip_ws cs) of Some t \<Rightarrow> Some (JObj [], t)
                 | None \<Rightarrow> map_option (apfst JObj) (jmembers (d - 1) (skip_ws cs))))
        else if c = CHR ''['' then
          (if d = 0 then None
           else (case eat (CHR '']'') (skip_ws cs) of Some t \<Rightarrow> Some (JArr [], t)
                 | None \<Rightarrow> map_option (apfst JArr) (jelems (d - 1) (skip_ws cs))))
        else if c = dquote then map_option (apfst (JStr \<circ> utf8)) (jstr cs)
        else if c = CHR ''t'' then jlit ''true'' (JBool True) s
        else if c = CHR ''f'' then jlit ''false'' (JBool False) s
        else if c = CHR ''n'' then jlit ''null'' JNull s
        else map_option (apfst JNum) (jnumber s))"
| "jelems d s =
     (case jvalue d s of None \<Rightarrow> None
      | Some (v, t) \<Rightarrow>
        (case eat (CHR '','') (skip_ws t) of
           Some u \<Rightarrow>
             (if length (skip_ws u) < length s
              then map_option (apfst ((#) (consumed s t, v))) (jelems d (skip_ws u)) else None)
         | None \<Rightarrow> map_option (Pair [(consumed s t, v)]) (eat (CHR '']'') (skip_ws t))))"
| "jmembers d s =
     (case eat dquote s of None \<Rightarrow> None
      | Some s1 \<Rightarrow> (case jstr s1 of None \<Rightarrow> None
        | Some (k, s2) \<Rightarrow> (case eat (CHR '':'') (skip_ws s2) of None \<Rightarrow> None
          | Some s3 \<Rightarrow> (case jvalue d (skip_ws s3) of None \<Rightarrow> None
            | Some (v, t) \<Rightarrow>
              (case eat (CHR '','') (skip_ws t) of
                 Some u \<Rightarrow>
                   (if length (skip_ws u) < length s
                    then map_option (apfst ((#) (utf8 k, consumed (skip_ws s3) t, v))) (jmembers d (skip_ws u))
                    else None)
               | None \<Rightarrow> map_option (Pair [(utf8 k, consumed (skip_ws s3) t, v)])
                          (eat (CHR ''}'') (skip_ws t)))))))"
  by pat_completeness auto
termination
  by (relation "measures [case_sum fst (case_sum fst fst),
                          case_sum (length \<circ> snd) (case_sum (length \<circ> snd) (length \<circ> snd)),
                          case_sum (\<lambda>_. 0) (case_sum (\<lambda>_. 1) (\<lambda>_. 1))]")
    (auto intro: member_value_shorter)

declare jvalue.simps [simp del] jelems.simps [simp del] jmembers.simps [simp del]

section \<open>Entry points and the value type any\<close>

definition maxNestingDepth :: nat where "maxNestingDepth = 10000"

text \<open>\<open>json.Unmarshal\<close> first checks that the whole input is one JSON text.\<close>

definition json_unmarshal :: "bytes \<Rightarrow> jtree option" where
  "json_unmarshal s = (case jvalue maxNestingDepth (skip_ws s) of None \<Rightarrow> None
     | Some (v, t) \<Rightarrow> if skip_ws t = [] then Some v else None)"

text \<open>\<open>Decoder.Decode\<close> reads the first value and leaves the rest of the input.\<close>

definition json_decode :: "bytes \<Rightarrow> jtree option" where
  "json_decode s = map_option fst (jvalue maxNestingDepth (skip_ws s))"

text \<open>
  Go values of static type \<open>any\<close>. A map is an association list with distinct keys;
  \<open>AOther\<close> stands for a value of a dynamic type that has no JSON encoding (a channel, a
  function, a complex number), with the type's name.
\<close>

datatype goany =
    ANil
  | ABool bool
  | ANumber bytes
  | AString bytes
  | ASlice "goany list"
  | AMap "(bytes \<times> goany) list"
  | AOther bytes

text \<open>Assigning the members of an object to a Go map, one after the other: the last one wins.\<close>

definition put_all :: "(bytes \<times> 'v) list \<Rightarrow> (bytes \<times> 'v) list" where
  "put_all kvs = fold (\<lambda>(k, v). AList.update k v) kvs []"

text \<open>Decoding into \<open>any\<close> with \<open>UseNumber\<close>.\<close>

fun to_any :: "jtree \<Rightarrow> goany" where
  "to_any JNull = ANil"
| "to_any (JBool b) = ABool b"
| "to_any (JNum n) = ANumber n"
| "to_any (JStr s) = AString s"
| "to_any (JArr es) = ASlice (map (\<lambda>(raw, v). to_any v) es)"
| "to_any (JObj ms) = AMap (put_all (map (\<lambda>(k, raw, v). (k, to_any v)) ms))"

text \<open>
  The compact rendering of a value with a given string writer: elements in order, map
  members in the byte order of their keys. Both the canonical form and \<open>json.Marshal\<close> have this
  shape; they differ in the string writer.
\<close>

fun render :: "(bytes \<Rightarrow> bytes) \<Rightarrow> goany \<Rightarrow> bytes" where
  "render wr ANil = ''null''"
| "render wr (ABool b) = (if b then ''true'' else ''false'')"
| "render wr (ANumber n) = n"
| "render wr (AString s) = wr s"
| "render wr (ASlice xs) = CHR ''['' # comma_join (map (render wr) xs) @ '']''"
| "render wr (AMap m) =
     CHR ''{'' # comma_join (map (\<lambda>(k, b). wr k @ CHR '':'' # b)
       (sort_key fst (map (\<lambda>(k, v). (k, render wr v)) m))) @ ''}''"
| "render wr (AOther ty) = []"

section \<open>The decoder reads only what it consumes\<close>

text \<open>What may follow a digit sequence, an integer part with fraction, a whole number literal,
  without becoming part of it.\<close>

definition digit_stop :: "bytes \<Rightarrow> bool" where
  "digit_stop t \<longleftrightarrow> t = [] \<or> \<not> is_digit (hd t)"

definition frac_stop :: "bytes \<Rightarrow> bool" where
  "frac_stop t \<longleftrightarrow> digit_stop t \<and> eat (CHR ''.'') t = None"

definition num_stop :: "bytes \<Rightarrow> bool" where
  "num_stop t \<longleftrightarrow> frac_stop t \<and> eat (CHR ''e'') t = None \<and> eat (CHR ''E'') t = None"

lemma eat_eq_None: "eat c s = None \<longleftrightarrow> s = [] \<or> hd s \<noteq> c"
  by (cases s) auto

lemma eat_append: "s \<noteq> [] \<Longrightarrow> eat c (s @ t) = map_option (\<lambda>u. u @ t) (eat c s)"
  by (cases s) auto

lemma not_digit: "\<not> is_digit (CHR ''.'')" "\<not> is_digit (CHR ''e'')" "\<not> is_digit (CHR ''E'')"
    "\<not> is_digit (CHR ''-'')" "\<not> is_digit (CHR ''+'')" "\<not> is_digit (CHR '','')" "\<not> is_digit (CHR '']'')"
    "\<not> is_digit (CHR ''}'')" "is_digit (CHR ''0'')"
  by (simp_all add: is_digit_def less_eq_char_def)

lemma jdigits_local:
  assumes "jdigits s = Some (ds, t)"
  shows "s = ds @ t" "ds \<noteq> []" "is_digit (hd ds)"
    and "digit_stop t' \<Longrightarrow> jdigits (ds @ t') = Some (ds, t')"
proof -
  from assms have ds: "ds = takeWhile is_digit s" "t = dropWhile is_digit s" "ds \<noteq> []"
    by (auto simp: jdigits_def split: if_splits)
  then show "s = ds @ t" "ds \<noteq> []" by simp_all
  from ds have "set ds \<subseteq> Collect is_digit" by (auto dest: set_takeWhileD)
  then show "is_digit (hd ds)" using ds(3) by (cases ds) auto
  show "jdigits (ds @ t') = Some (ds, t')" if "digit_stop t'"
  proof -
    have "takeWhile is_digit (ds @ t') = ds" "dropWhile is_digit (ds @ t') = t'"
      using that \<open>set ds \<subseteq> _\<close>
      by (cases t'; simp add: digit_stop_def takeWhile_append dropWhile_append subset_iff)+
    then show ?thesis using ds(3) by (simp add: jdigits_def)
  qed
qed

lemma jint_local:
  assumes "jint s = Some (i, t)"
  shows "s = i @ t" "i \<noteq> []" "is_digit (hd i)"
    and "digit_stop t' \<Longrightarrow> jint (i @ t') = Some (i, t')"
proof -
  consider "i = ''0''" "s = CHR ''0'' # t" | "eat (CHR ''0'') s = None" "jdigits s = Some (i, t)"
    using assms by (auto simp: jint_def dest!: eat_shrink split: option.splits)
  then have "s = i @ t \<and> i \<noteq> [] \<and> is_digit (hd i) \<and> (digit_stop t' \<longrightarrow> jint (i @ t') = Some (i, t'))"
  proof cases
    case 2
    note d = jdigits_local [OF 2(2)]
    have "eat (CHR ''0'') (i @ t') = None" using 2(1) d(1,2) by (simp add: eat_eq_None)
    with d show ?thesis by (simp add: jint_def)
  qed (simp add: jint_def not_digit)
  then show "s = i @ t" "i \<noteq> []" "is_digit (hd i)" "digit_stop t' \<Longrightarrow> jint (i @ t') = Some (i, t')"
    by blast+
qed

lemma jfrac_local:
  assumes "jfrac s = Some (f, t)"
  shows "s = f @ t" "f = [] \<or> hd f = CHR ''.''"
    and "frac_stop t' \<Longrightarrow> jfrac (f @ t') = Some (f, t')"
  using assms jdigits_local [of "tl s" "tl f" t]
  by (auto simp: jfrac_def frac_stop_def dest!: eat_shrink split: option.splits)

lemma jsign_local:
  assumes "jdigits (snd (jsign s)) = Some (ds, t)"
  shows "s = fst (jsign s) @ ds @ t" "jsign (fst (jsign s) @ ds @ t') = (fst (jsign s), ds @ t')"
  using jdigits_local(1-3) [OF assms]
  by (auto simp: jsign_def eat_eq_None not_digit dest!: eat_shrink split: option.splits)

lemma jexp_local:
  assumes "jexp s = Some (x, t)"
  shows "s = x @ t" "x = [] \<or> hd x = CHR ''e'' \<or> hd x = CHR ''E''"
    and "num_stop t' \<Longrightarrow> jexp (x @ t') = Some (x, t')"
proof -
  consider "x = []" "s = t" | c u ds where "c = CHR ''e'' \<or> c = CHR ''E''" "s = c # u"
      "jdigits (snd (jsign u)) = Some (ds, t)" "x = c # fst (jsign u) @ ds"
    using assms by (auto simp: jexp_def jexp_digits_def dest!: eat_shrink split: option.splits)
  then have "s = x @ t \<and> (x = [] \<or> hd x = CHR ''e'' \<or> hd x = CHR ''E'') \<and>
      (num_stop t' \<longrightarrow> jexp (x @ t') = Some (x, t'))"
  proof cases
    case 1
    then show ?thesis by (simp add: jexp_def num_stop_def)
  next
    case 2
    have "jdigits (snd (jsign (fst (jsign u) @ ds @ t'))) = Some (ds, t')" if "num_stop t'"
      using that jdigits_local(4) [OF 2(3)]
      by (simp add: jsign_local(2) [OF 2(3)] num_stop_def frac_stop_def)
    with 2 jsign_local [OF 2(3)] show ?thesis
      by (auto simp: jexp_def jexp_digits_def)
  qed
  then show "s = x @ t" "x = [] \<or> hd x = CHR ''e'' \<or> hd x = CHR ''E''"
    "num_stop t' \<Longrightarrow> jexp (x @ t') = Some (x, t')" by blast+
qed

lemma jminus_local:
  assumes "snd (jminus s) = i @ t" "i \<noteq> []" "is_digit (hd i)"
  shows "s = fst (jminus s) @ i @ t" "jminus (fst (jminus s) @ i @ t') = (fst (jminus s), i @ t')"
    "fst (jminus s) = [] \<or> fst (jminus s) = ''-''"
  using assms by (auto simp: jminus_def eat_eq_None not_digit dest!: eat_shrink split: option.splits)

lemma jnumber_local:
  assumes "jnumber s = Some (n, t)"
  shows "s = n @ t" "n \<noteq> []" "hd n = CHR ''-'' \<or> is_digit (hd n)"
    and "num_stop t' \<Longrightarrow> jnumber (n @ t') = Some (n, t')"
proof -
  obtain i s1 f s2 e where
    i: "jint (snd (jminus s)) = Some (i, s1)" and f: "jfrac s1 = Some (f, s2)"
    and e: "jexp s2 = Some (e, t)" and n: "n = fst (jminus s) @ i @ f @ e"
    using assms by (auto simp: jnumber_def split: option.splits prod.splits)
  note il = jint_local [OF i] and fl = jfrac_local [OF f] and el = jexp_local [OF e]
  note ml = jminus_local [OF il(1-3)]
  show "s = n @ t" using ml(1) il(1) fl(1) el(1) n by simp
  show "n \<noteq> []" "hd n = CHR ''-'' \<or> is_digit (hd n)" using n il ml(3) by auto
  show "jnumber (n @ t') = Some (n, t')" if "num_stop t'"
  proof -
    have "frac_stop (e @ t')" using that el(2)
      by (cases e) (auto simp: num_stop_def frac_stop_def digit_stop_def not_digit)
    moreover from this have "digit_stop (f @ e @ t')" using fl(2)
      by (cases f) (auto simp: frac_stop_def digit_stop_def not_digit)
    ultimately show ?thesis
      using that n ml(2) [of "f @ e @ t'"] il(4) [of "f @ e @ t'"] fl(3) [of "e @ t'"] el(3)
      by (simp add: jnumber_def)
  qed
qed

text \<open>String literals: nothing after the closing quote matters.\<close>

lemma hex_val_dquote [simp]: "hex_val dquote = None"
  by (simp add: hex_val_def less_eq_char_def)

lemma hex4_dquote: "dquote \<in> set (take 4 s) \<Longrightarrow> hex4 s = None"
  by (induction s rule: hex4.induct) (auto split: option.splits)

lemma low_half_stop:
  "map_option fst (low_half (x @ dquote # t)) = map_option fst (low_half (x @ dquote # t'))"
proof -
  consider "x = []" | a where "x = [a]" | a b where "x = [a, b]" | a b c where "x = [a, b, c]"
    | a b c d where "x = [a, b, c, d]" | a b c d e where "x = [a, b, c, d, e]"
    | a b c d e f y where "x = a # b # c # d # e # f # y"
    by (metis list.exhaust)
  then show ?thesis
    by cases (auto simp: low_half_def hex4_dquote split: option.split)
qed

lemma hex4_local: "hex4 s = Some (r, t) \<Longrightarrow> \<exists>y. s = y @ t \<and> (\<forall>t'. hex4 (y @ t') = Some (r, t'))"
  by (induction s rule: hex4.induct)
    (auto split: option.splits intro!: exI [of _ "[_, _, _, _]"])

lemma low_half_local:
  assumes "low_half s = Some (r, t)"
  shows "\<exists>y. s = y @ t \<and> (\<forall>t'. low_half (y @ t') = Some (r, t'))"
proof -
  obtain u where u: "s = backslash # CHR ''u'' # u" "hex4 u = Some (r, t)"
    using assms by (auto simp: low_half_def dest!: eat_shrink split: option.splits)
  from hex4_local [OF u(2)] obtain y where "u = y @ t" "\<forall>t'. hex4 (y @ t') = Some (r, t')" by blast
  then show ?thesis using u(1)
    by (intro exI [of _ "backslash # CHR ''u'' # y"]) (simp add: low_half_def)
qed

text \<open>An escape sequence is read the same way whatever follows the rest of the literal.\<close>

lemma junescape_u_local:
  assumes "junescape_u s = Some (r, x @ dquote # t)"
  shows "\<exists>y. s = y @ x @ dquote # t \<and> (\<forall>t'. junescape_u (y @ x @ dquote # t') = Some (r, x @ dquote # t'))"
proof -
  obtain rr s1 where h: "hex4 s = Some (rr, s1)"
    using assms by (auto simp: junescape_u_def split: option.splits)
  from hex4_local [OF h] obtain y where y: "s = y @ s1" "\<And>t'. hex4 (y @ t') = Some (rr, t')" by blast
  show ?thesis
  proof (cases "is_surrogate rr")
    case False
    with assms h y show ?thesis by (intro exI [of _ y]) (simp add: junescape_u_def)
  next
    case sur: True
    show ?thesis
    proof (cases "\<exists>rr1 s2. low_half s1 = Some (rr1, s2) \<and> rr < 0xDC00 \<and> 0xDC00 \<le> rr1 \<and> rr1 < 0xE000")
      case True
      then obtain rr1 s2 where l: "low_half s1 = Some (rr1, s2)" and b: "rr < 0xDC00 \<and> 0xDC00 \<le> rr1 \<and> rr1 < 0xE000"
        by blast
      from low_half_local [OF l] obtain z where z: "s1 = z @ s2" "\<And>t'. low_half (z @ t') = Some (rr1, t')"
        by blast
      from assms h sur l b have "s2 = x @ dquote # t" by (simp add: junescape_u_def)
      with assms h y z sur b show ?thesis
        by (intro exI [of _ "y @ z"]) (simp add: junescape_u_def)
    next
      case False
      then have r: "r = RuneError" "s1 = x @ dquote # t"
        using assms h sur by (auto simp: junescape_u_def split: option.splits if_splits)
      have "\<not> (\<exists>rr1 s2. low_half (x @ dquote # t') = Some (rr1, s2) \<and> rr < 0xDC00 \<and> 0xDC00 \<le> rr1 \<and> rr1 < 0xE000)" for t'
        using False r(2) low_half_stop [of x t t'] by (auto simp: map_option_case split: option.splits)
      then have "junescape_u (y @ x @ dquote # t') = Some (r, x @ dquote # t')" for t'
        using y sur r(1) by (auto simp: junescape_u_def split: option.splits if_splits)
      with y r(2) show ?thesis by blast
    qed
  qed
qed

lemma junescape_local:
  assumes "junescape s = Some (r, x @ dquote # t)"
  shows "\<exists>y. s = y @ x @ dquote # t \<and> (\<forall>t'. junescape (y @ x @ dquote # t') = Some (r, x @ dquote # t'))"
proof (cases s)
  case (Cons c s1)
  show ?thesis
  proof (cases "c = CHR ''u''")
    case True
    with assms Cons have "junescape_u s1 = Some (r, x @ dquote # t)" by simp
    from junescape_u_local [OF this] obtain y where "s1 = y @ x @ dquote # t"
      "\<forall>t'. junescape_u (y @ x @ dquote # t') = Some (r, x @ dquote # t')" by blast
    with True Cons show ?thesis by (intro exI [of _ "c # y"]) simp
  next
    case False
    with assms Cons show ?thesis by (intro exI [of _ "[c]"]) (auto split: if_splits)
  qed
qed (use assms in simp)

lemma jstr_local:
  "jstr s = Some (rs, t) \<Longrightarrow> \<exists>x. s = x @ dquote # t \<and> (\<forall>t'. jstr (x @ dquote # t') = Some (rs, t'))"
proof (induction s arbitrary: rs rule: jstr.induct)
  case (2 c cs)
  consider "c = dquote" | "c \<noteq> dquote" "c = backslash"
    | "c \<noteq> dquote" "c \<noteq> backslash" "\<not> of_char c < (0x20 :: nat)"
    using "2.prems" by (auto split: if_splits)
  then show ?case
  proof cases
    case 1
    with "2.prems" show ?thesis by (intro exI [of _ "[]"]) simp
  next
    case 2
    then obtain r u rs' where r: "junescape cs = Some (r, u)" "jstr u = Some (rs', t)" "rs = r # rs'"
      using "2.prems" by (auto split: option.splits)
    from "2.IH"(1) [OF 2 r(1) refl r(2)] obtain x where
      x: "u = x @ dquote # t" "\<forall>t'. jstr (x @ dquote # t') = Some (rs', t')" by blast
    from junescape_local [of cs r x t] r(1) x(1) obtain y where
      "cs = y @ x @ dquote # t" "\<forall>t'. junescape (y @ x @ dquote # t') = Some (r, x @ dquote # t')" by auto
    with 2 r(3) x(2) show ?thesis by (intro exI [of _ "c # y @ x"]) simp
  next
    case 3
    let ?w = "snd (decode_rune (c # cs))"
    obtain rs' where r: "jstr (drop ?w (c # cs)) = Some (rs', t)" "rs = fst (decode_rune (c # cs)) # rs'"
      using 3 "2.prems" by (auto simp del: decode_rune.simps drop_Cons')
    from "2.IH"(2) [OF 3 r(1)] obtain x where
      x: "drop ?w (c # cs) = x @ dquote # t" "\<forall>t'. jstr (x @ dquote # t') = Some (rs', t')" by blast
    obtain y where y: "take ?w (c # cs) = c # y" using decode_rune_width(1) [of c cs]
      by (cases ?w) (auto simp del: decode_rune.simps)
    have cs: "c # cs = (c # y @ x) @ dquote # t"
      using x(1) y by (metis append_Cons append_assoc append_take_drop_id)
    have w: "?w = length (c # y)"
      using y decode_rune_width(2) [of c cs] by (metis length_Cons length_take min.absorb2)
    have "decode_rune ((c # y @ x) @ dquote # t') = decode_rune (c # cs)" for t'
      unfolding cs by (rule decode_rune_stop) auto
    then have "jstr ((c # y @ x) @ dquote # t') = Some (rs, t')" for t'
      using 3 x(2) r(2) w by (simp del: decode_rune.simps)
    with cs show ?thesis by blast
  qed
qed simp

text \<open>Whole values.\<close>

lemma ws_num_stop: "is_ws c \<Longrightarrow> num_stop (c # t)"
  by (auto simp: is_ws_def num_stop_def frac_stop_def digit_stop_def is_digit_def less_eq_char_def)

lemma delim_num_stop: "c \<in> {CHR '','', CHR '']'', CHR ''}''} \<Longrightarrow> num_stop (c # t)"
  by (auto simp: num_stop_def frac_stop_def digit_stop_def not_digit)

lemma skip_ws_local:
  assumes "skip_ws s = c # u"
  shows "\<exists>w. s = w @ c # u \<and> (\<forall>u'. skip_ws (w @ c # u') = c # u') \<and> \<not> is_ws c
    \<and> (\<forall>u'. c \<in> {CHR '','', CHR '']'', CHR ''}''} \<longrightarrow> num_stop (w @ c # u'))"
proof -
  let ?w = "takeWhile is_ws s"
  have c: "\<not> is_ws c" using assms hd_dropWhile [of is_ws s] by (simp add: skip_ws_def)
  have w: "\<forall>x \<in> set ?w. is_ws x" by (auto dest: set_takeWhileD)
  have "skip_ws (?w @ c # u') = c # u'" for u'
    using c w by (simp add: skip_ws_def dropWhile_append)
  moreover have "num_stop (?w @ c # u')" if "c \<in> {CHR '','', CHR '']'', CHR ''}''}" for u'
    using that w by (cases ?w) (simp_all add: ws_num_stop delim_num_stop)
  moreover have "s = ?w @ c # u" using assms takeWhile_dropWhile_id [of is_ws s]
    by (simp add: skip_ws_def)
  ultimately show ?thesis using c by blast
qed

definition vstop :: "jtree \<Rightarrow> bytes \<Rightarrow> bool" where
  "vstop v t \<longleftrightarrow> (case v of JNum _ \<Rightarrow> num_stop t | _ \<Rightarrow> True)"

lemma num_stop_vstop: "num_stop t \<Longrightarrow> vstop v t"
  by (simp add: vstop_def split: jtree.split)

lemma consumed_append [simp]: "consumed (x @ t) t = x"
  by (simp add: consumed_def)

text \<open>
  \<open>reads f d s v t\<close>: the parser \<open>f\<close> consumes a non-empty prefix of \<open>s\<close>, and reads the
  same value from that prefix under any larger depth bound and before any suitable rest.
\<close>

definition reads :: "(nat \<Rightarrow> bytes \<Rightarrow> ('v \<times> bytes) option) \<Rightarrow> (bytes \<Rightarrow> bool) \<Rightarrow> nat \<Rightarrow> bytes \<Rightarrow> 'v \<Rightarrow> bytes \<Rightarrow> bool"
  where
  "reads f stop d s v t \<longleftrightarrow>
     (\<exists>x. x \<noteq> [] \<and> s = x @ t \<and> (\<forall>d' \<ge> d. \<forall>t'. stop t' \<longrightarrow> f d' (x @ t') = Some (v, t')))"

lemma readsI:
  assumes "s = x @ t" "x \<noteq> []" "\<And>d' t'. d \<le> d' \<Longrightarrow> stop t' \<Longrightarrow> f d' (x @ t') = Some (v, t')"
  shows "reads f stop d s v t"
  using assms unfolding reads_def by blast

lemma skip_ws_reads:
  assumes "skip_ws s = x @ t" "x \<noteq> []"
  shows "\<exists>w. s = w @ x @ t \<and> (\<forall>t'. skip_ws (w @ x @ t') = x @ t')"
proof -
  obtain c y where x: "x = c # y" using assms(2) by (cases x) auto
  with assms(1) have "skip_ws s = c # y @ t" by simp
  from skip_ws_local [OF this] show ?thesis unfolding x by auto
qed

lemma object_reads:
  assumes "reads jmembers (\<lambda>_. True) d (skip_ws cs) ms t" "eat (CHR ''}'') (skip_ws cs) = None"
  shows "reads jvalue stop (Suc d) (CHR ''{'' # cs) (JObj ms) t"
proof -
  obtain x where x: "x \<noteq> []" "skip_ws cs = x @ t" "\<And>d' t'. d' \<ge> d \<Longrightarrow> jmembers d' (x @ t') = Some (ms, t')"
    using assms(1) unfolding reads_def by blast
  from skip_ws_reads [OF x(2,1)] obtain w where
    w: "cs = w @ x @ t" "\<And>t'. skip_ws (w @ x @ t') = x @ t'" by blast
  have "eat (CHR ''}'') (x @ t') = None" for t' using assms(2) x(1,2) by (simp add: eat_eq_None)
  then show ?thesis
    using x(3) w by (intro readsI [of _ "CHR ''{'' # w @ x"]) (auto simp: jvalue.simps)
qed

lemma array_reads:
  assumes "reads jelems (\<lambda>_. True) d (skip_ws cs) es t" "eat (CHR '']'') (skip_ws cs) = None"
  shows "reads jvalue stop (Suc d) (CHR ''['' # cs) (JArr es) t"
proof -
  obtain x where x: "x \<noteq> []" "skip_ws cs = x @ t" "\<And>d' t'. d' \<ge> d \<Longrightarrow> jelems d' (x @ t') = Some (es, t')"
    using assms(1) unfolding reads_def by blast
  from skip_ws_reads [OF x(2,1)] obtain w where
    w: "cs = w @ x @ t" "\<And>t'. skip_ws (w @ x @ t') = x @ t'" by blast
  have "eat (CHR '']'') (x @ t') = None" for t' using assms(2) x(1,2) by (simp add: eat_eq_None)
  then show ?thesis
    using x(3) w by (intro readsI [of _ "CHR ''['' # w @ x"]) (auto simp: jvalue.simps)
qed

lemma empty_container_reads:
  assumes "skip_ws cs = c # t"
  shows "c = CHR ''}'' \<Longrightarrow> reads jvalue stop (Suc d) (CHR ''{'' # cs) (JObj []) t"
    and "c = CHR '']'' \<Longrightarrow> reads jvalue stop (Suc d) (CHR ''['' # cs) (JArr []) t"
proof -
  from skip_ws_local [OF assms] obtain w where
    w: "cs = w @ c # t" "\<And>t'. skip_ws (w @ c # t') = c # t'" by blast
  show "reads jvalue stop (Suc d) (CHR ''{'' # cs) (JObj []) t" if "c = CHR ''}''"
    using w that by (intro readsI [of _ "CHR ''{'' # w @ [c]"]) (auto simp: jvalue.simps)
  show "reads jvalue stop (Suc d) (CHR ''['' # cs) (JArr []) t" if "c = CHR '']''"
    using w that by (intro readsI [of _ "CHR ''['' # w @ [c]"]) (auto simp: jvalue.simps)
qed

text \<open>A value followed by blanks and a delimiter is read up to the delimiter.\<close>

lemma value_delim:
  assumes "reads jvalue (vstop v) d s v t" "skip_ws t = c # u" "c \<in> {CHR '','', CHR '']'', CHR ''}''}"
  shows "\<exists>x w. x \<noteq> [] \<and> s = x @ t \<and> t = w @ c # u \<and>
    (\<forall>d' \<ge> d. \<forall>u'. jvalue d' (x @ w @ c # u') = Some (v, w @ c # u') \<and> skip_ws (w @ c # u') = c # u')"
proof -
  from skip_ws_local [OF assms(2)] assms(3) obtain w where
    w: "t = w @ c # u" "\<And>u'. skip_ws (w @ c # u') = c # u'" "\<And>u'. vstop v (w @ c # u')"
    by (metis num_stop_vstop)
  from assms(1) obtain x where "x \<noteq> []" "s = x @ t"
    "\<And>d' t'. d' \<ge> d \<Longrightarrow> vstop v t' \<Longrightarrow> jvalue d' (x @ t') = Some (v, t')"
    unfolding reads_def by blast
  with w show ?thesis by blast
qed

lemma elems_last_reads:
  assumes "reads jvalue (vstop v) d s v t" "skip_ws t = CHR '']'' # u"
  shows "reads jelems stop d s [(consumed s t, v)] u"
proof -
  from value_delim [OF assms] obtain x w where x: "x \<noteq> []" "s = x @ t" "t = w @ CHR '']'' # u"
    "\<And>d' u'. d' \<ge> d \<Longrightarrow> jvalue d' (x @ w @ CHR '']'' # u') = Some (v, w @ CHR '']'' # u')
      \<and> skip_ws (w @ CHR '']'' # u') = CHR '']'' # u'" by auto
  then show ?thesis
    by (intro readsI [of _ "x @ w @ [CHR '']'']"]) (auto simp: jelems.simps)
qed

lemma elems_more_reads:
  assumes "reads jvalue (vstop v) d s v t" "skip_ws t = CHR '','' # u"
    and "reads jelems (\<lambda>_. True) d (skip_ws u) es t1"
  shows "reads jelems stop d s ((consumed s t, v) # es) t1"
proof -
  from value_delim [OF assms(1,2)] obtain x w where x: "x \<noteq> []" "s = x @ t" "t = w @ CHR '','' # u"
    "\<And>d' u'. d' \<ge> d \<Longrightarrow> jvalue d' (x @ w @ CHR '','' # u') = Some (v, w @ CHR '','' # u')
      \<and> skip_ws (w @ CHR '','' # u') = CHR '','' # u'" by auto
  obtain y where y: "y \<noteq> []" "skip_ws u = y @ t1" "\<And>d' t'. d' \<ge> d \<Longrightarrow> jelems d' (y @ t') = Some (es, t')"
    using assms(3) unfolding reads_def by blast
  from skip_ws_reads [OF y(2,1)] obtain w1 where
    w1: "u = w1 @ y @ t1" "\<And>t'. skip_ws (w1 @ y @ t') = y @ t'" by blast
  show ?thesis using x y(3) w1
    by (intro readsI [of _ "x @ w @ CHR '','' # w1 @ y"]) (auto simp: jelems.simps [of _ "x @ _"])
qed

text \<open>
  A member's key and colon: the text \<open>h\<close> up to the value is read the same way before any
  value.
\<close>

definition member_head :: "bytes \<Rightarrow> nat list \<Rightarrow> bytes \<Rightarrow> bool" where
  "member_head h k v \<longleftrightarrow> (\<forall>v'. v' \<noteq> [] \<and> hd v' = hd v \<longrightarrow>
     (\<exists>s1 s2 s3. eat dquote (h @ v') = Some s1 \<and> jstr s1 = Some (k, s2) \<and>
        eat (CHR '':'') (skip_ws s2) = Some s3 \<and> skip_ws s3 = v' \<and> length v' < length (h @ v')))"

lemma member_headI:
  assumes "eat dquote s = Some s1" "jstr s1 = Some (k, s2)" "eat (CHR '':'') (skip_ws s2) = Some s3"
    and "skip_ws s3 = v" "v \<noteq> []"
  shows "\<exists>h. s = h @ v \<and> member_head h k v"
proof -
  from jstr_local [OF assms(2)] obtain x where
    x: "s1 = x @ dquote # s2" "\<And>t'. jstr (x @ dquote # t') = Some (k, t')" by blast
  from skip_ws_local [of s2 "CHR '':''" s3] eat_shrink [OF assms(3)] obtain w where
    w: "s2 = w @ CHR '':'' # s3" "\<And>u'. skip_ws (w @ CHR '':'' # u') = CHR '':'' # u'" by auto
  obtain c u where v: "v = c # u" using assms(5) by (cases v) auto
  from skip_ws_local [of s3 c u] assms(4) v obtain w1 where
    w1: "s3 = w1 @ c # u" "\<And>u'. skip_ws (w1 @ c # u') = c # u'" by auto
  let ?h = "dquote # x @ dquote # w @ CHR '':'' # w1"
  have "member_head ?h k v"
    unfolding member_head_def
  proof (intro allI impI)
    fix v' assume "v' \<noteq> [] \<and> hd v' = hd v"
    then obtain u' where v': "v' = c # u'" using v by (cases v') auto
    show "\<exists>s1 s2 s3. eat dquote (?h @ v') = Some s1 \<and> jstr s1 = Some (k, s2) \<and>
        eat (CHR '':'') (skip_ws s2) = Some s3 \<and> skip_ws s3 = v' \<and> length v' < length (?h @ v')"
      using x(2) w(2) w1(2) v' by simp
  qed
  moreover have "s = ?h @ v" using eat_shrink [OF assms(1)] x(1) w(1) w1(1) v by simp
  ultimately show ?thesis by blast
qed

lemma member_headE:
  assumes "member_head h k v" "v' \<noteq> []" "hd v' = hd v"
  obtains s1 s2 s3 where "eat dquote (h @ v') = Some s1" "jstr s1 = Some (k, s2)"
    "eat (CHR '':'') (skip_ws s2) = Some s3" "skip_ws s3 = v'"
  using assms unfolding member_head_def by blast

lemma members_last_reads:
  assumes "member_head h k v" "reads jvalue (vstop j) d v j t" "skip_ws t = CHR ''}'' # u"
  shows "reads jmembers stop d (h @ v) [(utf8 k, consumed v t, j)] u"
proof -
  from value_delim [OF assms(2,3)] obtain x w where x: "x \<noteq> []" "v = x @ t" "t = w @ CHR ''}'' # u"
    "\<And>d' u'. d' \<ge> d \<Longrightarrow> jvalue d' (x @ w @ CHR ''}'' # u') = Some (j, w @ CHR ''}'' # u')
      \<and> skip_ws (w @ CHR ''}'' # u') = CHR ''}'' # u'" by auto
  show ?thesis
  proof (rule readsI [of _ "h @ x @ w @ [CHR ''}'']"])
    fix d' t' assume "d \<le> d'"
    let ?r = "w @ CHR ''}'' # t'"
    have v': "x @ ?r \<noteq> []" "hd (x @ ?r) = hd v" using x(1,2) by simp_all
    obtain s1 s2 s3 where "eat dquote (h @ x @ ?r) = Some s1" "jstr s1 = Some (k, s2)"
      "eat (CHR '':'') (skip_ws s2) = Some s3" "skip_ws s3 = x @ ?r"
      by (rule member_headE [OF assms(1) v'])
    with x(2,4) \<open>d \<le> d'\<close>
    show "jmembers d' ((h @ x @ w @ [CHR ''}'']) @ t') = Some ([(utf8 k, consumed v t, j)], t')"
      using consumed_append [of x ?r] by (simp add: jmembers.simps)
  qed (use x in auto)
qed

lemma members_more_reads:
  assumes "member_head h k v" "reads jvalue (vstop j) d v j t" "skip_ws t = CHR '','' # u"
    and "reads jmembers (\<lambda>_. True) d (skip_ws u) ms t1"
  shows "reads jmembers stop d (h @ v) ((utf8 k, consumed v t, j) # ms) t1"
proof -
  from value_delim [OF assms(2,3)] obtain x w where x: "x \<noteq> []" "v = x @ t" "t = w @ CHR '','' # u"
    "\<And>d' u'. d' \<ge> d \<Longrightarrow> jvalue d' (x @ w @ CHR '','' # u') = Some (j, w @ CHR '','' # u')
      \<and> skip_ws (w @ CHR '','' # u') = CHR '','' # u'" by auto
  obtain y where y: "y \<noteq> []" "skip_ws u = y @ t1" "\<And>d' t'. d' \<ge> d \<Longrightarrow> jmembers d' (y @ t') = Some (ms, t')"
    using assms(4) unfolding reads_def by blast
  from skip_ws_reads [OF y(2,1)] obtain w1 where
    w1: "u = w1 @ y @ t1" "\<And>t'. skip_ws (w1 @ y @ t') = y @ t'" by blast
  show ?thesis
  proof (rule readsI [of _ "h @ x @ w @ CHR '','' # w1 @ y"])
    fix d' t' assume "d \<le> d'"
    let ?r = "w @ CHR '','' # w1 @ y @ t'"
    have v': "x @ ?r \<noteq> []" "hd (x @ ?r) = hd v" using x(1,2) by simp_all
    obtain s1 s2 s3 where "eat dquote (h @ x @ ?r) = Some s1" "jstr s1 = Some (k, s2)"
      "eat (CHR '':'') (skip_ws s2) = Some s3" "skip_ws s3 = x @ ?r"
      by (rule member_headE [OF assms(1) v'])
    with x(2,4) w1(2) y(3) \<open>d \<le> d'\<close>
    show "jmembers d' ((h @ x @ w @ CHR '','' # w1 @ y) @ t') = Some ((utf8 k, consumed v t, j) # ms, t')"
      using consumed_append [of x ?r] by (simp add: jmembers.simps [of _ "h @ _"])
  qed (use x w1 in auto)
qed

lemmas jvalue_Cons = jvalue.simps [of _ "_ # _", simplified]

lemma scalar_value_reads:
  assumes "jvalue d (c # cs) = Some (v, t)" "c \<noteq> CHR ''{''" "c \<noteq> CHR ''[''"
  shows "reads jvalue (vstop v) d (c # cs) v t"
proof -
  consider "c = dquote" | "c \<noteq> dquote" "c \<in> {CHR ''t'', CHR ''f'', CHR ''n''}"
    | "c \<noteq> dquote" "c \<notin> {CHR ''t'', CHR ''f'', CHR ''n''}" by blast
  then show ?thesis
  proof cases
    case 1
    then obtain rs where rs: "jstr cs = Some (rs, t)" "v = JStr (utf8 rs)"
      using assms by (auto simp: jvalue_Cons)
    from jstr_local [OF rs(1)] obtain x where x: "cs = x @ dquote # t"
      "\<And>t'. jstr (x @ dquote # t') = Some (rs, t')" by blast
    with 1 rs show ?thesis by (intro readsI [of _ "c # x @ [dquote]"]) (auto simp: jvalue_Cons)
  next
    case 2
    then obtain l where l: "c # cs = l @ t"
      "(l, v) \<in> {(''true'', JBool True), (''false'', JBool False), (''null'', JNull)}"
      using assms by (fastforce simp: jvalue_Cons jlit_def HasPrefix_iff split: if_splits)
    then show ?thesis
      by (intro readsI [of _ l]) (auto simp: jvalue_Cons jlit_def HasPrefix_def)
  next
    case 3
    then obtain n where jn: "jnumber (c # cs) = Some (n, t)" "v = JNum n"
      using assms by (auto simp: jvalue_Cons)
    note n = jnumber_local [OF jn(1)]
    obtain n' where "n = c # n'" using n(1,2) by (cases n) auto
    with n jn 3 assms(2,3) show ?thesis
      by (intro readsI [of _ n]) (auto simp: jvalue_Cons vstop_def)
  qed
qed

lemma jvalue_step_reads:
  assumes "jvalue d s = Some (v, t)"
    and ms: "\<And>cs ms t. s = CHR ''{'' # cs \<Longrightarrow> d \<noteq> 0 \<Longrightarrow> eat (CHR ''}'') (skip_ws cs) = None \<Longrightarrow>
      jmembers (d - 1) (skip_ws cs) = Some (ms, t) \<Longrightarrow>
      reads jmembers (\<lambda>_. True) (d - 1) (skip_ws cs) ms t"
    and es: "\<And>cs es t. s = CHR ''['' # cs \<Longrightarrow> d \<noteq> 0 \<Longrightarrow> eat (CHR '']'') (skip_ws cs) = None \<Longrightarrow>
      jelems (d - 1) (skip_ws cs) = Some (es, t) \<Longrightarrow>
      reads jelems (\<lambda>_. True) (d - 1) (skip_ws cs) es t"
  shows "reads jvalue (vstop v) d s v t"
proof -
  obtain c cs where s: "s = c # cs" using assms(1) by (cases s) (auto simp: jvalue.simps)
  consider "c \<noteq> CHR ''{''" "c \<noteq> CHR ''[''" | "c = CHR ''{''" | "c = CHR ''[''" by blast
  then show ?thesis
  proof cases
    case 1
    with assms(1) s show ?thesis by (auto intro: scalar_value_reads)
  next
    case 2
    with assms(1) s obtain d' where d: "d = Suc d'" by (cases d) (auto simp: jvalue_Cons)
    show ?thesis
    proof (cases "eat (CHR ''}'') (skip_ws cs)")
      case None
      with assms(1) s 2 d obtain m where "v = JObj m" "jmembers d' (skip_ws cs) = Some (m, t)"
        by (auto simp: jvalue_Cons)
      with ms [of cs m t] s 2 d None show ?thesis by (auto intro: object_reads)
    next
      case (Some u)
      with assms(1) s 2 d eat_shrink [OF Some] show ?thesis
        by (auto simp: jvalue_Cons intro: empty_container_reads)
    qed
  next
    case 3
    with assms(1) s obtain d' where d: "d = Suc d'" by (cases d) (auto simp: jvalue_Cons)
    show ?thesis
    proof (cases "eat (CHR '']'') (skip_ws cs)")
      case None
      with assms(1) s 3 d obtain e where "v = JArr e" "jelems d' (skip_ws cs) = Some (e, t)"
        by (auto simp: jvalue_Cons)
      with es [of cs e t] s 3 d None show ?thesis by (auto intro: array_reads)
    next
      case (Some u)
      with assms(1) s 3 d eat_shrink [OF Some] show ?thesis
        by (auto simp: jvalue_Cons intro: empty_container_reads)
    qed
  qed
qed

lemma jelems_step_reads:
  assumes "jelems d s = Some (es, t)"
    and "\<And>v t. jvalue d s = Some (v, t) \<Longrightarrow> reads jvalue (vstop v) d s v t"
    and "\<And>v t u es t1. jvalue d s = Some (v, t) \<Longrightarrow> eat (CHR '','') (skip_ws t) = Some u \<Longrightarrow>
      length (skip_ws u) < length s \<Longrightarrow> jelems d (skip_ws u) = Some (es, t1) \<Longrightarrow>
      reads jelems (\<lambda>_. True) d (skip_ws u) es t1"
  shows "reads jelems (\<lambda>_. True) d s es t"
  using assms(1) assms(2,3)
  by (subst (asm) (1) jelems.simps)
    (auto split: option.splits if_splits dest: eat_shrink
        intro!: elems_last_reads elems_more_reads)

lemma jmembers_step_reads:
  assumes "jmembers d s = Some (ms, t)"
    and "\<And>s1 k s2 s3 v t. eat dquote s = Some s1 \<Longrightarrow> jstr s1 = Some (k, s2) \<Longrightarrow>
      eat (CHR '':'') (skip_ws s2) = Some s3 \<Longrightarrow> jvalue d (skip_ws s3) = Some (v, t) \<Longrightarrow>
      reads jvalue (vstop v) d (skip_ws s3) v t"
    and "\<And>s1 k s2 s3 v t u ms t1. eat dquote s = Some s1 \<Longrightarrow> jstr s1 = Some (k, s2) \<Longrightarrow>
      eat (CHR '':'') (skip_ws s2) = Some s3 \<Longrightarrow> jvalue d (skip_ws s3) = Some (v, t) \<Longrightarrow>
      eat (CHR '','') (skip_ws t) = Some u \<Longrightarrow> length (skip_ws u) < length s \<Longrightarrow>
      jmembers d (skip_ws u) = Some (ms, t1) \<Longrightarrow> reads jmembers (\<lambda>_. True) d (skip_ws u) ms t1"
  shows "reads jmembers (\<lambda>_. True) d s ms t"
proof -
  from assms(1) obtain s1 k s2 s3 v t0 where
    h: "eat dquote s = Some s1" "jstr s1 = Some (k, s2)" "eat (CHR '':'') (skip_ws s2) = Some s3"
    and v: "jvalue d (skip_ws s3) = Some (v, t0)"
    by (subst (asm) jmembers.simps) (auto split: option.splits)
  note rv = assms(2) [OF h v] and rm = assms(3) [OF h v]
  have "skip_ws s3 \<noteq> []" using v by (auto simp: jvalue.simps [of d "[]"])
  from member_headI [OF h refl this] obtain hd where
    s: "s = hd @ skip_ws s3" and head: "member_head hd k (skip_ws s3)" by blast
  show ?thesis
  proof (cases "eat (CHR '','') (skip_ws t0)")
    case None
    with assms(1) h v have "skip_ws t0 = CHR ''}'' # t" "ms = [(utf8 k, consumed (skip_ws s3) t0, v)]"
      by (subst (asm) (1) jmembers.simps; auto dest: eat_shrink)+
    then show ?thesis unfolding s by (auto intro: members_last_reads [OF head rv])
  next
    case (Some u)
    with assms(1) h v obtain ms' where "length (skip_ws u) < length s"
      "jmembers d (skip_ws u) = Some (ms', t)" "ms = (utf8 k, consumed (skip_ws s3) t0, v) # ms'"
      by (subst (asm) (1) jmembers.simps) (auto split: if_splits)
    with rm [OF Some] eat_shrink [OF Some] show ?thesis
      by (subst s) (auto intro: members_more_reads [OF head rv])
  qed
qed

lemma jvalue_reads: "jvalue d s = Some (v, t) \<Longrightarrow> reads jvalue (vstop v) d s v t"
  and jelems_reads: "jelems d s = Some (es, t) \<Longrightarrow> reads jelems (\<lambda>_. True) d s es t"
  and jmembers_reads: "jmembers d s = Some (ms, t) \<Longrightarrow> reads jmembers (\<lambda>_. True) d s ms t"
proof (induction d s and d s and d s arbitrary: v t and es t and ms t rule: jvalue_jelems_jmembers.induct)
  case (1 d s)
  show ?case by (rule jvalue_step_reads [OF "1.prems"]) (erule "1.IH"; simp)+
next
  case (2 d s)
  show ?case by (rule jelems_step_reads [OF "2.prems"]) (blast intro: "2.IH")+
next
  case (3 d s)
  show ?case by (rule jmembers_step_reads [OF "3.prems"]) (blast intro: "3.IH")+
qed

text \<open>So the length comparisons in the two loops never fail.\<close>

lemma jvalue_shrink: "jvalue d s = Some (v, t) \<Longrightarrow> length t < length s"
  by (drule jvalue_reads) (auto simp: reads_def)

end
