(* ===== verification/Render.thy ===== *)
theory Render
  imports Json "HOL-Library.Multiset"
begin

text \<open>
  Rendering and reading back. The interface \<open>string_writer\<close> asks of a string writer only that
  the JSON decoder reads its literals back; from that alone the whole value is read back from its
  rendering, so rendering loses nothing but the order of map members. The canonical writer of
  package canon and the writer of \<open>json.Marshal\<close> both provide the interface.
\<close>

text \<open>Values the JSON decoder can produce: valid numbers and UTF-8, maps with distinct keys.\<close>

fun wf_any :: "goany \<Rightarrow> bool" where
  "wf_any ANil = True"
| "wf_any (ABool b) = True"
| "wf_any (ANumber n) = (jnumber n = Some (n, []))"
| "wf_any (AString s) = valid_utf8 s"
| "wf_any (ASlice xs) = list_all wf_any xs"
| "wf_any (AMap m) = (distinct (map fst m) \<and> list_all (\<lambda>(k, v). valid_utf8 k \<and> wf_any v) m)"
| "wf_any (AOther ty) = False"

text \<open>At most \<open>d\<close> containers are nested.\<close>

fun fits :: "nat \<Rightarrow> goany \<Rightarrow> bool" where
  "fits d (ASlice xs) = (d \<noteq> 0 \<and> list_all (fits (d - 1)) xs)"
| "fits d (AMap m) = (d \<noteq> 0 \<and> list_all (\<lambda>(k, v). fits (d - 1) v) m)"
| "fits d v = True"

text \<open>
  The representative of a value in which every map lists its members in key order. Two values are
  equal as Go values (a map has no order) when their representatives are equal.
\<close>

fun norm :: "goany \<Rightarrow> goany" where
  "norm (ASlice xs) = ASlice (map norm xs)"
| "norm (AMap m) = AMap (sort_key fst (map (\<lambda>(k, v). (k, norm v)) m))"
| "norm v = v"

section \<open>Sorted members\<close>

lemma put_all_distinct:
  assumes "distinct (map fst kvs)"
  shows "put_all kvs = kvs"
proof -
  have "fold (\<lambda>(k, v). AList.update k v) kvs acc = acc @ kvs"
    if "distinct (map fst (acc @ kvs))" for acc
    using that
  proof (induction kvs arbitrary: acc)
    case (Cons p kvs)
    obtain k v where p: "p = (k, v)" by (cases p)
    have "AList.update k v acc = acc @ [(k, v)]" using Cons.prems p
      by (induction acc) auto
    then show ?case using Cons.IH [of "acc @ [(k, v)]"] Cons.prems p by simp
  qed simp
  from this [of "[]"] assms show ?thesis by (simp add: put_all_def)
qed

lemma distinct_put_all: "distinct (map fst (put_all kvs))"
proof -
  have "distinct (map fst acc) \<Longrightarrow> distinct (map fst (fold (\<lambda>(k, v). AList.update k v) kvs acc))" for acc
    by (induction kvs arbitrary: acc) (auto simp: distinct_update)
  from this [of "[]"] show ?thesis by (simp add: put_all_def)
qed

lemma set_put_all: "set (put_all kvs) \<subseteq> set kvs"
proof -
  have "set (fold (\<lambda>(k, v). AList.update k v) kvs acc) \<subseteq> set acc \<union> set kvs"
    for acc :: "(bytes \<times> 'a) list"
  proof (induction kvs arbitrary: acc)
    case (Cons p kvs)
    obtain k v where p: "p = (k, v)" by (cases p)
    have "set (AList.update k v acc) \<subseteq> insert (k, v) (set acc)"
      by (induction acc) auto
    then show ?case using Cons.IH [of "AList.update k v acc"] p by auto
  qed simp
  from this [of "[]"] show ?thesis by (simp add: put_all_def)
qed

text \<open>Sorting by key commutes with mapping the values, and sorts the keys.\<close>

lemma insort_key_map_values:
  "insort_key fst (k, f v) (map (\<lambda>(k, v). (k, f v)) xs) = map (\<lambda>(k, v). (k, f v)) (insort_key fst (k, v) xs)"
  by (induction xs) auto

lemma sort_key_map_values:
  "sort_key fst (map (\<lambda>(k, v). (k, f v)) m) = map (\<lambda>(k, v). (k, f v)) (sort_key fst m)"
  by (induction m) (auto simp: insort_key_map_values)

lemma sort_key_idem: "sort_key f (sort_key f m) = sort_key f m"
  by (simp add: sort_key_id_if_sorted)

lemma map_fst_insort_key: "map fst (insort_key fst p xs) = insort (fst p) (map fst xs)"
  by (induction xs) auto

lemma map_fst_sort_key: "map fst (sort_key fst m) = sort (map fst m)"
  by (induction m) (auto simp: map_fst_insort_key)

lemma distinct_sort_key_fst [simp]: "distinct (map fst (sort_key fst m)) \<longleftrightarrow> distinct (map fst m)"
  by (simp add: map_fst_sort_key)

lemma map_fst_values [simp]: "map fst (map (\<lambda>(k, v). (k, f v)) m) = map fst m"
  by (induction m) auto

text \<open>
  A map with distinct keys read through its sorted keys is the map sorted by key: what a
  loop over the sorted keys that looks every key up sees.
\<close>

lemma lookup_sorted_keys:
  assumes "distinct (map fst m)"
  shows "map (\<lambda>k. (k, the (map_of m k))) (sort (map fst m)) = sort_key fst m"
proof -
  have "(fst p, the (map_of m (fst p))) = p" if "p \<in> set (sort_key fst m)" for p
  proof -
    from that have "(fst p, snd p) \<in> set m" by simp
    with assms have "map_of m (fst p) = Some (snd p)" by (rule map_of_is_SomeI)
    then show ?thesis by simp
  qed
  then have "map (\<lambda>p. (fst p, the (map_of m (fst p)))) (sort_key fst m) = sort_key fst m"
    by (intro map_idI) simp
  then show ?thesis by (simp flip: map_fst_sort_key add: comp_def)
qed

lemma sort_key_perm:
  assumes "distinct (map fst m)" "mset m = mset m'"
  shows "sort_key fst m = sort_key fst m'"
proof -
  have "distinct (map fst m')" using assms by (metis mset_eq_imp_distinct_iff mset_map)
  with assms have "map_of m = map_of m'"
    by (simp add: map_of_inject_set mset_eq_setD [OF assms(2)])
  moreover have "mset (map fst m) = mset (map fst m')" using assms(2) by simp
  then have "sort (map fst m) = sort (map fst m')" by (intro properties_for_sort) simp_all
  ultimately show ?thesis
    using lookup_sorted_keys assms(1) \<open>distinct (map fst m')\<close> by metis
qed

section \<open>Reading a rendering back\<close>

lemma not_ws [simp]: "\<not> is_ws (CHR ''n'')" "\<not> is_ws (CHR ''t'')" "\<not> is_ws (CHR ''f'')" "\<not> is_ws dquote"
    "\<not> is_ws (CHR ''['')" "\<not> is_ws (CHR ''{'')" "\<not> is_ws (CHR '','')" "\<not> is_ws (CHR '':'')"
    "\<not> is_ws (CHR '']'')" "\<not> is_ws (CHR ''}'')"
  by (simp_all add: is_ws_def)

lemma skip_ws_Cons [simp]: "\<not> is_ws c \<Longrightarrow> skip_ws (c # s) = c # s"
  by (simp add: skip_ws_def)

lemma number_hd:
  assumes "jnumber n = Some (n, [])"
  shows "\<exists>c m. n = c # m \<and> \<not> is_ws c \<and> c \<notin> {CHR '']'', CHR ''}'', CHR ''{'', CHR ''['', dquote, CHR ''t'', CHR ''f'', CHR ''n''}"
proof -
  obtain c m where n: "n = c # m" using jnumber_local(2) [OF assms] by (cases n) auto
  moreover have "c = CHR ''-'' \<or> is_digit c" using jnumber_local(3) [OF assms] n by simp
  ultimately show ?thesis by (auto simp: is_ws_def is_digit_def less_eq_char_def)
qed

lemma num_stop_delim [simp]: "num_stop (CHR '','' # t)" "num_stop (CHR '']'' # t)" "num_stop (CHR ''}'' # t)"
  "num_stop []"
  by (simp_all add: delim_num_stop) (simp add: num_stop_def frac_stop_def digit_stop_def)

text \<open>\<open>reads_back d b w\<close>: the text \<open>b\<close> is read, before any delimiter, as a value equal to \<open>w\<close>.\<close>

definition reads_back :: "nat \<Rightarrow> bytes \<Rightarrow> goany \<Rightarrow> bool" where
  "reads_back d b w \<longleftrightarrow> (\<exists>c b'. b = c # b' \<and> \<not> is_ws c \<and> c \<noteq> CHR '']'') \<and>
     (\<forall>t. num_stop t \<longrightarrow> (\<exists>tr. jvalue d (b @ t) = Some (tr, t) \<and> to_any tr = w))"

lemma elems_back:
  assumes "list_all2 (reads_back d) bs ws" "bs \<noteq> []"
  shows "\<exists>es. jelems d (comma_join bs @ CHR '']'' # t) = Some (es, t) \<and> map (\<lambda>(raw, v). to_any v) es = ws"
  using assms
proof (induction bs ws rule: list_all2_induct)
  case (Cons b bs w ws)
  from Cons(1) have bk: "num_stop u \<Longrightarrow> \<exists>tr. jvalue d (b @ u) = Some (tr, u) \<and> to_any tr = w" for u
    by (simp add: reads_back_def)
  show ?case
  proof (cases bs)
    case Nil
    obtain tr where "jvalue d (b @ CHR '']'' # t) = Some (tr, CHR '']'' # t)" "to_any tr = w"
      using bk [of "CHR '']'' # t"] by auto
    with Nil Cons(2) show ?thesis by (auto simp: jelems.simps)
  next
    case (Cons b1 bs1)
    let ?r = "comma_join bs @ CHR '']'' # t"
    obtain es where es: "jelems d ?r = Some (es, t)" "map (\<lambda>(raw, v). to_any v) es = ws"
      using Cons.IH Cons by auto
    obtain tr where tr: "jvalue d (b @ CHR '','' # ?r) = Some (tr, CHR '','' # ?r)" "to_any tr = w"
      using bk [of "CHR '','' # ?r"] by auto
    have "skip_ws ?r = ?r" using Cons.hyps(2) Cons by (auto simp: reads_back_def list_all2_Cons1 comma_join_Cons)
    moreover have "comma_join (b # bs) @ CHR '']'' # t = b @ CHR '','' # ?r" using Cons by simp
    ultimately show ?thesis using es tr by (auto simp: jelems.simps [of d "b @ _"])
  qed
qed simp

lemma members_back:
  assumes "list_all2 (\<lambda>(q, b) (k, w). (\<exists>x rs. q = dquote # x \<and> k = utf8 rs \<and> (\<forall>t. jstr (x @ t) = Some (rs, t)))
      \<and> reads_back d b w) qbs kws" "qbs \<noteq> []"
  shows "\<exists>ms. jmembers d (comma_join (map (\<lambda>(q, b). q @ CHR '':'' # b) qbs) @ CHR ''}'' # t) = Some (ms, t) \<and>
    map (\<lambda>(k, raw, v). (k, to_any v)) ms = kws"
  using assms
proof (induction qbs kws rule: list_all2_induct)
  case (Cons qb qbs kw kws)
  obtain q b k w where p: "qb = (q, b)" "kw = (k, w)" by (cases qb, cases kw)
  with Cons(1) obtain x rs where q: "q = dquote # x" "k = utf8 rs" "\<And>t. jstr (x @ t) = Some (rs, t)"
    and b: "reads_back d b w" by auto
  have bk: "num_stop u \<Longrightarrow> \<exists>tr. jvalue d (b @ u) = Some (tr, u) \<and> to_any tr = w" for u
    using b by (simp add: reads_back_def)
  have sk: "skip_ws (b @ u) = b @ u" for u using b by (auto simp: reads_back_def)
  let ?w = "\<lambda>(q, b). q @ CHR '':'' # b"
  show ?case
  proof (cases qbs)
    case Nil
    obtain tr where "jvalue d (b @ CHR ''}'' # t) = Some (tr, CHR ''}'' # t)" "to_any tr = w"
      using bk [of "CHR ''}'' # t"] by auto
    with Nil Cons(2) p q sk show ?thesis by (auto simp: jmembers.simps)
  next
    case (Cons qb1 qbs1)
    let ?r = "comma_join (map ?w qbs) @ CHR ''}'' # t"
    obtain ms where ms: "jmembers d ?r = Some (ms, t)" "map (\<lambda>(k, raw, v). (k, to_any v)) ms = kws"
      using Cons.IH Cons by auto
    obtain tr where tr: "jvalue d (b @ CHR '','' # ?r) = Some (tr, CHR '','' # ?r)" "to_any tr = w"
      using bk [of "CHR '','' # ?r"] by auto
    have "skip_ws ?r = ?r" using Cons.hyps(2) Cons by (auto simp: list_all2_Cons1 comma_join_Cons)
    moreover have "comma_join (map ?w (qb # qbs)) @ CHR ''}'' # t = q @ CHR '':'' # b @ CHR '','' # ?r"
      using Cons p by simp
    ultimately show ?thesis using ms tr p q sk by (auto simp: jmembers.simps [of d "dquote # _"])
  qed
qed simp

section \<open>The interface of a string writer\<close>

locale string_writer =
  fixes wr :: "bytes \<Rightarrow> bytes"
  assumes wr_literal: "\<exists>x. wr s = dquote # x \<and> (\<forall>t. jstr (x @ t) = Some (runes s, t))"
begin

lemma string_back: "valid_utf8 s \<Longrightarrow> reads_back d (wr s) (AString s)"
  using wr_literal [of s] by (auto simp: reads_back_def jvalue_Cons valid_utf8_def)

lemma slice_back:
  assumes "list_all2 (reads_back d) bs ws"
  shows "reads_back (Suc d) (CHR ''['' # comma_join bs @ '']'') (ASlice ws)"
proof (cases "bs = []")
  case True
  with assms show ?thesis by (simp add: reads_back_def jvalue_Cons)
next
  case False
  then obtain c b' where c: "comma_join bs = c # b'" "\<not> is_ws c" "c \<noteq> CHR '']''"
    using assms comma_join_hd [of "hd bs" _ _ "tl bs"]
    by (cases bs) (fastforce simp: list_all2_Cons1 reads_back_def)+
  have "\<exists>tr. jvalue (Suc d) (CHR ''['' # comma_join bs @ CHR '']'' # t) = Some (tr, t) \<and> to_any tr = ASlice ws" for t
    using elems_back [OF assms False, of t] c by (auto simp: jvalue_Cons)
  then show ?thesis by (simp add: reads_back_def)
qed

lemma map_back:
  assumes "list_all2 (\<lambda>(k, b) (k', w). k = k' \<and> valid_utf8 k \<and> reads_back d b w) kbs kws"
    and "distinct (map fst kws)"
  shows "reads_back (Suc d) (CHR ''{'' # comma_join (map (\<lambda>(k, b). wr k @ CHR '':'' # b) kbs) @ ''}'') (AMap kws)"
proof (cases "kbs = []")
  case True
  with assms show ?thesis by (simp add: reads_back_def jvalue_Cons put_all_def)
next
  case False
  let ?q = "map (\<lambda>(k, b). (wr k, b)) kbs"
  have lit: "valid_utf8 k \<Longrightarrow> \<exists>x rs. wr k = dquote # x \<and> k = utf8 rs \<and> (\<forall>t. jstr (x @ t) = Some (rs, t))" for k
    using wr_literal [of k] by (auto simp: valid_utf8_def)
  have q: "list_all2 (\<lambda>(q, b) (k, w). (\<exists>x rs. q = dquote # x \<and> k = utf8 rs \<and> (\<forall>t. jstr (x @ t) = Some (rs, t)))
      \<and> reads_back d b w) ?q kws"
    unfolding list_all2_map1 using assms(1) by (rule list_all2_mono) (use lit in auto)
  have w: "map (\<lambda>(q, b). q @ CHR '':'' # b) ?q = map (\<lambda>(k, b). wr k @ CHR '':'' # b) kbs" by auto
  obtain c b' where c: "comma_join (map (\<lambda>(k, b). wr k @ CHR '':'' # b) kbs) = dquote # b'"
    using False wr_literal [of "fst (hd kbs)"]
      comma_join_hd [of "wr (fst (hd kbs)) @ CHR '':'' # snd (hd kbs)" dquote _ "map (\<lambda>(k, b). wr k @ CHR '':'' # b) (tl kbs)"]
    by (cases kbs) (auto simp: case_prod_beta)
  have "\<exists>tr. jvalue (Suc d) (CHR ''{'' # comma_join (map (\<lambda>(k, b). wr k @ CHR '':'' # b) kbs) @ CHR ''}'' # t)
      = Some (tr, t) \<and> to_any tr = AMap kws" for t
  proof -
    obtain ms where "jmembers d (comma_join (map (\<lambda>(k, b). wr k @ CHR '':'' # b) kbs) @ CHR ''}'' # t) = Some (ms, t)"
      "map (\<lambda>(k, raw, v). (k, to_any v)) ms = kws"
      using members_back [OF q, of t, unfolded w] False by auto
    then show ?thesis using c assms(2)
      by (intro exI [of _ "JObj ms"]) (simp add: jvalue_Cons put_all_distinct)
  qed
  then show ?thesis by (simp add: reads_back_def)
qed

lemma render_back: "wf_any v \<Longrightarrow> fits d v \<Longrightarrow> reads_back d (render wr v) (norm v)"
proof (induction v arbitrary: d)
  case (ANumber n)
  then have n: "jnumber n = Some (n, [])" by simp
  from number_hd [OF n] jnumber_local(4) [OF n] show ?case
    by (auto simp: reads_back_def jvalue_Cons)
next
  case (ASlice xs)
  then obtain d' where d: "d = Suc d'" by (cases d) auto
  have "list_all2 (reads_back d') (map (render wr) xs) (map norm xs)"
    using ASlice d by (auto simp: list_all2_map1 list_all2_map2 list_all_iff list_all2_same)
  with d show ?case by (simp add: slice_back)
next
  case (AMap m)
  then obtain d' where d: "d = Suc d'" by (cases d) auto
  let ?m = "sort_key fst m"
  have members: "list_all2 (\<lambda>(k, b) (k', w). k = k' \<and> valid_utf8 k \<and> reads_back d' b w)
      (map (\<lambda>(k, v). (k, render wr v)) ?m) (map (\<lambda>(k, v). (k, norm v)) ?m)"
    using AMap d by (fastforce simp: list_all2_map1 list_all2_map2 list_all_iff list_all2_same)
  have "distinct (map fst (map (\<lambda>(k, v). (k, norm v)) ?m))"
    using AMap.prems by (simp only: map_fst_values) simp
  from map_back [OF members this] d show ?case by (simp add: sort_key_map_values)
qed (auto simp: string_back, auto simp: reads_back_def jvalue_Cons jlit_def HasPrefix_def)

lemma unmarshal_render:
  assumes "wf_any v" "fits maxNestingDepth v"
  shows "\<exists>tr. json_unmarshal (render wr v) = Some tr \<and> to_any tr = norm v"
    and "\<exists>tr. json_decode (render wr v) = Some tr \<and> to_any tr = norm v"
proof -
  from render_back [OF assms] obtain tr where "jvalue maxNestingDepth (render wr v) = Some (tr, [])"
      "to_any tr = norm v" "skip_ws (render wr v) = render wr v"
    unfolding reads_back_def by (metis append_Nil2 num_stop_delim(4) skip_ws_Cons)
  moreover have "skip_ws [] = []" by (simp add: skip_ws_def)
  ultimately show "\<exists>tr. json_unmarshal (render wr v) = Some tr \<and> to_any tr = norm v"
    and "\<exists>tr. json_decode (render wr v) = Some tr \<and> to_any tr = norm v"
    by (simp_all add: json_unmarshal_def json_decode_def)
qed

lemma render_inj:
  assumes "wf_any v" "fits maxNestingDepth v" "wf_any w" "fits maxNestingDepth w"
    and "render wr v = render wr w"
  shows "norm v = norm w"
  using unmarshal_render(2) [OF assms(1,2)] unmarshal_render(2) [OF assms(3,4)] assms(5) by auto

end

section \<open>What the decoder produces\<close>

lemma hex_val_bound: "hex_val c = Some n \<Longrightarrow> n < 16"
  by (auto simp: hex_val_def less_eq_char_def split: if_splits)

lemma hex4_bound: "hex4 s = Some (r, t) \<Longrightarrow> r < 0x10000"
  by (induction s rule: hex4.induct) (auto dest!: hex_val_bound split: option.splits)

lemma junescape_u_scalar:
  assumes "junescape_u s = Some (r, t)"
  shows "is_scalar r"
proof -
  obtain rr s1 where h: "hex4 s = Some (rr, s1)"
    using assms by (auto simp: junescape_u_def split: option.splits)
  then have "rr < 0x10000" by (rule hex4_bound)
  with h assms show ?thesis
    by (auto simp: junescape_u_def is_scalar_def is_surrogate_def RuneError_def split: option.splits if_splits)
qed

lemma junescape_scalar: "junescape s = Some (r, t) \<Longrightarrow> is_scalar r"
  by (cases s) (auto dest: junescape_u_scalar simp: is_scalar_def is_surrogate_def split: if_splits)

lemma jstr_scalar: "jstr s = Some (rs, t) \<Longrightarrow> r \<in> set rs \<Longrightarrow> is_scalar r"
proof (induction s arbitrary: rs rule: jstr.induct)
  case (2 c cs)
  consider "c = dquote" | "c \<noteq> dquote" "c = backslash"
    | "c \<noteq> dquote" "c \<noteq> backslash" "\<not> of_char c < (0x20 :: nat)"
    using "2.prems" by (auto split: if_splits)
  then show ?case
  proof cases
    case 2
    then obtain q u rs' where "junescape cs = Some (q, u)" "jstr u = Some (rs', t)" "rs = q # rs'"
      using "2.prems" by (auto split: option.splits)
    then show ?thesis using "2.IH"(1) [OF 2 _ refl] "2.prems"(2) junescape_scalar by auto
  next
    case 3
    then show ?thesis using "2.prems" "2.IH"(2) [OF 3] decode_rune_scalar
      by (auto simp del: decode_rune.simps drop_Cons')
  qed (use "2.prems" in simp)
qed simp

lemma jstr_valid: "jstr s = Some (rs, t) \<Longrightarrow> valid_utf8 (utf8 rs)"
  using jstr_scalar by (blast intro: valid_utf8_utf8)

lemma wf_to_any_step:
  "wf_any (to_any (JArr es)) \<longleftrightarrow> list_all (\<lambda>(raw, v). wf_any (to_any v)) es"
  "list_all (\<lambda>(k, raw, v). valid_utf8 k \<and> wf_any (to_any v)) ms \<Longrightarrow> wf_any (to_any (JObj ms))"
  "fits (Suc d) (to_any (JArr es)) \<longleftrightarrow> list_all (\<lambda>(raw, v). fits d (to_any v)) es"
  "list_all (\<lambda>(k, raw, v). fits d (to_any v)) ms \<Longrightarrow> fits (Suc d) (to_any (JObj ms))"
  using distinct_put_all [of "map (\<lambda>(k, raw, v). (k, to_any v)) ms"]
    set_put_all [of "map (\<lambda>(k, raw, v). (k, to_any v)) ms"]
  by (fastforce simp: list_all_iff)+

text \<open>The ways a value can be read.\<close>

lemma jvalue_cases:
  assumes "jvalue d s = Some (v, t)"
  obtains (lit) "v = JNull \<or> (\<exists>b. v = JBool b)"
    | (str) rs cs where "v = JStr (utf8 rs)" "jstr cs = Some (rs, t)"
    | (num) n where "v = JNum n" "jnumber s = Some (n, t)"
    | (empty) "d \<noteq> 0" "v = JObj [] \<or> v = JArr []"
    | (obj) c cs ms where "s = c # cs" "c = CHR ''{''" "d \<noteq> 0" "eat (CHR ''}'') (skip_ws cs) = None"
        "v = JObj ms" "jmembers (d - 1) (skip_ws cs) = Some (ms, t)"
    | (arr) c cs es where "s = c # cs" "c \<noteq> CHR ''{''" "c = CHR ''[''" "d \<noteq> 0"
        "eat (CHR '']'') (skip_ws cs) = None"
        "v = JArr es" "jelems (d - 1) (skip_ws cs) = Some (es, t)"
proof -
  obtain c cs where s: "s = c # cs" using assms by (cases s) (auto simp: jvalue.simps)
  show thesis
  proof (cases "c = CHR ''{'' \<or> c = CHR ''[''")
    case True
    with assms s obj [of c cs] arr [of c cs] empty show thesis
      by (auto simp: jvalue_Cons split: if_splits option.splits)
  next
    case False
    with assms s lit str num show thesis
      by (auto simp: jvalue_Cons jlit_def split: if_splits)
  qed
qed

lemma jvalue_wf: "jvalue d s = Some (v, t) \<Longrightarrow> wf_any (to_any v) \<and> fits d (to_any v)"
  and jelems_wf: "jelems d s = Some (es, t) \<Longrightarrow> list_all (\<lambda>(raw, v). wf_any (to_any v) \<and> fits d (to_any v)) es"
  and jmembers_wf: "jmembers d s = Some (ms, t) \<Longrightarrow>
    list_all (\<lambda>(k, raw, v). valid_utf8 k \<and> wf_any (to_any v) \<and> fits d (to_any v)) ms"
proof (induction d s and d s and d s arbitrary: v t and es t and ms t rule: jvalue_jelems_jmembers.induct)
  case (1 d s)
  from "1.prems" show ?case
  proof (cases rule: jvalue_cases)
    case (str rs cs)
    then show ?thesis by (simp add: jstr_valid)
  next
    case (num n)
    then show ?thesis using jnumber_local(4) [of s n t "[]"] by simp
  next
    case (obj c cs ms)
    from "1.IH"(1) [OF obj(1-4,6)]
    have "list_all (\<lambda>(k, raw, v). valid_utf8 k \<and> wf_any (to_any v)) ms"
      and "list_all (\<lambda>(k, raw, v). fits (d - 1) (to_any v)) ms" by (auto simp: list_all_iff)
    with wf_to_any_step(2) [of ms] wf_to_any_step(4) [of "d - 1" ms] obj(3,5) show ?thesis by simp
  next
    case (arr c cs es)
    from "1.IH"(2) [OF arr(1-5,7)]
    have "list_all (\<lambda>(raw, v). wf_any (to_any v)) es"
      and "list_all (\<lambda>(raw, v). fits (d - 1) (to_any v)) es" by (auto simp: list_all_iff)
    with wf_to_any_step(1) [of es] wf_to_any_step(3) [of "d - 1" es] arr(4,6) show ?thesis by simp
  qed (auto simp: put_all_def)
next
  case (2 d s)
  from "2.prems" "2.IH" show ?case
    by (subst (asm) (1) jelems.simps) (auto split: option.splits if_splits)
next
  case (3 d s)
  from "3.prems" "3.IH" show ?case
    by (subst (asm) (1) jmembers.simps) (auto split: option.splits if_splits, (rule jstr_valid, assumption)+)
qed

lemma unmarshal_wf: "json_unmarshal s = Some v \<Longrightarrow> wf_any (to_any v) \<and> fits maxNestingDepth (to_any v)"
  and decode_wf: "json_decode s = Some v \<Longrightarrow> wf_any (to_any v) \<and> fits maxNestingDepth (to_any v)"
  by (auto simp: json_unmarshal_def json_decode_def dest!: jvalue_wf split: option.splits if_splits)

section \<open>Representatives\<close>

lemmas sort_values = sort_key_map_values sort_key_idem

lemma render_norm [simp]: "render wr (norm v) = render wr v"
proof (induction v)
  case (AMap m)
  then have "map (\<lambda>(k, v). (k, render wr v)) (map (\<lambda>(k, v). (k, norm v)) (sort_key fst m))
    = map (\<lambda>(k, v). (k, render wr v)) (sort_key fst m)"
    by fastforce
  then show ?case by (simp add: sort_values del: map_map)
qed (simp_all cong: map_cong)

lemma wf_norm [simp]: "wf_any (norm v) = wf_any v"
proof (induction v)
  case (AMap m)
  then show ?case by (fastforce simp: sort_key_map_values list_all_iff comp_def case_prod_beta)
qed (auto simp: list_all_iff)

lemma fits_norm [simp]: "fits d (norm v) = fits d v"
proof (induction v arbitrary: d)
  case (AMap m)
  then show ?case by (fastforce simp: sort_key_map_values list_all_iff comp_def case_prod_beta)
qed (auto simp: list_all_iff)

lemma norm_norm [simp]: "norm (norm v) = norm v"
proof (induction v)
  case (AMap m)
  then have "map (\<lambda>(k, v). (k, norm v)) (map (\<lambda>(k, v). (k, norm v)) (sort_key fst m))
    = map (\<lambda>(k, v). (k, norm v)) (sort_key fst m)"
    by fastforce
  then show ?case by (simp add: sort_values del: map_map)
qed (simp_all cong: map_cong)

end
