(* ===== verification/Canon.thy ===== *)
theory Canon
  imports Render Sha256
begin

text \<open>
  Package \<open>internal/canon\<close>: canonical JSON (canon.go) and the conversation state hash (hash.go).
  The canonical string writer and the writer of \<open>json.Marshal\<close> are shown to provide the
  \<open>string_writer\<close> interface of theory Render; the properties of the canonical form rest on the
  facts of these two interpretations.
\<close>

section \<open>canon.go\<close>

text \<open>The format \<open>\u%04x\<close> of a rune below 0x10000.\<close>

definition u4 :: "nat \<Rightarrow> bytes" where
  "u4 r = [backslash, CHR ''u'', hex_digit (r div 4096), hex_digit (r div 256), hex_digit (r div 16), hex_digit r]"

text \<open>The body of the loop of \<open>WriteString\<close>.\<close>

definition write_rune :: "nat \<Rightarrow> bytes" where
  "write_rune r =
     (if r = of_char dquote then [backslash, dquote]
      else if r = of_char backslash then [backslash, backslash]
      else if r = of_char nl then [backslash, CHR ''n'']
      else if r = of_char cr then [backslash, CHR ''r'']
      else if r = 0x09 then [backslash, CHR ''t'']
      else if r = 0x08 then [backslash, CHR ''b'']
      else if r = 0x0C then [backslash, CHR ''f'']
      else if r < 0x20 then u4 r
      else encode_rune r)"

definition WriteString :: "bytes \<Rightarrow> bytes" where
  "WriteString s = dquote # concat (map write_rune (runes s)) @ [dquote]"

datatype canon_error = CanonDecode | CanonMarshal | UnsupportedType bytes

text \<open>
  \<open>emit\<close> on a map collects the keys, sorts them and looks every key up again. The text of a member
  is computed before the loop so that the recursion is structural; the loop asks for it by key.
\<close>

fun emit :: "goany \<Rightarrow> canon_error + bytes" where
  "emit ANil = Inr ''null''"
| "emit (ABool x) = Inr (if x then ''true'' else ''false'')"
| "emit (ANumber n) = Inr n"
| "emit (AString s) = Inr (WriteString s)"
| "emit (ASlice xs) =
     (case seq_results (map emit xs) of Inl e \<Rightarrow> Inl e
      | Inr bs \<Rightarrow> Inr (CHR ''['' # comma_join bs @ '']''))"
| "emit (AMap m) =
     (let vals = map (\<lambda>(k, v). (k, emit v)) m;
          keys = sort (map fst m)
      in case seq_results (map (\<lambda>k. the (map_of vals k)) keys) of Inl e \<Rightarrow> Inl e
         | Inr bs \<Rightarrow> Inr (CHR ''{'' # comma_join (map2 (\<lambda>k b. WriteString k @ CHR '':'' # b) keys bs) @ ''}''))"
| "emit (AOther ty) = Inl (UnsupportedType ty)"

definition Canonicalize :: "bytes \<Rightarrow> canon_error + bytes" where
  "Canonicalize raw = (case json_decode raw of None \<Rightarrow> Inl CanonDecode | Some v \<Rightarrow> emit (to_any v))"

text \<open>
  The string writer of \<open>json.Marshal\<close>: it escapes what the canonical writer escapes and also the
  HTML characters, the two Unicode line separators and every invalid byte.
\<close>

definition marshal_rune :: "nat \<Rightarrow> bytes" where
  "marshal_rune r =
     (if r = of_char dquote then [backslash, dquote]
      else if r = of_char backslash then [backslash, backslash]
      else if r = of_char nl then [backslash, CHR ''n'']
      else if r = of_char cr then [backslash, CHR ''r'']
      else if r = 0x09 then [backslash, CHR ''t'']
      else if r = 0x08 then [backslash, CHR ''b'']
      else if r = 0x0C then [backslash, CHR ''f'']
      else if r < 0x20 \<or> r = 0x3C \<or> r = 0x3E \<or> r = 0x26 \<or> r = 0x2028 \<or> r = 0x2029 then u4 r
      else encode_rune r)"

function marshal_chars :: "bytes \<Rightarrow> bytes" where
  "marshal_chars [] = []"
| "marshal_chars (c # cs) =
     (if decode_rune (c # cs) = (RuneError, 1) then u4 RuneError
      else marshal_rune (fst (decode_rune (c # cs))))
     @ marshal_chars (drop (snd (decode_rune (c # cs))) (c # cs))"
  by pat_completeness auto
termination
  by (relation "measure length") (use decode_rune_width in \<open>auto simp del: decode_rune.simps\<close>)

definition marshal_string :: "bytes \<Rightarrow> bytes" where
  "marshal_string s = dquote # marshal_chars s @ [dquote]"

text \<open>
  \<open>json.Marshal\<close> fails on a value of a type it cannot encode and on an invalid
  \<open>json.Number\<close>; the empty number is written as 0.
\<close>

fun marshalable :: "goany \<Rightarrow> bool" where
  "marshalable (ANumber n) = (n = [] \<or> jnumber n = Some (n, []))"
| "marshalable (ASlice xs) = list_all marshalable xs"
| "marshalable (AMap m) = list_all (\<lambda>(k, v). marshalable v) m"
| "marshalable (AOther ty) = False"
| "marshalable v = True"

fun fill_numbers :: "goany \<Rightarrow> goany" where
  "fill_numbers (ANumber n) = ANumber (if n = [] then ''0'' else n)"
| "fill_numbers (ASlice xs) = ASlice (map fill_numbers xs)"
| "fill_numbers (AMap m) = AMap (map (\<lambda>(k, v). (k, fill_numbers v)) m)"
| "fill_numbers v = v"

definition json_marshal :: "goany \<Rightarrow> bytes option" where
  "json_marshal v = (if marshalable v then Some (render marshal_string (fill_numbers v)) else None)"

definition CanonicalValue :: "goany \<Rightarrow> canon_error + bytes" where
  "CanonicalValue v = (case json_marshal v of None \<Rightarrow> Inl CanonMarshal | Some b \<Rightarrow> Canonicalize b)"

section \<open>hash.go\<close>

definition HashBytes :: "bytes \<Rightarrow> bytes" where
  "HashBytes d = hex_encode (sum256 d)"

definition MessageArray :: "bytes list \<Rightarrow> bytes" where
  "MessageArray msgs = CHR ''['' # comma_join msgs @ '']''"

definition HistoryHash :: "bytes list \<Rightarrow> bytes" where
  "HistoryHash msgs = HashBytes (MessageArray msgs)"

definition FullState :: "bytes list \<Rightarrow> bytes \<Rightarrow> bytes" where
  "FullState msgs assistant = MessageArray (msgs @ [assistant])"

definition Short :: "bytes \<Rightarrow> bytes" where
  "Short s = (if length s > 12 then take 12 s else s)"

section \<open>The string writers provide the interface\<close>

lemma hex_val_digit: "hex_val (hex_digit n) = Some (n mod 16)"
proof -
  have "\<forall>i \<in> set [0..<16]. hex_val (''0123456789abcdef'' ! i) = Some i" by code_simp
  then show ?thesis by (simp add: hex_digit_def)
qed

lemma hex4_u4: "r < 0x10000 \<Longrightarrow>
  hex4 (hex_digit (r div 4096) # hex_digit (r div 256) # hex_digit (r div 16) # hex_digit r # s) = Some (r, s)"
proof -
  assume "r < 0x10000"
  define a where "a = r div 16"
  define b where "b = a div 16"
  define c where "c = b div 16"
  have "r div 256 = b" "r div 4096 = c" by (simp_all add: a_def b_def c_def flip: div_mult2_eq)
  moreover have "c mod 16 = c" using \<open>r < _\<close> by (simp add: a_def b_def c_def flip: div_mult2_eq)
  moreover have "c * 16 + b mod 16 = b" "b * 16 + a mod 16 = a" "a * 16 + r mod 16 = r"
    by (simp_all add: a_def b_def c_def)
  then have "c * 4096 + b mod 16 * 256 + a mod 16 * 16 + r mod 16 = r" by linarith
  ultimately show ?thesis by (simp add: hex_val_digit flip: a_def)
qed

lemma jstr_u4:
  assumes "r < 0x10000" "\<not> is_surrogate r"
  shows "jstr (u4 r @ s) = map_option (apfst ((#) r)) (jstr s)"
  using assms hex4_u4 [OF assms(1), of s] by (simp add: u4_def junescape_u_def del: hex4.simps)

lemma encode_rune_hd:
  assumes "is_scalar r" "0x20 \<le> r" "r \<noteq> of_char dquote" "r \<noteq> of_char backslash"
  shows "\<exists>c cs. encode_rune r = c # cs \<and> c \<noteq> dquote \<and> c \<noteq> backslash \<and> \<not> of_char c < (0x20 :: nat)"
proof -
  obtain c cs where e: "encode_rune r = c # cs" by (cases "encode_rune r") auto
  show ?thesis
  proof (cases "r < 0x80")
    case True
    then have "of_char c = r" using e by (auto simp: encode_rune_ascii)
    with assms e show ?thesis by auto
  next
    case False
    have "\<not> of_char c < (0x80 :: nat)"
    proof
      assume "of_char c < (0x80 :: nat)"
      then have "fst (decode_rune (encode_rune r @ [])) = of_char c" using e by (simp add: Let_def)
      then show False using decode_encode_rune [OF assms(1), of "[]"] False \<open>of_char c < _\<close> by simp
    qed
    then show ?thesis using e by (intro exI [of _ c] exI [of _ cs]) auto
  qed
qed

lemma jstr_encode_rune:
  assumes "is_scalar r" "0x20 \<le> r" "r \<noteq> of_char dquote" "r \<noteq> of_char backslash"
  shows "jstr (encode_rune r @ s) = map_option (apfst ((#) r)) (jstr s)"
proof -
  obtain c cs where e: "encode_rune r = c # cs" "c \<noteq> dquote" "c \<noteq> backslash" "\<not> of_char c < (0x20 :: nat)"
    using encode_rune_hd [OF assms] by auto
  have "decode_rune (c # cs @ s) = (r, length (c # cs))"
    using decode_encode_rune [OF assms(1), of s] e(1) by simp
  with e show ?thesis by (simp del: decode_rune.simps)
qed

lemma jstr_write_rune:
  "is_scalar r \<Longrightarrow> jstr (write_rune r @ s) = map_option (apfst ((#) r)) (jstr s)"
  using jstr_encode_rune [of r s] jstr_u4 [of r s]
  by (auto simp: write_rune_def is_surrogate_def)

lemma jstr_marshal_rune:
  "is_scalar r \<Longrightarrow> jstr (marshal_rune r @ s) = map_option (apfst ((#) r)) (jstr s)"
  using jstr_encode_rune [of r s] jstr_u4 [of r s]
  by (auto simp: marshal_rune_def is_surrogate_def)

text \<open>A text made of pieces that each stand for one rune is read as these runes.\<close>

lemma jstr_concat:
  assumes "\<And>r s. is_scalar r \<Longrightarrow> jstr (f r @ s) = map_option (apfst ((#) r)) (jstr s)"
    and "\<forall>r \<in> set rs. is_scalar r"
  shows "jstr (concat (map f rs) @ dquote # t) = Some (rs, t)"
  using assms(2) by (induction rs) (simp_all add: assms(1))

lemma jstr_marshal_chars: "jstr (marshal_chars s @ dquote # t) = Some (runes s, t)"
proof (induction s rule: marshal_chars.induct)
  case (2 c cs)
  have "is_scalar RuneError" by simp
  then have "jstr (u4 RuneError @ u) = map_option (apfst ((#) RuneError)) (jstr u)" for u
    by (intro jstr_u4) (simp_all add: RuneError_def is_scalar_def)
  with 2 jstr_marshal_rune [OF decode_rune_scalar [of "c # cs"]] show ?case
    by (cases "decode_rune (c # cs) = (RuneError, 1)") (simp_all del: decode_rune.simps)
qed simp

interpretation canon_writer: string_writer WriteString
proof
  fix s
  show "\<exists>x. WriteString s = dquote # x \<and> (\<forall>t. jstr (x @ t) = Some (runes s, t))"
    using jstr_concat [OF jstr_write_rune, of "runes s"] runes_scalar [of _ s]
    by (simp add: WriteString_def)
qed

interpretation marshal_writer: string_writer marshal_string
  by unfold_locales (simp add: marshal_string_def jstr_marshal_chars)

section \<open>Canonical form\<close>

lemma map2_map_self: "map2 g ks (map f ks) = map (\<lambda>k. g k (f k)) ks"
  by (induction ks) auto

lemma emit_render: "wf_any v \<Longrightarrow> emit v = Inr (render WriteString v)"
proof (induction v)
  case (ASlice xs)
  then have "map emit xs = map (\<lambda>x. Inr (render WriteString x)) xs" by (simp add: list_all_iff)
  then show ?case by (simp del: map_eq_conv)
next
  case (AMap m)
  let ?r = "\<lambda>(k, v). (k, render WriteString v)"
  let ?keys = "sort (map fst m)" and ?look = "\<lambda>k. the (map_of (map ?r m) k)"
  have d: "distinct (map fst m)" using AMap.prems by simp
  have vals: "map (\<lambda>(k, v). (k, emit v)) m = map (\<lambda>(k, b). (k, Inr b)) (map ?r m)"
    using AMap by (fastforce simp: list_all_iff)
  have look: "map (\<lambda>k. the (map_of (map (\<lambda>(k, v). (k, emit v)) m) k)) ?keys = map (\<lambda>k. Inr (?look k)) ?keys"
    unfolding vals
  proof (rule map_cong [OF refl])
    fix k assume "k \<in> set ?keys"
    then obtain b where "map_of (map ?r m) k = Some b"
      by (fastforce simp: map_of_map dest: weak_map_of_SomeI)
    moreover have "map_of (map (\<lambda>(k, b). (k, Inr b :: canon_error + bytes)) (map ?r m)) k = map_option Inr (map_of (map ?r m) k)"
      by (simp add: map_of_map del: map_map)
    ultimately show "the (map_of (map (\<lambda>(k, b). (k, Inr b :: canon_error + bytes)) (map ?r m)) k) = Inr (?look k)" by simp
  qed
  have sorted: "sort_key fst (map ?r m) = map (\<lambda>k. (k, ?look k)) ?keys"
    using lookup_sorted_keys [of "map ?r m"] d by (simp only: map_fst_values)
  have "map (\<lambda>(k, b). WriteString k @ CHR '':'' # b) (sort_key fst (map ?r m))
      = map2 (\<lambda>k b. WriteString k @ CHR '':'' # b) ?keys (map ?look ?keys)"
    unfolding sorted map2_map_self by simp
  then show ?case by (simp add: Let_def look)
qed simp_all

lemma Canonicalize_Inr:
  assumes "json_decode raw = Some v"
  shows "Canonicalize raw = Inr (render WriteString (to_any v))"
  using decode_wf [OF assms] by (simp add: Canonicalize_def assms emit_render)

lemma Canonicalize_iff: "Canonicalize raw = Inr c \<longleftrightarrow> (\<exists>v. json_decode raw = Some v \<and> c = render WriteString (to_any v))"
  using Canonicalize_Inr by (fastforce simp: Canonicalize_def split: option.splits)

lemma Canonicalize_render:
  assumes "wf_any v" "fits maxNestingDepth v"
  shows "Canonicalize (render WriteString v) = Inr (render WriteString v)"
    and "Canonicalize (render marshal_string v) = Inr (render WriteString v)"
  using canon_writer.unmarshal_render(2) [OF assms] marshal_writer.unmarshal_render(2) [OF assms]
  by (auto simp: Canonicalize_Inr)

lemma marshal_wf: "wf_any v \<Longrightarrow> json_marshal v = Some (render marshal_string v)"
proof -
  assume "wf_any v"
  have "wf_any v \<Longrightarrow> marshalable v \<and> fill_numbers v = v" for v
  proof (induction v)
    case (AMap m)
    then show ?case by (fastforce simp: list_all_iff intro!: map_idI)
  qed (auto simp: list_all_iff map_idI dest: jnumber_local)
  with \<open>wf_any v\<close> show ?thesis by (simp add: json_marshal_def)
qed

text \<open>
  The detour of \<open>CanonicalValue\<close> through \<open>json.Marshal\<close>, whose output differs from the canonical
  form in its escapes, changes nothing.
\<close>

lemma CanonicalValue_render:
  "wf_any v \<Longrightarrow> fits maxNestingDepth v \<Longrightarrow> CanonicalValue v = Inr (render WriteString v)"
  by (simp add: CanonicalValue_def marshal_wf Canonicalize_render(2))

text \<open>A text is canonical when it is its own canonical form.\<close>

definition is_canonical :: "bytes \<Rightarrow> bool" where
  "is_canonical c \<longleftrightarrow> Canonicalize c = Inr c"

lemma Canonicalize_canonical: "Canonicalize raw = Inr c \<Longrightarrow> is_canonical c"
  unfolding is_canonical_def using Canonicalize_iff [of raw c] Canonicalize_render(1) decode_wf by blast

lemma is_canonicalE:
  assumes "is_canonical c"
  obtains v where "c = render WriteString v" "wf_any v" "fits maxNestingDepth v"
  using assms by (auto simp: is_canonical_def Canonicalize_iff dest: decode_wf)

text \<open>What a written string looks like inside a text.\<close>

lemma jvalue_WriteString: "jvalue d (WriteString t @ u) = Some (JStr (utf8 (runes t)), u)"
  using canon_writer.wr_literal [of t] by (auto simp: jvalue_Cons)

lemma skip_ws_WriteString: "skip_ws (WriteString t @ u) = WriteString t @ u"
  by (simp add: WriteString_def)

lemma write_rune_no_control: "c \<in> set (write_rune r) \<Longrightarrow> 0x20 \<le> (of_char c :: nat)"
proof -
  have hex: "0x20 \<le> (of_char (hex_digit n) :: nat)" for n
  proof -
    have "\<forall>i \<in> set [0..<16]. 0x20 \<le> (of_char (''0123456789abcdef'' ! i) :: nat)" by code_simp
    then show ?thesis by (simp add: hex_digit_def)
  qed
  assume "c \<in> set (write_rune r)"
  then show ?thesis using hex encode_rune_high [of r c] encode_rune_ascii [of r]
    by (cases "r < 0x80") (auto simp: write_rune_def u4_def split: if_splits)
qed

lemma WriteString_no_control: "c \<in> set (WriteString s) \<Longrightarrow> 0x20 \<le> (of_char c :: nat)"
  by (auto simp: WriteString_def dest: write_rune_no_control)

section \<open>Framing and hashing\<close>

lemma canonical_messages_back:
  assumes "list_all is_canonical msgs" "msgs \<noteq> []"
  shows "\<exists>es. jelems maxNestingDepth (comma_join msgs @ '']'') = Some (es, []) \<and>
    msgs = map (\<lambda>(raw, v). render WriteString (to_any v)) es"
proof -
  have "\<exists>w. wf_any w \<and> render WriteString w = c \<and> reads_back maxNestingDepth c w" if "is_canonical c" for c
  proof -
    from that obtain v where v: "c = render WriteString v" "wf_any v" "fits maxNestingDepth v"
      by (rule is_canonicalE)
    then show ?thesis using canon_writer.render_back [of v maxNestingDepth]
      by (intro exI [of _ "norm v"]) simp
  qed
  then have "\<forall>c. \<exists>w. is_canonical c \<longrightarrow> render WriteString w = c \<and> reads_back maxNestingDepth c w" by blast
  then obtain val where val: "\<And>c. is_canonical c \<Longrightarrow> render WriteString (val c) = c \<and> reads_back maxNestingDepth c (val c)"
    by metis
  have "list_all2 (reads_back maxNestingDepth) msgs (map val msgs)"
    using assms(1) val by (simp add: list_all2_map2 list_all2_same list_all_iff)
  from elems_back [OF this assms(2), of "[]"] obtain es where
    es: "jelems maxNestingDepth (comma_join msgs @ '']'') = Some (es, [])"
      "map (\<lambda>(raw, v). to_any v) es = map val msgs" by auto
  have "msgs = map (render WriteString \<circ> val) msgs"
    using assms(1) val by (simp add: list_all_iff map_idI)
  also have "\<dots> = map (render WriteString) (map (\<lambda>(raw, v). to_any v) es)" by (simp add: es(2))
  finally show ?thesis using es(1) by (auto simp: comp_def case_prod_beta)
qed

text \<open>The array of canonical messages determines the messages: the framing is injective.\<close>

lemma MessageArray_inject:
  assumes "list_all is_canonical ms" "list_all is_canonical ns" "MessageArray ms = MessageArray ns"
  shows "ms = ns"
proof -
  have eq: "comma_join ms @ '']'' = comma_join ns @ '']''" using assms(3) by (simp add: MessageArray_def)
  have empty: "qs = []" if "list_all is_canonical qs" "comma_join qs @ '']'' = '']''" for qs
  proof (rule ccontr)
    assume "qs \<noteq> []"
    from canonical_messages_back [OF that(1) this] that(2) obtain es
      where "jelems maxNestingDepth '']'' = Some (es, [])" by auto
    then show False
      by (auto simp: jelems.simps [of _ "'']''"] jvalue_Cons jnumber_def jminus_def jint_def jdigits_def is_digit_def
        less_eq_char_def split: option.splits)
  qed
  show ?thesis
  proof (cases "ms = [] \<or> ns = []")
    case True
    then show ?thesis using empty [OF assms(1)] empty [OF assms(2)] eq by auto
  next
    case False
    then obtain es es' where "jelems maxNestingDepth (comma_join ms @ '']'') = Some (es, [])"
        "jelems maxNestingDepth (comma_join ns @ '']'') = Some (es', [])"
        "ms = map (\<lambda>(raw, v). render WriteString (to_any v)) es"
        "ns = map (\<lambda>(raw, v). render WriteString (to_any v)) es'"
      using canonical_messages_back [OF assms(1)] canonical_messages_back [OF assms(2)] by blast
    then show ?thesis unfolding eq by simp
  qed
qed

lemma FullState_hash: "HashBytes (FullState msgs a) = HistoryHash (msgs @ [a])"
  by (simp add: FullState_def HistoryHash_def)

text \<open>Every hash is 64 hexadecimal digits.\<close>

lemma length_be_bytes [simp]: "length (be_bytes n x) = n"
  by (induction n arbitrary: x) auto

lemma length_sha_round: "length st = 8 \<Longrightarrow> length (sha_round kw st) = 8"
  by (induction kw st rule: sha_round.induct) (auto simp: Let_def)

lemma length_fold_round: "length st = 8 \<Longrightarrow> length (fold sha_round kws st) = 8"
  by (induction kws arbitrary: st) (auto simp: length_sha_round)

lemma length_sha_blocks: "length hs = 8 \<Longrightarrow> length (sha_blocks n s hs) = 8"
  by (induction n arbitrary: s hs) (auto simp: sha_block_def length_fold_round)

lemma length_sum256: "length (sum256 d) = 32"
proof -
  let ?w = "sha_blocks (length (sha_pad d) div 64) (sha_pad d) sha_init"
  have "length ?w = 8" by (rule length_sha_blocks) (simp add: sha_init_def)
  moreover have "length (concat (map (\<lambda>w. be_bytes 4 (uint w)) ws)) = 4 * length ws" for ws :: "w32 list"
    by (induction ws) auto
  ultimately show ?thesis by (simp add: sum256_def Let_def)
qed

lemma length_hex_encode: "length (hex_encode s) = 2 * length s"
  unfolding hex_encode_def by (induction s) auto

lemma hex_digit_in: "hex_digit n \<in> set ''0123456789abcdef''"
  unfolding hex_digit_def by (rule nth_mem) simp

lemma set_hex_encode: "set (hex_encode s) \<subseteq> set ''0123456789abcdef''"
proof (induction s)
  case (Cons c s)
  have e: "set (hex_encode (c # s)) = {hex_digit (of_char c div 16), hex_digit (of_char c)} \<union> set (hex_encode s)"
    by (auto simp: hex_encode_def)
  show ?case unfolding e by (intro Un_least insert_subsetI empty_subsetI hex_digit_in Cons)
qed (simp add: hex_encode_def)

lemma length_HashBytes [simp]: "length (HashBytes d) = 64"
  by (simp add: HashBytes_def length_hex_encode length_sum256)

lemma hex_digit_inject: "hex_digit m = hex_digit n \<Longrightarrow> m mod 16 = n mod 16"
  using hex_val_digit [of m] hex_val_digit [of n] by simp

lemma hex_encode_inject: "hex_encode s = hex_encode t \<longleftrightarrow> s = t"
proof (induction s arbitrary: t)
  case Nil
  show ?case by (cases t) (simp_all add: hex_encode_def)
next
  case (Cons c s)
  have inj: "c = d" if "hex_digit (of_char c div 16) = hex_digit (of_char d div 16)"
    "hex_digit (of_char c) = hex_digit (of_char d)" for c d :: byte
  proof -
    have "(of_char c :: nat) div 16 = of_char d div 16" "(of_char c :: nat) mod 16 = of_char d mod 16"
      using hex_digit_inject [OF that(1)] hex_digit_inject [OF that(2)] of_char_lt [of c] of_char_lt [of d]
      by (simp_all add: less_mult_imp_div_less)
    then have "(of_char c :: nat) = of_char d" by (metis div_mult_mod_eq)
    then show ?thesis by simp
  qed
  show ?case
  proof (cases t)
    case (Cons d t')
    then show ?thesis using Cons.IH [of t'] inj [of c d] by (auto simp: hex_encode_def)
  qed (simp add: hex_encode_def)
qed

lemma HashBytes_eq: "HashBytes a = HashBytes b \<longleftrightarrow> sum256 a = sum256 b"
  by (simp add: HashBytes_def hex_encode_inject)

section \<open>Properties\<close>

text \<open>
  C14. The canonical form of a JSON text is a JSON text of its own, denotes the same value (map
  members in key order) and is its own canonical form.
\<close>

theorem Canonicalize_same_value:
  assumes "Canonicalize raw = Inr c"
  shows "\<exists>v w. json_decode raw = Some v \<and> json_unmarshal c = Some w \<and> to_any w = norm (to_any v)
    \<and> Canonicalize c = Inr c"
proof -
  from assms obtain v where v: "json_decode raw = Some v" "c = render WriteString (to_any v)"
    by (auto simp: Canonicalize_iff)
  note wf = decode_wf [OF v(1)]
  show ?thesis
    using canon_writer.unmarshal_render(1) [of "to_any v"] Canonicalize_render(1) [of "to_any v"] v wf by auto
qed

theorem Canonicalize_same_value_witness:
  "\<exists>v w. json_decode ''{\"b\":1 , \"a\":[true]}'' = Some v \<and> json_unmarshal ''{\"a\":[true],\"b\":1}'' = Some w
    \<and> to_any w = norm (to_any v) \<and> Canonicalize ''{\"a\":[true],\"b\":1}'' = Inr ''{\"a\":[true],\"b\":1}''"
proof (rule Canonicalize_same_value)
  show "Canonicalize ''{\"b\":1 , \"a\":[true]}'' = Inr ''{\"a\":[true],\"b\":1}''" by code_simp
qed

text \<open>
  C10. Two JSON texts have the same canonical form exactly when they denote the same value: equal up
  to whitespace, the order of object members, overwritten duplicates and string escapes, and
  nothing else.
\<close>

theorem Canonicalize_eq_iff:
  assumes "json_decode r1 = Some v1" "json_decode r2 = Some v2"
  shows "Canonicalize r1 = Canonicalize r2 \<longleftrightarrow> norm (to_any v1) = norm (to_any v2)"
proof
  assume "Canonicalize r1 = Canonicalize r2"
  then show "norm (to_any v1) = norm (to_any v2)"
    using canon_writer.render_inj decode_wf [OF assms(1)] decode_wf [OF assms(2)]
    by (auto simp: Canonicalize_Inr [OF assms(1)] Canonicalize_Inr [OF assms(2)])
next
  assume "norm (to_any v1) = norm (to_any v2)"
  then have "render WriteString (to_any v1) = render WriteString (to_any v2)" by (metis render_norm)
  then show "Canonicalize r1 = Canonicalize r2"
    by (simp add: Canonicalize_Inr [OF assms(1)] Canonicalize_Inr [OF assms(2)])
qed

theorem Canonicalize_eq_iff_witness:
  "Canonicalize ''{\"b\":1, \"a\":2}'' = Canonicalize ''{\"a\":2,\"b\":1}'' \<and> Canonicalize ''[1]'' \<noteq> Canonicalize ''[1.0]''"
proof
  have "json_decode ''{\"b\":1, \"a\":2}'' = Some (JObj [(''b'', ''1'', JNum ''1''), (''a'', ''2'', JNum ''2'')])"
    "json_decode ''{\"a\":2,\"b\":1}'' = Some (JObj [(''a'', ''2'', JNum ''2''), (''b'', ''1'', JNum ''1'')])"
    by code_simp+
  from Canonicalize_eq_iff [OF this] show "Canonicalize ''{\"b\":1, \"a\":2}'' = Canonicalize ''{\"a\":2,\"b\":1}''"
    by (simp add: put_all_def)
  have "json_decode ''[1]'' = Some (JArr [(''1'', JNum ''1'')])"
    "json_decode ''[1.0]'' = Some (JArr [(''1.0'', JNum ''1.0'')])" by code_simp+
  from Canonicalize_eq_iff [OF this] show "Canonicalize ''[1]'' \<noteq> Canonicalize ''[1.0]''" by simp
qed

text \<open>
  C28. \<open>Canonicalize\<close> fails exactly on the inputs that do not start with a JSON value, with the
  decode error; the error for an unsupported type is never returned.
\<close>

theorem Canonicalize_error_iff:
  "Canonicalize raw = Inl e \<longleftrightarrow> json_decode raw = None \<and> e = CanonDecode"
  using Canonicalize_Inr [of raw] by (auto simp: Canonicalize_def split: option.splits)

text \<open>
  C23. The canonical form of a map does not depend on the order in which the map's iteration yields
  its keys, which Go leaves unspecified. This holds for every map, also when a value cannot be
  written: then the same error is returned.
\<close>

theorem emit_iteration_order:
  assumes "distinct (map fst m)" "mset m = mset m'"
  shows "emit (AMap m) = emit (AMap m')"
proof -
  let ?e = "\<lambda>(k, v). (k, emit v)"
  have d: "distinct (map fst (map ?e m))" using assms(1) by (simp only: map_fst_values)
  have s: "mset (map ?e m) = mset (map ?e m')" using assms(2) by simp
  have "sort (map fst m) = sort (map fst m')" using assms(2) by (intro properties_for_sort) simp_all
  moreover have "distinct (map fst m')" using assms by (metis mset_eq_imp_distinct_iff mset_map)
  then have "distinct (map fst (map ?e m'))" by (simp only: map_fst_values)
  then have "map_of (map ?e m) = map_of (map ?e m')"
    using map_of_inject_set [OF d] mset_eq_setD [OF s] by blast
  ultimately show ?thesis by (simp add: Let_def)
qed

theorem emit_iteration_order_witness:
  "emit (AMap [(''b'', ABool True), (''a'', ANil)]) = emit (AMap [(''a'', ANil), (''b'', ABool True)])"
  by (rule emit_iteration_order) simp_all

text \<open>
  \<open>CanonicalValue\<close>, which marshals with \<open>encoding/json\<close> (other escapes) and decodes again,
  yields what writing the value directly yields.
\<close>

lemma CanonicalValue_eq_emit:
  assumes "wf_any v" "fits maxNestingDepth v"
  shows "CanonicalValue v = emit v"
  using assms by (simp add: CanonicalValue_render emit_render)

text \<open>
  C24. Every string written by \<open>WriteString\<close> is one JSON literal that decodes to the written
  string, with invalid bytes replaced by U+FFFD; a valid string decodes to itself.
\<close>

theorem WriteString_roundtrip:
  "json_unmarshal (WriteString s) = Some (JStr (utf8 (runes s))) \<and>
    (valid_utf8 s \<longrightarrow> json_unmarshal (WriteString s) = Some (JStr s))"
proof -
  obtain x where x: "WriteString s = dquote # x" "\<And>t. jstr (x @ t) = Some (runes s, t)"
    using canon_writer.wr_literal [of s] by auto
  have "json_unmarshal (WriteString s) = Some (JStr (utf8 (runes s)))"
    using x(2) [of "[]"] by (simp add: json_unmarshal_def x(1) jvalue_Cons skip_ws_def [of "[]"])
  then show ?thesis by (simp add: valid_utf8_def)
qed

theorem WriteString_roundtrip_witness:
  "json_unmarshal (WriteString [CHR 0x41, CHR 0xFF, dquote]) = Some (JStr [CHR 0x41, CHR 0xEF, CHR 0xBF, CHR 0xBD, dquote])
    \<and> json_unmarshal (WriteString ''a\"b'') = Some (JStr ''a\"b'')"
proof
  have "utf8 (runes [CHR 0x41, CHR 0xFF, dquote]) = [CHR 0x41, CHR 0xEF, CHR 0xBF, CHR 0xBD, dquote]" by code_simp
  then show "json_unmarshal (WriteString [CHR 0x41, CHR 0xFF, dquote])
      = Some (JStr [CHR 0x41, CHR 0xEF, CHR 0xBF, CHR 0xBD, dquote])"
    using WriteString_roundtrip [of "[CHR 0x41, CHR 0xFF, dquote]"] by simp
  have "valid_utf8 ''a\"b''" by code_simp
  then show "json_unmarshal (WriteString ''a\"b'') = Some (JStr ''a\"b'')"
    using WriteString_roundtrip [of "''a\"b''"] by blast
qed

text \<open>
  C15. Two histories of canonical messages have the same state hash only when they are the same
  list of messages, unless SHA-256 collides on the two arrays: the framing of the messages
  adds no ambiguity of its own.
\<close>

theorem HistoryHash_collision:
  assumes "list_all is_canonical ms" "list_all is_canonical ns"
  shows "HistoryHash ms = HistoryHash ns \<longleftrightarrow>
    ms = ns \<or> (MessageArray ms \<noteq> MessageArray ns \<and> sum256 (MessageArray ms) = sum256 (MessageArray ns))"
  using MessageArray_inject [OF assms] by (auto simp: HistoryHash_def HashBytes_eq)

theorem HistoryHash_collision_witness:
  "HistoryHash [''1'', ''2''] = HistoryHash [''12''] \<longleftrightarrow>
    [''1'', ''2''] = [''12''] \<or> (MessageArray [''1'', ''2''] \<noteq> MessageArray [''12''] \<and>
      sum256 (MessageArray [''1'', ''2'']) = sum256 (MessageArray [''12'']))"
proof (rule HistoryHash_collision)
  show "list_all is_canonical [''1'', ''2'']" by code_simp
  show "list_all is_canonical [''12'']" by code_simp
qed

text \<open>Every state hash is 64 lower-case hexadecimal digits.\<close>

theorem HistoryHash_format:
  "length (HistoryHash ms) = 64 \<and> set (HistoryHash ms) \<subseteq> set ''0123456789abcdef''"
  unfolding HistoryHash_def using length_HashBytes set_hex_encode [of "sum256 (MessageArray ms)"]
  by (simp only: HashBytes_def)

end
