(* ===== verification/Decode.thy ===== *)
theory Decode
  imports Render
begin

text \<open>
  Decoding a parse tree into typed Go values, as \<open>encoding/json\<close> does it: struct fields are
  found by exact name first and by folded name otherwise, members are stored in source order (a
  later duplicate is decoded into what the earlier one left), \<open>null\<close> clears a pointer, a map
  or a slice and leaves a string or a struct as it was, and a type mismatch makes \<open>Unmarshal\<close>
  return an error (\<open>None\<close> here: every caller in the gateway drops the target then). Also
  \<open>strconv.Atoi\<close> and \<open>strconv.ParseInt\<close> in base 10 on 64-bit integers.
\<close>

section \<open>Integers\<close>

definition dec_val :: "bytes \<Rightarrow> int" where
  "dec_val ds = fold (\<lambda>c n. n * 10 + (of_char c - 48)) ds 0"

definition in_int64 :: "int \<Rightarrow> bool" where
  "in_int64 n \<longleftrightarrow> - (2 ^ 63) \<le> n \<and> n < 2 ^ 63"

fun split_sign :: "bytes \<Rightarrow> bool \<times> bytes" where
  "split_sign [] = (False, [])"
| "split_sign (c # cs) =
     (if c = CHR ''-'' then (True, cs) else if c = CHR ''+'' then (False, cs) else (False, c # cs))"

definition Atoi :: "bytes \<Rightarrow> int option" where
  "Atoi s =
     (case split_sign s of (neg, ds) \<Rightarrow>
        if ds = [] \<or> \<not> list_all is_digit ds then None
        else (let n = (if neg then - dec_val ds else dec_val ds) in
              if in_int64 n then Some n else None))"

section \<open>Struct fields\<close>

text \<open>
  \<open>foldName\<close>. Outside ASCII only U+017F and U+212A fold to an ASCII letter; every other rune
  folds to a rune that no field name of the gateway contains.
\<close>

definition fold_rune :: "nat \<Rightarrow> nat" where
  "fold_rune r =
     (if 0x61 \<le> r \<and> r \<le> 0x7A then r - 0x20
      else if r = 0x17F then 0x53
      else if r = 0x212A then 0x4B
      else r)"

definition fold_name :: "bytes \<Rightarrow> nat list" where
  "fold_name s = map fold_rune (runes s)"

definition find_field :: "bytes list \<Rightarrow> bytes \<Rightarrow> bytes option" where
  "find_field names key =
     (if key \<in> set names then Some key else find (\<lambda>n. fold_name n = fold_name key) names)"

text \<open>
  Storing the members of an object into a struct: \<open>put name raw v st\<close> stores one member in the
  field \<open>name\<close>; a member without a field is skipped.
\<close>

fun put_members :: "bytes list \<Rightarrow> (bytes \<Rightarrow> bytes \<Rightarrow> jtree \<Rightarrow> 's \<Rightarrow> 's option) \<Rightarrow>
    (bytes \<times> bytes \<times> jtree) list \<Rightarrow> 's \<Rightarrow> 's option" where
  "put_members names put [] st = Some st"
| "put_members names put ((k, raw, v) # ms) st =
     (case find_field names k of
        None \<Rightarrow> put_members names put ms st
      | Some n \<Rightarrow> (case put n raw v st of None \<Rightarrow> None | Some st' \<Rightarrow> put_members names put ms st'))"

definition into_struct :: "bytes list \<Rightarrow> (bytes \<Rightarrow> bytes \<Rightarrow> jtree \<Rightarrow> 's \<Rightarrow> 's option) \<Rightarrow> jtree \<Rightarrow> 's \<Rightarrow> 's option" where
  "into_struct names put v st =
     (case v of JNull \<Rightarrow> Some st | JObj ms \<Rightarrow> put_members names put ms st | _ \<Rightarrow> None)"

section \<open>Scalars, pointers and slices\<close>

definition into_string :: "jtree \<Rightarrow> bytes \<Rightarrow> bytes option" where
  "into_string v old = (case v of JNull \<Rightarrow> Some old | JStr s \<Rightarrow> Some s | _ \<Rightarrow> None)"

definition into_string_ptr :: "jtree \<Rightarrow> bytes option option" where
  "into_string_ptr v = (case v of JNull \<Rightarrow> Some None | JStr s \<Rightarrow> Some (Some s) | _ \<Rightarrow> None)"

definition into_int_ptr :: "jtree \<Rightarrow> int option option" where
  "into_int_ptr v = (case v of JNull \<Rightarrow> Some None | JNum n \<Rightarrow> map_option Some (Atoi n) | _ \<Rightarrow> None)"

text \<open>A pointer to a struct: null clears it, anything else is decoded into the old target or a zero value.\<close>

definition into_ptr :: "(jtree \<Rightarrow> 's \<Rightarrow> 's option) \<Rightarrow> 's \<Rightarrow> jtree \<Rightarrow> 's option \<Rightarrow> 's option option" where
  "into_ptr dec zero v old =
     (if v = JNull then Some None
      else map_option Some (dec v (case old of None \<Rightarrow> zero | Some x \<Rightarrow> x)))"

text \<open>
  A slice is its length and the elements of its backing array that were ever written. An array is
  decoded element by element into the backing array, whose old elements are not cleared first.
\<close>

type_synonym 'a gslice = "nat \<times> 'a list"

definition elements :: "'a gslice \<Rightarrow> 'a list" where
  "elements sl = take (fst sl) (snd sl)"

fun into_elements :: "(jtree \<Rightarrow> 'a \<Rightarrow> 'a option) \<Rightarrow> 'a \<Rightarrow> jtree list \<Rightarrow> 'a list \<Rightarrow> 'a list option" where
  "into_elements dec zero [] old = Some old"
| "into_elements dec zero (v # vs) old =
     (case dec v (case old of [] \<Rightarrow> zero | x # _ \<Rightarrow> x) of None \<Rightarrow> None
      | Some x \<Rightarrow> map_option ((#) x) (into_elements dec zero vs (tl old)))"

definition into_slice :: "(jtree \<Rightarrow> 'a \<Rightarrow> 'a option) \<Rightarrow> 'a \<Rightarrow> jtree \<Rightarrow> 'a gslice \<Rightarrow> 'a gslice option" where
  "into_slice dec zero v old =
     (case v of
        JNull \<Rightarrow> Some (0, [])
      | JArr es \<Rightarrow> (if es = [] then Some (0, [])
                   else map_option (Pair (length es)) (into_elements dec zero (map snd es) (snd old)))
      | _ \<Rightarrow> None)"

section \<open>Unmarshalling whole texts\<close>

definition unmarshal_string :: "bytes \<Rightarrow> bytes option" where
  "unmarshal_string b = (case json_unmarshal b of None \<Rightarrow> None | Some v \<Rightarrow> into_string v [])"

text \<open>Into \<open>map[string]json.RawMessage\<close> and \<open>[]json.RawMessage\<close>.\<close>

definition unmarshal_raw_map :: "bytes \<Rightarrow> (bytes \<times> bytes) list option" where
  "unmarshal_raw_map b =
     (case json_unmarshal b of None \<Rightarrow> None
      | Some v \<Rightarrow> (case v of JNull \<Rightarrow> Some []
                   | JObj ms \<Rightarrow> Some (put_all (map (\<lambda>(k, raw, _). (k, raw)) ms))
                   | _ \<Rightarrow> None))"

definition unmarshal_raw_slice :: "bytes \<Rightarrow> bytes list option" where
  "unmarshal_raw_slice b =
     (case json_unmarshal b of None \<Rightarrow> None
      | Some v \<Rightarrow> (case v of JNull \<Rightarrow> Some [] | JArr es \<Rightarrow> Some (map fst es) | _ \<Rightarrow> None))"

section \<open>Raw messages are JSON texts\<close>

text \<open>A raw message is read again as the value it was cut out for.\<close>

definition raw_of :: "nat \<Rightarrow> bytes \<Rightarrow> jtree \<Rightarrow> bool" where
  "raw_of d raw v \<longleftrightarrow> skip_ws raw = raw \<and> (\<forall>D \<ge> d. jvalue D raw = Some (v, []))"

lemma jnumber_hd_not_ws: "is_ws c \<Longrightarrow> jnumber (c # cs) = None"
proof (rule ccontr)
  assume c: "is_ws c" "jnumber (c # cs) \<noteq> None"
  then obtain n t where n: "jnumber (c # cs) = Some (n, t)" by auto
  then have "hd n = c" using jnumber_local(1,2) [OF n] by (cases n) auto
  then show False using jnumber_local(3) [OF n] c(1) by (auto simp: is_ws_def is_digit_def less_eq_char_def)
qed

lemma jvalue_no_ws: "jvalue d s = Some (v, t) \<Longrightarrow> skip_ws s = s"
proof (cases s)
  case (Cons c cs)
  assume "jvalue d s = Some (v, t)"
  then have "\<not> is_ws c" using Cons jnumber_hd_not_ws [of c cs]
    by (auto simp: jvalue_Cons is_ws_def)
  then show ?thesis using Cons by simp
qed (simp add: skip_ws_def)

lemma consumed_raw_of:
  assumes "jvalue d s = Some (v, t)"
  shows "raw_of d (consumed s t) v"
proof -
  obtain x where x: "s = x @ t" "\<forall>d' \<ge> d. \<forall>t'. vstop v t' \<longrightarrow> jvalue d' (x @ t') = Some (v, t')"
    using jvalue_reads [OF assms] unfolding reads_def by blast
  then have "jvalue D x = Some (v, [])" if "d \<le> D" for D
    using that num_stop_vstop [OF num_stop_delim(4)] by (metis append_Nil2)
  with x jvalue_no_ws [of d x v "[]"] show ?thesis by (simp add: raw_of_def)
qed

lemma jelems_raw: "jelems d s = Some (es, t) \<Longrightarrow> list_all (\<lambda>(raw, v). raw_of d raw v) es"
proof (induction "length s" arbitrary: s es rule: less_induct)
  case less
  from less.prems show ?case
    by (subst (asm) jelems.simps)
      (auto split: option.splits if_splits dest!: less.hyps [rotated], (erule consumed_raw_of)+)
qed

lemma jmembers_raw: "jmembers d s = Some (ms, t) \<Longrightarrow> list_all (\<lambda>(k, raw, v). raw_of d raw v) ms"
proof (induction "length s" arbitrary: s ms rule: less_induct)
  case less
  from less.prems show ?case
    by (subst (asm) jmembers.simps)
      (auto split: option.splits if_splits dest!: less.hyps [rotated], (erule consumed_raw_of)+)
qed

lemma raw_of_unmarshal: "raw_of d raw v \<Longrightarrow> d \<le> maxNestingDepth \<Longrightarrow> json_unmarshal raw = Some v \<and> json_decode raw = Some v"
  by (simp add: raw_of_def json_unmarshal_def json_decode_def skip_ws_def [of "[]"])

lemma unmarshal_raw:
  assumes "json_unmarshal b = Some v"
  shows "v = JArr es \<Longrightarrow> list_all (\<lambda>(raw, w). json_unmarshal raw = Some w \<and> json_decode raw = Some w) es"
    and "v = JObj ms \<Longrightarrow> list_all (\<lambda>(k, raw, w). json_unmarshal raw = Some w \<and> json_decode raw = Some w) ms"
proof -
  obtain t where t: "jvalue maxNestingDepth (skip_ws b) = Some (v, t)"
    using assms by (auto simp: json_unmarshal_def split: option.splits if_splits)
  have up: "raw_of (maxNestingDepth - Suc 0) raw w \<Longrightarrow> json_unmarshal raw = Some w \<and> json_decode raw = Some w" for raw w
    using raw_of_unmarshal by simp
  show "list_all (\<lambda>(raw, w). json_unmarshal raw = Some w \<and> json_decode raw = Some w) es" if "v = JArr es"
    using t by (cases rule: jvalue_cases) (use that in \<open>fastforce dest!: jelems_raw simp: list_all_iff dest: up\<close>)+
  show "list_all (\<lambda>(k, raw, w). json_unmarshal raw = Some w \<and> json_decode raw = Some w) ms" if "v = JObj ms"
    using t by (cases rule: jvalue_cases) (use that in \<open>fastforce dest!: jmembers_raw simp: list_all_iff dest: up\<close>)+
qed

section \<open>Decoded strings are valid UTF-8\<close>

fun jvalid :: "jtree \<Rightarrow> bool" where
  "jvalid (JStr s) = valid_utf8 s"
| "jvalid (JArr es) = list_all (\<lambda>(raw, v). jvalid v) es"
| "jvalid (JObj ms) = list_all (\<lambda>(k, raw, v). jvalid v) ms"
| "jvalid v = True"

lemma jvalue_jvalid: "jvalue d s = Some (v, t) \<Longrightarrow> jvalid v"
  and jelems_jvalid: "jelems d s = Some (es, t) \<Longrightarrow> list_all (\<lambda>(raw, v). jvalid v) es"
  and jmembers_jvalid: "jmembers d s = Some (ms, t) \<Longrightarrow> list_all (\<lambda>(k, raw, v). jvalid v) ms"
proof (induction d s and d s and d s arbitrary: v t and es t and ms t rule: jvalue_jelems_jmembers.induct)
  case (1 d s)
  from "1.prems" show ?case
  proof (cases rule: jvalue_cases)
    case (obj c cs ms)
    then show ?thesis using "1.IH"(1) by simp
  next
    case (arr c cs es)
    then show ?thesis using "1.IH"(2) by simp
  qed (auto simp: jstr_valid)
next
  case (2 d s)
  from "2.prems" "2.IH" show ?case
    by (subst (asm) (1) jelems.simps) (auto split: option.splits if_splits)
next
  case (3 d s)
  from "3.prems" "3.IH" show ?case
    by (subst (asm) (1) jmembers.simps) (auto split: option.splits if_splits)
qed

lemma unmarshal_jvalid: "json_unmarshal b = Some v \<Longrightarrow> jvalid v"
  by (auto simp: json_unmarshal_def dest!: jvalue_jvalid split: option.splits if_splits)

text \<open>Invariants carried through the typed decoders.\<close>

lemma put_members_inv:
  assumes "put_members names put ms st = Some st'" "list_all (\<lambda>(k, raw, v). jvalid v) ms" "P st"
    and "\<And>n raw v st st'. jvalid v \<Longrightarrow> P st \<Longrightarrow> put n raw v st = Some st' \<Longrightarrow> P st'"
  shows "P st'"
  using assms(1-3)
proof (induction ms arbitrary: st)
  case (Cons m ms)
  obtain k raw v where "m = (k, raw, v)" by (cases m)
  with Cons assms(4) [of v st] show ?case by (fastforce split: option.splits)
qed simp

lemma into_struct_inv:
  assumes "into_struct names put v st = Some st'" "jvalid v" "P st"
    and "\<And>n raw v st st'. jvalid v \<Longrightarrow> P st \<Longrightarrow> put n raw v st = Some st' \<Longrightarrow> P st'"
  shows "P st'"
proof (cases v)
  case (JObj ms)
  with assms(1,2) have "put_members names put ms st = Some st'" "list_all (\<lambda>(k, raw, v). jvalid v) ms"
    by (simp_all add: into_struct_def)
  from put_members_inv [where P = P, OF this assms(3,4)] show ?thesis .
qed (use assms in \<open>auto simp: into_struct_def\<close>)

lemma into_elements_inv:
  assumes "into_elements dec zero vs old = Some new" "list_all jvalid vs" "list_all P old" "P zero"
    and "\<And>v x y. jvalid v \<Longrightarrow> P x \<Longrightarrow> dec v x = Some y \<Longrightarrow> P y"
  shows "list_all P new"
  using assms(1-3)
proof (induction vs arbitrary: old new)
  case (Cons v vs)
  have "P (case old of [] \<Rightarrow> zero | x # _ \<Rightarrow> x)" "list_all P (tl old)"
    using Cons.prems(3) assms(4) by (cases old; simp)+
  with Cons assms(5) [of v] show ?case by (fastforce split: option.splits)
qed simp

lemma into_slice_inv:
  assumes "into_slice dec zero v old = Some new" "jvalid v" "list_all P (snd old)" "P zero"
    and "\<And>v x y. jvalid v \<Longrightarrow> P x \<Longrightarrow> dec v x = Some y \<Longrightarrow> P y"
  shows "list_all P (snd new)"
proof (cases v)
  case (JArr es)
  then have "list_all jvalid (map snd es)" using assms(2) by (simp add: list_all_iff case_prod_beta)
  with JArr assms show ?thesis
    by (auto simp: into_slice_def split: if_splits intro: into_elements_inv [of dec zero "map snd es" "snd old" _ P])
qed (use assms in \<open>auto simp: into_slice_def\<close>)

lemma into_ptr_inv:
  assumes "into_ptr dec zero v old = Some new" "jvalid v" "pred_option P old" "P zero"
    and "\<And>v x y. jvalid v \<Longrightarrow> P x \<Longrightarrow> dec v x = Some y \<Longrightarrow> P y"
  shows "pred_option P new"
proof -
  have "P (case old of None \<Rightarrow> zero | Some x \<Rightarrow> x)" using assms(3,4) by (auto split: option.splits)
  then show ?thesis using assms(1,2,5) by (auto simp: into_ptr_def split: if_splits)
qed

lemma into_scalar_valid:
  "into_string v old = Some s \<Longrightarrow> jvalid v \<Longrightarrow> valid_utf8 old \<Longrightarrow> valid_utf8 s"
  "into_string_ptr v = Some p \<Longrightarrow> jvalid v \<Longrightarrow> pred_option valid_utf8 p"
  by (auto simp: into_string_def into_string_ptr_def split: jtree.splits)

lemma elements_inv: "list_all P (snd sl) \<Longrightarrow> list_all P (elements sl)"
  by (auto simp: elements_def list_all_iff dest: in_set_takeD)

end
