(* ===== verification/MetricsModel.thy ===== *)
theory MetricsModel
  imports Prelude
begin

text \<open>
  Package \<open>internal/metrics\<close> (metrics.go). A counter is its value; a counter with a label is an
  association list from label values; a histogram of sizes is the list of observed values, latest
  first. Histograms of durations only depend on the clock, so they are represented by the number
  of observations. The Prometheus registry itself is third-party code: \<open>New\<close> builds a list of
  descriptors and hands it to a registry that is an argument.
\<close>

type_synonym counter_vec = "(bytes \<times> nat) list"

record Metrics =
  Requests :: counter_vec
  SessionResolveHit :: nat
  SessionResolveMiss :: nat
  SessionClientSupplied :: nat
  SessionStoreError :: counter_vec
  StreamCompleted :: nat
  StreamAborted :: nat
  PageFlushSuccess :: nat
  PageFlushError :: nat
  FinalizeSuccess :: nat
  FinalizeError :: nat
  SessionMappingCreated :: nat
  SessionMappingError :: nat
  StreamDuration :: nat
  ResponseBytes :: "nat list"
  PageCount :: "nat list"
  RedisLatency :: counter_vec
  FinalizeDuration :: nat

definition New :: Metrics where
  "New =
     \<lparr>Requests = [], SessionResolveHit = 0, SessionResolveMiss = 0, SessionClientSupplied = 0,
      SessionStoreError = [], StreamCompleted = 0, StreamAborted = 0, PageFlushSuccess = 0,
      PageFlushError = 0, FinalizeSuccess = 0, FinalizeError = 0, SessionMappingCreated = 0,
      SessionMappingError = 0, StreamDuration = 0, ResponseBytes = [], PageCount = [],
      RedisLatency = [], FinalizeDuration = 0\<rparr>"

text \<open>
  What \<open>New\<close> builds and hands to the registry, in the order of \<open>MustRegister\<close>: name, label names and,
  for a histogram, the bucket bounds in units of 1/10000. Help texts are not kept.
\<close>

datatype metric_kind = CounterKind | HistogramKind "int list"

record descriptor =
  d_name :: bytes
  d_labels :: "bytes list"
  d_kind :: metric_kind

definition unlabelled_counter :: "bytes \<Rightarrow> descriptor" where
  "unlabelled_counter n = \<lparr>d_name = n, d_labels = [], d_kind = CounterKind\<rparr>"

definition descriptors :: "descriptor list" where
  "descriptors =
     [\<lparr>d_name = ''opgate_requests_total'', d_labels = [''kind''], d_kind = CounterKind\<rparr>,
      unlabelled_counter ''opgate_session_resolve_hit_total'', unlabelled_counter ''opgate_session_resolve_miss_total'',
      unlabelled_counter ''opgate_session_client_supplied_total'',
      \<lparr>d_name = ''opgate_session_store_error_total'', d_labels = [''op''], d_kind = CounterKind\<rparr>,
      unlabelled_counter ''opgate_stream_completed_total'', unlabelled_counter ''opgate_stream_aborted_total'',
      unlabelled_counter ''opgate_page_flush_success_total'', unlabelled_counter ''opgate_page_flush_error_total'',
      unlabelled_counter ''opgate_finalize_success_total'', unlabelled_counter ''opgate_finalize_error_total'',
      unlabelled_counter ''opgate_session_mapping_created_total'', unlabelled_counter ''opgate_session_mapping_error_total'',
      \<lparr>d_name = ''opgate_stream_duration_seconds'', d_labels = [],
       d_kind = HistogramKind [1000, 5000, 10000, 20000, 50000, 100000, 300000, 600000, 1200000, 3000000, 6000000, 18000000, 36000000]\<rparr>,
      \<lparr>d_name = ''opgate_response_bytes'', d_labels = [],
       d_kind = HistogramKind (map ((*) 10000) [10^4, 10^5, 10^6, 4 * 10^6, 10^7, 5 * 10^7, 10^8, 5 * 10^8, 10^9])\<rparr>,
      \<lparr>d_name = ''opgate_page_count'', d_labels = [],
       d_kind = HistogramKind (map ((*) 10000) [1, 2, 4, 8, 16, 32, 64, 128, 256, 512, 1024, 4096])\<rparr>,
      \<lparr>d_name = ''opgate_redis_latency_seconds'', d_labels = [''op''],
       d_kind = HistogramKind [5, 10, 25, 50, 100, 250, 500, 1000, 2500, 5000, 10000, 25000, 50000]\<rparr>,
      \<lparr>d_name = ''opgate_finalize_duration_seconds'', d_labels = [],
       d_kind = HistogramKind [50, 100, 500, 1000, 2500, 5000, 10000, 25000, 50000, 100000, 300000, 600000]\<rparr>]"

text \<open>
  The registry is code of the Prometheus library: registering one metric is the argument \<open>register\<close>, and its
  documented \<open>MustRegister\<close> registers one metric after the other and panics (\<open>None\<close>) on the first failure.
\<close>

fun MustRegister :: "(descriptor \<Rightarrow> 'r \<Rightarrow> 'r option) \<Rightarrow> descriptor list \<Rightarrow> 'r \<Rightarrow> 'r option" where
  "MustRegister register [] r = Some r"
| "MustRegister register (d # ds) r = (case register d r of None \<Rightarrow> None | Some r' \<Rightarrow> MustRegister register ds r')"

text \<open>The documented rules for names, labels and buckets.\<close>

definition name_char :: "byte \<Rightarrow> bool" where
  "name_char c \<longleftrightarrow> c = CHR ''_'' \<or> (CHR ''a'' \<le> c \<and> c \<le> CHR ''z'') \<or> (CHR ''A'' \<le> c \<and> c \<le> CHR ''Z'')"

definition valid_name :: "bytes \<Rightarrow> bool" where
  "valid_name n \<longleftrightarrow> n \<noteq> [] \<and> name_char (hd n) \<and> list_all (\<lambda>c. name_char c \<or> (CHR ''0'' \<le> c \<and> c \<le> CHR ''9'')) n"

fun increasing :: "int list \<Rightarrow> bool" where
  "increasing (x # y # zs) = (x < y \<and> increasing (y # zs))"
| "increasing _ = True"

definition valid_descriptor :: "descriptor \<Rightarrow> bool" where
  "valid_descriptor d \<longleftrightarrow> valid_name (d_name d) \<and> list_all (\<lambda>l. valid_name l \<and> take 2 l \<noteq> ''__'' \<and> l \<noteq> ''le'') (d_labels d) \<and>
     distinct (d_labels d) \<and> (case d_kind d of CounterKind \<Rightarrow> True | HistogramKind bs \<Rightarrow> increasing bs)"

text \<open>\<open>WithLabelValues(l).Inc()\<close>.\<close>

definition inc_label :: "bytes \<Rightarrow> counter_vec \<Rightarrow> counter_vec" where
  "inc_label l cv = AList.update l (Suc (case map_of cv l of None \<Rightarrow> 0 | Some n \<Rightarrow> n)) cv"

definition label_value :: "counter_vec \<Rightarrow> bytes \<Rightarrow> nat" where
  "label_value cv l = (case map_of cv l of None \<Rightarrow> 0 | Some n \<Rightarrow> n)"

definition SessionStoreErrorInc :: "bytes \<Rightarrow> Metrics \<Rightarrow> Metrics" where
  "SessionStoreErrorInc op m = m\<lparr>SessionStoreError := inc_label op (SessionStoreError m)\<rparr>"

lemma label_value_inc [simp]: "label_value (inc_label l cv) k = (if k = l then Suc (label_value cv l) else label_value cv k)"
  by (simp add: label_value_def inc_label_def update_conv' split: option.splits)

lemma MustRegister_distinct:
  assumes "\<And>d r. valid_descriptor d \<Longrightarrow> d_name d \<notin> known r \<Longrightarrow> \<exists>r'. register d r = Some r' \<and> known r' = insert (d_name d) (known r)"
    and "list_all valid_descriptor ds" "distinct (map d_name ds)" "set (map d_name ds) \<inter> known r = {}"
  shows "\<exists>r'. MustRegister register ds r = Some r' \<and> known r' = set (map d_name ds) \<union> known r"
  using assms(2-4)
proof (induction ds arbitrary: r)
  case (Cons d ds)
  then obtain r1 where r1: "register d r = Some r1" "known r1 = insert (d_name d) (known r)" using assms(1) [of d r] by auto
  have "set (map d_name ds) \<inter> known r1 = {}" using Cons.prems r1(2) by auto
  then show ?case using Cons.IH [of r1] Cons.prems r1 by auto
qed simp

section \<open>Properties\<close>

text \<open>
  C36. Building the metrics never panics: with any registry that accepts a well-formed metric under
  a name it does not hold yet, all eighteen metrics are registered, each under its own name.
\<close>

theorem New_registers:
  assumes "\<And>d r. valid_descriptor d \<Longrightarrow> d_name d \<notin> known r \<Longrightarrow> \<exists>r'. register d r = Some r' \<and> known r' = insert (d_name d) (known r)"
    and "known r0 = {}"
  shows "\<exists>r. MustRegister register descriptors r0 = Some r \<and> known r = set (map d_name descriptors) \<and> card (known r) = 18"
proof -
  have v: "list_all valid_descriptor descriptors" by code_simp
  have d: "distinct (map d_name descriptors)" "length descriptors = 18" by code_simp+
  from distinct_card [OF d(1)] d(2) have "card (set (map d_name descriptors)) = 18" by simp
  then show ?thesis using MustRegister_distinct [OF assms(1) v d(1), of r0] assms(2) by auto
qed

theorem New_registers_witness:
  "\<exists>r. MustRegister (\<lambda>d r. if valid_descriptor d \<and> d_name d \<notin> set r then Some (d_name d # r) else None) descriptors [] = Some r \<and>
    set r = set (map d_name descriptors) \<and> card (set r) = 18"
  by (rule New_registers [where known = set]) auto

end
