(* ===== verification/Store.thy ===== *)
theory Store
  imports Decode MetricsModel
begin

text \<open>
  Package \<open>internal/store\<close>: the two storage interfaces (store.go) and their Redis implementation
  (redis.go). An operation threads the metrics and the state of the store and returns an error or a
  value. The go-redis client is third-party code: it is the parameter \<open>c\<close> of the model's
  operations, a record of the commands the store issues, and the documented behaviour of these
  commands is the locale \<open>redis_client\<close>. From it alone both interface contracts
  (\<open>session_store\<close>, \<open>temp_page_store\<close>) are derived for the operations of redis.go.
\<close>

section \<open>store.go: the interfaces\<close>

type_synonym store_error = bytes
type_synonym ('s, 'a) op = "Metrics \<times> 's \<Rightarrow> (store_error + 'a) \<times> Metrics \<times> 's"

text \<open>\<open>GetSession\<close> returns \<open>None\<close> for \<open>found\<close> false. A duration is an \<open>int\<close> (nanoseconds).\<close>

record 's SessionStore =
  ss_GetSession :: "bytes \<Rightarrow> bytes \<Rightarrow> ('s, bytes option) op"
  ss_PutSession :: "bytes \<Rightarrow> bytes \<Rightarrow> bytes \<Rightarrow> int \<Rightarrow> ('s, unit) op"

record 's TempPageStore =
  ps_PutPage :: "bytes \<Rightarrow> int \<Rightarrow> bytes \<Rightarrow> int \<Rightarrow> ('s, unit) op"
  ps_GetPages :: "bytes \<Rightarrow> ('s, (int \<times> bytes) list) op"
  ps_DeletePages :: "bytes \<Rightarrow> ('s, unit) op"

section \<open>redis.go: keys\<close>

definition KeyVersion :: bytes where "KeyVersion = ''oc:v1''"

definition SessionKey :: "bytes \<Rightarrow> bytes \<Rightarrow> bytes" where
  "SessionKey clientHash stateHash = KeyVersion @ '':session:'' @ clientHash @ '':'' @ stateHash"

definition TempKey :: "bytes \<Rightarrow> bytes" where
  "TempKey requestID = KeyVersion @ '':tmp:'' @ requestID"

text \<open>The format %06d: at least six characters, a minus sign included, filled with zeros.\<close>

fun nat_dec :: "nat \<Rightarrow> bytes" where
  "nat_dec n = (if n < 10 then [char_of (48 + n)] else nat_dec (n div 10) @ [char_of (48 + n mod 10)])"

declare nat_dec.simps [simp del]

definition zero_pad :: "nat \<Rightarrow> bytes \<Rightarrow> bytes" where
  "zero_pad w ds = replicate (w - length ds) (CHR ''0'') @ ds"

definition PageField :: "int \<Rightarrow> bytes" where
  "PageField seq =
     (if seq < 0 then CHR ''-'' # zero_pad 5 (nat_dec (nat (- seq))) else zero_pad 6 (nat_dec (nat seq)))"

section \<open>redis.go: the client and the store\<close>

datatype redis_error = RedisNil | RedisFailure bytes

datatype redis_cmd = HSet bytes bytes bytes | Expire bytes int

text \<open>The commands of the go-redis client that the store uses; \<open>rd_Exec\<close> runs a pipeline.\<close>

record 'd redis =
  rd_Get :: "bytes \<Rightarrow> 'd \<Rightarrow> (redis_error + bytes) \<times> 'd"
  rd_Set :: "bytes \<Rightarrow> bytes \<Rightarrow> int \<Rightarrow> 'd \<Rightarrow> (redis_error + unit) \<times> 'd"
  rd_Exec :: "redis_cmd list \<Rightarrow> 'd \<Rightarrow> (redis_error + unit) \<times> 'd"
  rd_HGetAll :: "bytes \<Rightarrow> 'd \<Rightarrow> (redis_error + (bytes \<times> bytes) list) \<times> 'd"
  rd_Del :: "bytes \<Rightarrow> 'd \<Rightarrow> (redis_error + unit) \<times> 'd"
  rd_Ping :: "'d \<Rightarrow> (redis_error + unit) \<times> 'd"
  rd_Close :: "'d \<Rightarrow> (redis_error + unit) \<times> 'd"

text \<open>
  The store holds its client and the timeout of one operation; a call that runs into the timeout is
  a call that fails. The metrics it counts in are threaded through the operations. Making a client
  from its options (\<open>redis.NewClient\<close>) is the argument \<open>NewClient\<close>.
\<close>

record redis_Options =
  opt_Addr :: bytes
  opt_DB :: int
  DialTimeout :: int
  ReadTimeout :: int
  WriteTimeout :: int

record 'd RedisStore =
  rdb :: "'d redis"
  rs_timeout :: int

definition NewRedisStore :: "(redis_Options \<Rightarrow> 'd redis) \<Rightarrow> bytes \<Rightarrow> int \<Rightarrow> int \<Rightarrow> 'd RedisStore" where
  "NewRedisStore NewClient addr db timeout =
     \<lparr>rdb = NewClient \<lparr>opt_Addr = addr, opt_DB = db, DialTimeout = timeout, ReadTimeout = timeout, WriteTimeout = timeout\<rparr>,
      rs_timeout = timeout\<rparr>"

definition error_text :: "redis_error \<Rightarrow> store_error" where
  "error_text e = (case e of RedisNil \<Rightarrow> ''redis: nil'' | RedisFailure t \<Rightarrow> t)"

definition observe :: "bytes \<Rightarrow> (redis_error + 'a) \<Rightarrow> Metrics \<Rightarrow> Metrics" where
  "observe op r m =
     (let m1 = m\<lparr>RedisLatency := inc_label op (RedisLatency m)\<rparr> in
      case r of Inl (RedisFailure t) \<Rightarrow> SessionStoreErrorInc op m1 | _ \<Rightarrow> m1)"

text \<open>An operation that returns the client's error as it is.\<close>

definition plain_result :: "(redis_error + 'a) \<Rightarrow> store_error + 'a" where
  "plain_result r = (case r of Inl e \<Rightarrow> Inl (error_text e) | Inr x \<Rightarrow> Inr x)"

definition Ping :: "'d RedisStore \<Rightarrow> 'd \<Rightarrow> (store_error + unit) \<times> 'd" where
  "Ping rs d = apfst plain_result (rd_Ping (rdb rs) d)"

definition RedisStore_Close :: "'d RedisStore \<Rightarrow> 'd \<Rightarrow> (store_error + unit) \<times> 'd" where
  "RedisStore_Close rs d = apfst plain_result (rd_Close (rdb rs) d)"

definition GetSession :: "'d redis \<Rightarrow> bytes \<Rightarrow> bytes \<Rightarrow> ('d, bytes option) op" where
  "GetSession c clientHash stateHash w =
     (case w of (m, d) \<Rightarrow> case rd_Get c (SessionKey clientHash stateHash) d of (r, d') \<Rightarrow>
        (case r of
           Inl RedisNil \<Rightarrow> Inr None
         | Inl e \<Rightarrow> Inl (error_text e)
         | Inr val \<Rightarrow> Inr (Some val), observe ''session_get'' r m, d'))"

definition PutSession :: "'d redis \<Rightarrow> bytes \<Rightarrow> bytes \<Rightarrow> bytes \<Rightarrow> int \<Rightarrow> ('d, unit) op" where
  "PutSession c clientHash stateHash sessionID ttl w =
     (case w of (m, d) \<Rightarrow> case rd_Set c (SessionKey clientHash stateHash) sessionID ttl d of (r, d') \<Rightarrow>
        (plain_result r, observe ''session_put'' r m, d'))"

definition PutPage :: "'d redis \<Rightarrow> bytes \<Rightarrow> int \<Rightarrow> bytes \<Rightarrow> int \<Rightarrow> ('d, unit) op" where
  "PutPage c requestID seq data ttl w =
     (case w of (m, d) \<Rightarrow>
        let key = TempKey requestID;
            pipe = [HSet key (PageField seq) data, Expire key ttl]
        in case rd_Exec c pipe d of (r, d') \<Rightarrow> (plain_result r, observe ''page_put'' r m, d'))"

text \<open>The loop over the fields of the hash; a field that is no number is skipped.\<close>

definition add_page :: "bytes \<times> bytes \<Rightarrow> (int \<times> bytes) list \<Rightarrow> (int \<times> bytes) list" where
  "add_page fv out = (case Atoi (fst fv) of None \<Rightarrow> out | Some seq \<Rightarrow> AList.update seq (snd fv) out)"

definition GetPages :: "'d redis \<Rightarrow> bytes \<Rightarrow> ('d, (int \<times> bytes) list) op" where
  "GetPages c requestID w =
     (case w of (m, d) \<Rightarrow> case rd_HGetAll c (TempKey requestID) d of (r, d') \<Rightarrow>
        (case r of Inl e \<Rightarrow> Inl (error_text e) | Inr vals \<Rightarrow> Inr (fold add_page vals []),
         observe ''page_get'' r m, d'))"

definition DeletePages :: "'d redis \<Rightarrow> bytes \<Rightarrow> ('d, unit) op" where
  "DeletePages c requestID w =
     (case w of (m, d) \<Rightarrow> case rd_Del c (TempKey requestID) d of (r, d') \<Rightarrow>
        (plain_result r, observe ''page_del'' r m, d'))"

text \<open>\<open>*RedisStore\<close> as a value of the two interface types.\<close>

definition redis_sessions :: "'d redis \<Rightarrow> 'd SessionStore" where
  "redis_sessions c = \<lparr>ss_GetSession = GetSession c, ss_PutSession = PutSession c\<rparr>"

definition redis_pages :: "'d redis \<Rightarrow> 'd TempPageStore" where
  "redis_pages c = \<lparr>ps_PutPage = PutPage c, ps_GetPages = GetPages c, ps_DeletePages = DeletePages c\<rparr>"

section \<open>Contracts of the interfaces\<close>

text \<open>
  What a session store promises its clients, over the mapping it holds: a lookup that does not fail
  returns what the mapping holds and changes nothing, a write that succeeds adds one entry, and a
  write that fails adds this entry or nothing.
\<close>

locale session_store =
  fixes S :: "'s SessionStore"
    and mapping :: "'s \<Rightarrow> bytes \<times> bytes \<Rightarrow> bytes option"
    and okey :: "bytes \<Rightarrow> bool"
  assumes get_result: "ss_GetSession S ch sh (m, s) = (Inr v, m', s') \<Longrightarrow> okey ch \<Longrightarrow> v = mapping s (ch, sh)"
    and get_keeps: "ss_GetSession S ch sh (m, s) = (r, m', s') \<Longrightarrow> mapping s' = mapping s"
    and put_ok: "ss_PutSession S ch sh x ttl (m, s) = (Inr (), m', s') \<Longrightarrow> okey ch \<Longrightarrow> okey ch' \<Longrightarrow>
      mapping s' (ch', sh') = (if (ch', sh') = (ch, sh) then Some x else mapping s (ch', sh'))"
    and put_fail: "ss_PutSession S ch sh x ttl (m, s) = (Inl e, m', s') \<Longrightarrow> okey ch \<Longrightarrow> okey ch' \<Longrightarrow>
      mapping s' (ch', sh') \<in> {mapping s (ch', sh'), if (ch', sh') = (ch, sh) then Some x else mapping s (ch', sh')}"
begin

lemma get_after_put:
  assumes "ss_PutSession S ch sh x ttl (m, s) = (Inr (), m1, s1)"
    and "ss_GetSession S ch' sh' (m2, s1) = (Inr v, m3, s3)" "okey ch" "okey ch'"
  shows "v = (if (ch', sh') = (ch, sh) then Some x else mapping s (ch', sh'))"
  using get_result [OF assms(2,4)] put_ok [OF assms(1,3,4), of sh'] by simp

end

text \<open>
  The same for pages, over the pages it holds for each request. \<open>inv\<close> is the invariant of the
  store's representation, which every operation keeps.
\<close>

locale temp_page_store =
  fixes P :: "'s TempPageStore"
    and inv :: "'s \<Rightarrow> bool"
    and pages :: "'s \<Rightarrow> bytes \<Rightarrow> int \<Rightarrow> bytes option"
  assumes put_page_inv: "inv s \<Longrightarrow> in_int64 n \<Longrightarrow> ps_PutPage P rid n b ttl (m, s) = (r, m', s') \<Longrightarrow> inv s'"
    and put_page_ok: "inv s \<Longrightarrow> in_int64 n \<Longrightarrow> ps_PutPage P rid n b ttl (m, s) = (Inr (), m', s') \<Longrightarrow>
      pages s' = (pages s)(rid := (pages s rid)(n \<mapsto> b))"
    and put_page_fail: "inv s \<Longrightarrow> in_int64 n \<Longrightarrow> ps_PutPage P rid n b ttl (m, s) = (Inl e, m', s') \<Longrightarrow>
      pages s' = pages s \<or> pages s' = (pages s)(rid := (pages s rid)(n \<mapsto> b))"
    and get_pages_result: "inv s \<Longrightarrow> ps_GetPages P rid (m, s) = (Inr ps, m', s') \<Longrightarrow>
      map_of ps = pages s rid \<and> distinct (map fst ps)"
    and get_pages_keeps: "inv s \<Longrightarrow> ps_GetPages P rid (m, s) = (rg, m', s') \<Longrightarrow> inv s' \<and> pages s' = pages s"
    and delete_inv: "inv s \<Longrightarrow> ps_DeletePages P rid (m, s) = (r, m', s') \<Longrightarrow> inv s'"
    and delete_ok: "inv s \<Longrightarrow> ps_DeletePages P rid (m, s) = (Inr (), m', s') \<Longrightarrow>
      pages s' = (pages s)(rid := Map.empty)"
    and delete_fail: "inv s \<Longrightarrow> ps_DeletePages P rid (m, s) = (Inl e, m', s') \<Longrightarrow>
      pages s' = pages s \<or> pages s' = (pages s)(rid := Map.empty)"
begin

text \<open>No operation on one request's pages touches another request's pages.\<close>

lemma put_page_other:
  assumes "inv s" "in_int64 n" "ps_PutPage P rid n b ttl (m, s) = (r, m', s')" "rid' \<noteq> rid"
  shows "pages s' rid' = pages s rid'"
  using assms put_page_ok [OF assms(1,2)] put_page_fail [OF assms(1,2)] by (cases r) fastforce+

lemma delete_other:
  assumes "inv s" "ps_DeletePages P rid (m, s) = (r, m', s')" "rid' \<noteq> rid"
  shows "pages s' rid' = pages s rid'"
  using assms delete_ok [OF assms(1)] delete_fail [OF assms(1)] by (cases r) fastforce+

end

text \<open>
  One store for both: the operations on sessions leave the pages alone. This is what the
  gateway, which keeps sessions and pages in the same Redis database, relies on.
\<close>

locale gateway_store =
  sessions: session_store S mapping okey + temp: temp_page_store P inv pages
  for S :: "'s SessionStore" and mapping okey and P :: "'s TempPageStore" and inv pages +
  assumes get_session_pages: "inv s \<Longrightarrow> ss_GetSession S ch sh (m, s) = (rs, m', s') \<Longrightarrow> inv s' \<and> pages s' = pages s"
    and put_session_pages: "inv s \<Longrightarrow> ss_PutSession S ch sh x ttl (m, s) = (rp, m', s') \<Longrightarrow> inv s' \<and> pages s' = pages s"

text \<open>And the pages leave the mappings alone, so that who wrote a mapping can be traced.\<close>

locale shared_store = gateway_store S mapping okey P inv pages
  for S :: "'s SessionStore" and mapping okey and P :: "'s TempPageStore" and inv pages +
  assumes put_page_mapping: "ps_PutPage P rid n b ttl (m, s) = (rp, m', s') \<Longrightarrow> mapping s' = mapping s"
    and get_pages_mapping: "ps_GetPages P rid (m, s) = (rg, m', s') \<Longrightarrow> mapping s' = mapping s"
    and delete_mapping: "ps_DeletePages P rid (m, s) = (rd, m', s') \<Longrightarrow> mapping s' = mapping s"

section \<open>Keys and fields\<close>

lemma digit_of:
  assumes "n < 10"
  shows "is_digit (char_of (48 + n :: nat))" "of_char (char_of (48 + n :: nat) :: char) = 48 + int n"
  using assms of_nat_of_char [of "char_of (48 + n) :: char", where 'a = int]
  by (simp_all add: is_digit_def less_eq_char_def)

lemma dec_val_append: "dec_val (xs @ [c]) = dec_val xs * 10 + (of_char c - 48)"
  by (simp add: dec_val_def)

lemma nat_dec_digits: "list_all is_digit (nat_dec n) \<and> nat_dec n \<noteq> [] \<and> dec_val (nat_dec n) = int n"
proof (induction n rule: nat_dec.induct)
  case (1 n)
  show ?case
  proof (cases "n < 10")
    case True
    then show ?thesis by (subst (1 2 3) nat_dec.simps) (simp add: digit_of dec_val_def)
  next
    case False
    have "int (n div 10) * 10 + int (n mod 10) = int n" by presburger
    then show ?thesis using 1 False
      by (subst (1 2 3) nat_dec.simps) (simp add: digit_of dec_val_append)
  qed
qed

lemma zero_pad_digits:
  "list_all is_digit ds \<Longrightarrow> ds \<noteq> [] \<Longrightarrow> list_all is_digit (zero_pad w ds) \<and> zero_pad w ds \<noteq> [] \<and> dec_val (zero_pad w ds) = dec_val ds"
proof -
  have "dec_val (replicate k (CHR ''0'') @ ds) = dec_val ds" for k
    by (induction k) (simp_all add: dec_val_def)
  then show "list_all is_digit ds \<Longrightarrow> ds \<noteq> [] \<Longrightarrow> ?thesis" by (auto simp: zero_pad_def list_all_iff not_digit)
qed

lemma split_sign_digits: "list_all is_digit ds \<Longrightarrow> split_sign ds = (False, ds)"
  by (cases ds) (auto simp: not_digit)

lemma Atoi_PageField: "in_int64 n \<Longrightarrow> Atoi (PageField n) = Some n"
  using zero_pad_digits [of "nat_dec (nat (- n))" 5] zero_pad_digits [of "nat_dec (nat n)" 6]
    nat_dec_digits [of "nat n"] nat_dec_digits [of "nat (- n)"]
  by (auto simp: PageField_def Atoi_def split_sign_digits)

lemma colon_split: "CHR '':'' \<notin> set a \<Longrightarrow> CHR '':'' \<notin> set b \<Longrightarrow> a @ CHR '':'' # x = b @ CHR '':'' # y \<longleftrightarrow> a = b \<and> x = y"
proof (induction a arbitrary: b)
  case Nil
  then show ?case by (cases b) auto
next
  case (Cons c a)
  then show ?case by (cases b) auto
qed

lemma SessionKey_inject:
  "CHR '':'' \<notin> set ch \<Longrightarrow> CHR '':'' \<notin> set ch' \<Longrightarrow> SessionKey ch sh = SessionKey ch' sh' \<longleftrightarrow> ch = ch' \<and> sh = sh'"
  by (simp add: SessionKey_def colon_split)

lemma TempKey_inject [simp]: "TempKey a = TempKey b \<longleftrightarrow> a = b"
  by (simp add: TempKey_def)

lemma keys_disjoint [simp]: "SessionKey ch sh \<noteq> TempKey rid" "TempKey rid \<noteq> SessionKey ch sh"
  by (simp_all add: SessionKey_def TempKey_def)

section \<open>The Redis implementation keeps the contracts\<close>

text \<open>
  The documented behaviour of the commands, over the string values and the hashes the
  database holds. A command that fails (a timeout, say) may have been carried out or not, and of a
  pipeline that fails any first part may have been carried out.
\<close>

definition run_cmd :: "redis_cmd \<Rightarrow> (bytes \<Rightarrow> bytes \<Rightarrow> bytes option) \<Rightarrow> (bytes \<Rightarrow> bytes \<Rightarrow> bytes option)" where
  "run_cmd cmd h = (case cmd of HSet k f v \<Rightarrow> h(k := (h k)(f \<mapsto> v)) | Expire k ttl \<Rightarrow> h)"

locale redis_client =
  fixes c :: "'d redis"
    and strs :: "'d \<Rightarrow> bytes \<Rightarrow> bytes option"
    and hashes :: "'d \<Rightarrow> bytes \<Rightarrow> bytes \<Rightarrow> bytes option"
  assumes rd_get: "rd_Get c k d = (rg, d') \<Longrightarrow> strs d' = strs d \<and> hashes d' = hashes d \<and>
      (rg = Inl RedisNil \<longrightarrow> strs d k = None) \<and> (\<forall>v. rg = Inr v \<longrightarrow> strs d k = Some v)"
    and rd_set: "rd_Set c k v ttl d = (r, d') \<Longrightarrow> strs d' = (strs d)(k \<mapsto> v) \<or> (r \<noteq> Inr () \<and> strs d' = strs d)"
    and rd_set_other: "rd_Set c k v ttl d = (r, d') \<Longrightarrow> k' \<noteq> k \<Longrightarrow> hashes d' k' = hashes d k'"
    and rd_exec: "rd_Exec c cmds d = (r, d') \<Longrightarrow> strs d' = strs d \<and>
      (\<exists>k. hashes d' = fold run_cmd (take k cmds) (hashes d) \<and> (r = Inr () \<longrightarrow> length cmds \<le> k))"
    and rd_hgetall: "rd_HGetAll c k d = (rh, d') \<Longrightarrow> strs d' = strs d \<and> hashes d' = hashes d \<and>
      (\<forall>vals. rh = Inr vals \<longrightarrow> map_of vals = hashes d k \<and> distinct (map fst vals))"
    and rd_del: "rd_Del c k d = (r, d') \<Longrightarrow> (\<forall>k'. k' \<noteq> k \<longrightarrow> strs d' k' = strs d k') \<and>
      (hashes d' = (hashes d)(k := Map.empty) \<or> (r \<noteq> Inr () \<and> hashes d' = hashes d))"

text \<open>The mapping and the pages a database state stands for, and the fields it may hold.\<close>

definition db_mapping :: "('d \<Rightarrow> bytes \<Rightarrow> bytes option) \<Rightarrow> 'd \<Rightarrow> bytes \<times> bytes \<Rightarrow> bytes option" where
  "db_mapping strs d = (\<lambda>(ch, sh). strs d (SessionKey ch sh))"

definition db_pages :: "('d \<Rightarrow> bytes \<Rightarrow> bytes \<Rightarrow> bytes option) \<Rightarrow> 'd \<Rightarrow> bytes \<Rightarrow> int \<Rightarrow> bytes option" where
  "db_pages hashes d rid n = (if in_int64 n then hashes d (TempKey rid) (PageField n) else None)"

definition page_fields :: "('d \<Rightarrow> bytes \<Rightarrow> bytes \<Rightarrow> bytes option) \<Rightarrow> 'd \<Rightarrow> bool" where
  "page_fields hashes d \<longleftrightarrow> (\<forall>rid f. hashes d (TempKey rid) f \<noteq> None \<longrightarrow> (\<exists>n. in_int64 n \<and> f = PageField n))"

definition no_colon :: "bytes \<Rightarrow> bool" where
  "no_colon ch \<longleftrightarrow> CHR '':'' \<notin> set ch"

lemma PageField_inject: "in_int64 m \<Longrightarrow> in_int64 n \<Longrightarrow> PageField m = PageField n \<longleftrightarrow> m = n"
  by (metis Atoi_PageField option.inject)

text \<open>The loop of \<open>GetPages\<close> on page fields: no page is lost, overwritten or renumbered.\<close>

lemma add_pages:
  assumes "distinct (map fst vals)" "\<forall>f \<in> fst ` set vals. \<exists>n. in_int64 n \<and> f = PageField n"
  shows "distinct (map fst (fold add_page vals [])) \<and>
    map_of (fold add_page vals []) = (\<lambda>n. if in_int64 n then map_of vals (PageField n) else None)"
  using assms
proof (induction vals rule: rev_induct)
  case (snoc fv vals)
  obtain f v n where fv: "fv = (f, v)" "in_int64 n" "f = PageField n" using snoc.prems(2) by (cases fv) auto
  have "map_of vals f = None" using snoc.prems(1) fv(1) by (auto simp: map_of_eq_None_iff)
  moreover have "add_page fv out = AList.update n v out" for out by (simp add: add_page_def fv Atoi_PageField)
  moreover have "map_of (vals @ [fv]) g = (case map_of vals g of None \<Rightarrow> if g = f then Some v else None | Some x \<Rightarrow> Some x)" for g
    by (simp add: fv(1) map_add_def split: option.splits)
  ultimately show ?case using snoc fv
    by (auto simp: update_conv' distinct_update fun_eq_iff PageField_inject split: option.splits)
qed auto

lemma run_put_page:
  "fold run_cmd (take k [HSet (TempKey rid) (PageField n) b, Expire (TempKey rid) ttl]) h
    = (if k = 0 then h else h(TempKey rid := (h (TempKey rid))(PageField n \<mapsto> b)))"
  by (cases k; cases "k - 1") (simp_all add: run_cmd_def)

lemma page_fields_cong: "hashes d' = hashes d \<Longrightarrow> page_fields hashes d \<Longrightarrow> page_fields hashes d'"
  by (simp add: page_fields_def)

lemma page_fields_del:
  assumes "page_fields hashes d" "hashes d' = (hashes d)(TempKey rid := Map.empty)"
  shows "page_fields hashes d'"
  unfolding page_fields_def
proof (intro allI impI)
  fix rid' f
  assume "hashes d' (TempKey rid') f \<noteq> None"
  then have "hashes d (TempKey rid') f \<noteq> None" using assms(2) by (auto split: if_splits)
  then show "\<exists>n. in_int64 n \<and> f = PageField n" using assms(1) by (auto simp: page_fields_def)
qed

lemma db_pages_cong: "hashes d' = hashes d \<Longrightarrow> db_pages hashes d' = db_pages hashes d"
  by (simp add: db_pages_def fun_eq_iff)

lemma page_fields_put:
  assumes "page_fields hashes d" "in_int64 n"
    and "hashes d' = (hashes d)(TempKey rid := (hashes d (TempKey rid))(PageField n \<mapsto> b))"
  shows "page_fields hashes d'"
  unfolding page_fields_def
proof (intro allI impI)
  fix rid' f
  assume "hashes d' (TempKey rid') f \<noteq> None"
  then have "f = PageField n \<or> hashes d (TempKey rid') f \<noteq> None" using assms(3) by (auto split: if_splits)
  then show "\<exists>n. in_int64 n \<and> f = PageField n" using assms(1,2) by (auto simp: page_fields_def)
qed

lemma db_pages_put:
  assumes "hashes d' = (hashes d)(TempKey rid := (hashes d (TempKey rid))(PageField n \<mapsto> b))" "in_int64 n"
  shows "db_pages hashes d' = (db_pages hashes d)(rid := (db_pages hashes d rid)(n \<mapsto> b))"
  by (rule ext)+ (use assms in \<open>auto simp: db_pages_def PageField_inject\<close>)

lemma db_pages_del:
  "hashes d' = (hashes d)(TempKey rid := Map.empty) \<Longrightarrow> db_pages hashes d' = (db_pages hashes d)(rid := Map.empty)"
  by (rule ext)+ (auto simp: db_pages_def)

lemma plain_result_simps [simp]:
  "plain_result r = Inr x \<longleftrightarrow> r = Inr x" "plain_result (Inl e) = Inl (error_text e)"
  by (cases r; simp add: plain_result_def)+

sublocale redis_client \<subseteq> sessions: session_store "redis_sessions c" "db_mapping strs" no_colon
proof
  fix ch sh m s v m' s'
  assume "ss_GetSession (redis_sessions c) ch sh (m, s) = (Inr v, m', s')"
  then obtain r where "rd_Get c (SessionKey ch sh) s = (r, s')" "r = Inl RedisNil \<and> v = None \<or> (\<exists>x. r = Inr x \<and> v = Some x)"
    by (auto simp: redis_sessions_def GetSession_def split: prod.splits sum.splits redis_error.splits)
  with rd_get show "v = db_mapping strs s (ch, sh)" by (fastforce simp: db_mapping_def)
next
  fix ch sh m s m' s' r
  assume "ss_GetSession (redis_sessions c) ch sh (m, s) = (r, m', s')"
  then show "db_mapping strs s' = db_mapping strs s"
    using rd_get by (auto simp: redis_sessions_def GetSession_def db_mapping_def split: prod.splits)
next
  fix ch sh x ttl m s m' s' ch' sh'
  assume "ss_PutSession (redis_sessions c) ch sh x ttl (m, s) = (Inr (), m', s')" "no_colon ch" "no_colon ch'"
  moreover from this rd_set [of "SessionKey ch sh" x ttl s "Inr ()" s']
  have "strs s' = (strs s)(SessionKey ch sh \<mapsto> x)"
    by (auto simp: redis_sessions_def PutSession_def split: prod.splits)
  ultimately show "db_mapping strs s' (ch', sh') = (if (ch', sh') = (ch, sh) then Some x else db_mapping strs s (ch', sh'))"
    by (auto simp: db_mapping_def SessionKey_inject no_colon_def)
next
  fix ch sh x ttl m s e m' s' ch' sh'
  assume "ss_PutSession (redis_sessions c) ch sh x ttl (m, s) = (Inl e, m', s')" "no_colon ch" "no_colon ch'"
  moreover from this obtain r where "rd_Set c (SessionKey ch sh) x ttl s = (r, s')"
    by (auto simp: redis_sessions_def PutSession_def split: prod.splits)
  from rd_set [OF this] have "strs s' = (strs s)(SessionKey ch sh \<mapsto> x) \<or> strs s' = strs s" by blast
  ultimately show "db_mapping strs s' (ch', sh') \<in>
      {db_mapping strs s (ch', sh'), if (ch', sh') = (ch, sh) then Some x else db_mapping strs s (ch', sh')}"
    by (auto simp: db_mapping_def SessionKey_inject no_colon_def)
qed

context redis_client
begin

lemma exec_put_page:
  assumes "rd_Exec c [HSet (TempKey rid) (PageField n) b, Expire (TempKey rid) ttl] s = (r, s')"
  shows "hashes s' = (hashes s)(TempKey rid := (hashes s (TempKey rid))(PageField n \<mapsto> b)) \<or> (r \<noteq> Inr () \<and> hashes s' = hashes s)"
proof -
  obtain k where "hashes s' = fold run_cmd (take k [HSet (TempKey rid) (PageField n) b, Expire (TempKey rid) ttl]) (hashes s)"
    "r = Inr () \<longrightarrow> length [HSet (TempKey rid) (PageField n) b, Expire (TempKey rid) ttl] \<le> k" using rd_exec [OF assms] by blast
  then show ?thesis unfolding run_put_page by (auto split: if_splits)
qed

lemma PutPage_step:
  assumes i: "page_fields hashes s" "in_int64 n"
    and "ps_PutPage (redis_pages c) rid n b ttl (m, s) = (r, m', s')"
  shows "page_fields hashes s'"
    and "r = Inr () \<Longrightarrow> db_pages hashes s' = (db_pages hashes s)(rid := (db_pages hashes s rid)(n \<mapsto> b))"
    and "db_pages hashes s' = db_pages hashes s \<or>
      db_pages hashes s' = (db_pages hashes s)(rid := (db_pages hashes s rid)(n \<mapsto> b))"
proof -
  obtain r0 where r0: "rd_Exec c [HSet (TempKey rid) (PageField n) b, Expire (TempKey rid) ttl] s = (r0, s')"
    "r = plain_result r0" using assms(3) by (auto simp: redis_pages_def PutPage_def Let_def split: prod.splits)
  note ex = exec_put_page [OF r0(1)]
  note put = db_pages_put [where hashes = hashes and d = s and d' = s' and rid = rid and b = b, OF _ i(2)]
  show "page_fields hashes s'"
    using ex page_fields_put [where hashes = hashes and rid = rid and b = b and d' = s', OF i]
      page_fields_cong [of hashes s' s] i(1) by argo
  show "r = Inr () \<Longrightarrow> db_pages hashes s' = (db_pages hashes s)(rid := (db_pages hashes s rid)(n \<mapsto> b))"
    using ex put r0(2) plain_result_simps(1) [of r0 "()"] by metis
  show "db_pages hashes s' = db_pages hashes s \<or>
      db_pages hashes s' = (db_pages hashes s)(rid := (db_pages hashes s rid)(n \<mapsto> b))"
    using ex put db_pages_cong [of hashes s' s] by argo
qed

lemma GetPages_step:
  assumes "page_fields hashes s" "ps_GetPages (redis_pages c) rid (m, s) = (Inr ps, m', s')"
  shows "map_of ps = db_pages hashes s rid \<and> distinct (map fst ps)"
proof -
  obtain vals where g: "rd_HGetAll c (TempKey rid) s = (Inr vals, s')" "ps = fold add_page vals []"
    using assms(2) by (auto simp: redis_pages_def GetPages_def split: prod.splits sum.splits)
  from rd_hgetall [OF g(1)] have v: "map_of vals = hashes s (TempKey rid)" "distinct (map fst vals)" by auto
  have "\<forall>f \<in> fst ` set vals. \<exists>n. in_int64 n \<and> f = PageField n"
    using assms(1) v(1) by (metis page_fields_def map_of_eq_None_iff)
  from add_pages [OF v(2) this] show ?thesis
    by (simp add: g(2) fun_eq_iff db_pages_def flip: v(1))
qed

lemma GetPages_keeps:
  "ps_GetPages (redis_pages c) rid (m, s) = (r, m', s') \<Longrightarrow> hashes s' = hashes s"
  using rd_hgetall by (auto simp: redis_pages_def GetPages_def split: prod.splits)

lemma DeletePages_step:
  assumes "page_fields hashes s" "ps_DeletePages (redis_pages c) rid (m, s) = (r, m', s')"
  shows "page_fields hashes s'"
    and "r = Inr () \<Longrightarrow> db_pages hashes s' = (db_pages hashes s)(rid := Map.empty)"
    and "db_pages hashes s' = db_pages hashes s \<or> db_pages hashes s' = (db_pages hashes s)(rid := Map.empty)"
proof -
  obtain r0 where r0: "rd_Del c (TempKey rid) s = (r0, s')" "r = plain_result r0"
    using assms(2) by (auto simp: redis_pages_def DeletePages_def split: prod.splits)
  note del = rd_del [OF r0(1)]
  show "page_fields hashes s'"
    using del assms(1) page_fields_del [of hashes s s' rid] page_fields_cong [of hashes s' s] by argo
  show "r = Inr () \<Longrightarrow> db_pages hashes s' = (db_pages hashes s)(rid := Map.empty)"
    using del r0(2) plain_result_simps(1) [of r0 "()"] db_pages_del by metis
  show "db_pages hashes s' = db_pages hashes s \<or> db_pages hashes s' = (db_pages hashes s)(rid := Map.empty)"
    using del db_pages_del [of hashes s' s rid] db_pages_cong [of hashes s' s] by argo
qed

end

sublocale redis_client \<subseteq> temp: temp_page_store "redis_pages c" "page_fields hashes" "db_pages hashes"
proof (unfold_locales, goal_cases)
  case 1
  then show ?case by (rule PutPage_step(1))
next
  case 2
  then show ?case by (rule PutPage_step(2)) simp
next
  case 3
  then show ?case by (rule PutPage_step(3))
next
  case 4
  then show ?case by (rule GetPages_step)
next
  case 5
  then show ?case using GetPages_keeps by (fastforce simp: page_fields_def db_pages_def fun_eq_iff)
next
  case 6
  then show ?case by (rule DeletePages_step(1))
next
  case 7
  then show ?case by (rule DeletePages_step(2)) simp
next
  case 8
  then show ?case by (rule DeletePages_step(3))
qed

sublocale redis_client \<subseteq> both: gateway_store "redis_sessions c" "db_mapping strs" no_colon "redis_pages c" "page_fields hashes" "db_pages hashes"
proof (unfold_locales, goal_cases)
  case (1 s ch sh m rs m' s')
  then have "hashes s' = hashes s" using rd_get
    by (auto simp: redis_sessions_def GetSession_def split: prod.splits)
  then show ?case using 1(1) by (simp add: page_fields_def db_pages_def fun_eq_iff)
next
  case (2 s ch sh x ttl m rp m' s')
  then obtain r where "rd_Set c (SessionKey ch sh) x ttl s = (r, s')"
    by (auto simp: redis_sessions_def PutSession_def split: prod.splits)
  then have "hashes s' (TempKey rid) = hashes s (TempKey rid)" for rid by (rule rd_set_other) simp
  then show ?case using 2(1) by (simp add: page_fields_def db_pages_def fun_eq_iff)
qed

sublocale redis_client \<subseteq> shared: shared_store "redis_sessions c" "db_mapping strs" no_colon "redis_pages c" "page_fields hashes" "db_pages hashes"
proof (unfold_locales, goal_cases)
  case (1 rid n b ttl m s rp m' s')
  then obtain r where "rd_Exec c [HSet (TempKey rid) (PageField n) b, Expire (TempKey rid) ttl] s = (r, s')"
    by (auto simp: redis_pages_def PutPage_def Let_def split: prod.splits)
  from rd_exec [OF this] show ?case by (simp add: db_mapping_def)
next
  case (2 rid m s rg m' s')
  then obtain r where "rd_HGetAll c (TempKey rid) s = (r, s')"
    by (auto simp: redis_pages_def GetPages_def split: prod.splits)
  from rd_hgetall [OF this] show ?case by (simp add: db_mapping_def)
next
  case (3 rid m s rd m' s')
  then obtain r where "rd_Del c (TempKey rid) s = (r, s')"
    by (auto simp: redis_pages_def DeletePages_def split: prod.splits)
  from rd_del [OF this] show ?case by (auto simp: db_mapping_def fun_eq_iff)
qed

context redis_client
begin

lemma redis_shared_store:
  "shared_store (redis_sessions c) (db_mapping strs) no_colon (redis_pages c) (page_fields hashes) (db_pages hashes)"
  by (rule shared.shared_store_axioms)

lemma redis_gateway_store:
  "gateway_store (redis_sessions c) (db_mapping strs) no_colon (redis_pages c) (page_fields hashes) (db_pages hashes)"
  by (rule both.gateway_store_axioms)

lemma redis_session_store: "session_store (redis_sessions c) (db_mapping strs) no_colon"
  by (rule sessions.session_store_axioms)

lemma redis_page_store: "temp_page_store (redis_pages c) (page_fields hashes) (db_pages hashes)"
  by (rule temp.temp_page_store_axioms)

end

section \<open>A Redis server\<close>

text \<open>
  A concrete server with the documented behaviour: string keys, hashes, and a schedule that says
  which of the next commands fail without effect (an empty schedule: none). Expiry is
  a separate event of the environment.
\<close>

record mem_db =
  db_strs :: "(bytes \<times> bytes) list"
  db_hashes :: "(bytes \<times> (bytes \<times> bytes) list) list"
  db_faults :: "bool list"

definition db_hash :: "mem_db \<Rightarrow> bytes \<Rightarrow> (bytes \<times> bytes) list" where
  "db_hash d k = (case map_of (db_hashes d) k of None \<Rightarrow> [] | Some h \<Rightarrow> h)"

definition faulty :: "(mem_db \<Rightarrow> (redis_error + 'a) \<times> mem_db) \<Rightarrow> mem_db \<Rightarrow> (redis_error + 'a) \<times> mem_db" where
  "faulty cmd d = (case db_faults d of [] \<Rightarrow> cmd d
     | f # fs \<Rightarrow> if f then (Inl (RedisFailure ''timeout''), d\<lparr>db_faults := fs\<rparr>) else cmd (d\<lparr>db_faults := fs\<rparr>))"

definition mem_run :: "redis_cmd \<Rightarrow> mem_db \<Rightarrow> mem_db" where
  "mem_run cmd d = (case cmd of
     HSet k f v \<Rightarrow> d\<lparr>db_hashes := AList.update k (AList.update f v (db_hash d k)) (db_hashes d)\<rparr>
   | Expire k ttl \<Rightarrow> d)"

definition mem_redis :: "mem_db redis" where
  "mem_redis =
     \<lparr>rd_Get = (\<lambda>k. faulty (\<lambda>d. (case map_of (db_strs d) k of None \<Rightarrow> Inl RedisNil | Some v \<Rightarrow> Inr v, d))),
      rd_Set = (\<lambda>k v ttl. faulty (\<lambda>d. (Inr (), d\<lparr>db_strs := AList.update k v (db_strs d)\<rparr>))),
      rd_Exec = (\<lambda>cmds. faulty (\<lambda>d. (Inr (), fold mem_run cmds d))),
      rd_HGetAll = (\<lambda>k. faulty (\<lambda>d. (Inr (AList.clearjunk (db_hash d k)), d))),
      rd_Del = (\<lambda>k. faulty (\<lambda>d. (Inr (), d\<lparr>db_hashes := AList.delete k (db_hashes d), db_strs := AList.delete k (db_strs d)\<rparr>))),
      rd_Ping = faulty (\<lambda>d. (Inr (), d)), rd_Close = faulty (\<lambda>d. (Inr (), d))\<rparr>"

definition mem_strs :: "mem_db \<Rightarrow> bytes \<Rightarrow> bytes option" where
  "mem_strs d = map_of (db_strs d)"

definition mem_hashes :: "mem_db \<Rightarrow> bytes \<Rightarrow> bytes \<Rightarrow> bytes option" where
  "mem_hashes d k = map_of (db_hash d k)"

lemma mem_run_view:
  "mem_strs (fold mem_run cmds d) = mem_strs d \<and> mem_hashes (fold mem_run cmds d) = fold run_cmd cmds (mem_hashes d)"
proof (induction cmds arbitrary: d)
  case (Cons cmd cmds)
  have "mem_strs (mem_run cmd d) = mem_strs d \<and> mem_hashes (mem_run cmd d) = run_cmd cmd (mem_hashes d)"
    by (auto simp: mem_run_def run_cmd_def mem_strs_def mem_hashes_def db_hash_def update_conv' fun_eq_iff
        split: redis_cmd.splits option.splits)
  with Cons show ?case by simp
qed simp

lemma mem_view_faults [simp]:
  "mem_strs (d\<lparr>db_faults := fs\<rparr>) = mem_strs d" "mem_hashes (d\<lparr>db_faults := fs\<rparr>) = mem_hashes d"
  by (simp_all add: mem_strs_def mem_hashes_def db_hash_def fun_eq_iff)

lemma faulty_cases:
  assumes "faulty cmd d = (r, d')"
  obtains "r = Inl (RedisFailure ''timeout'')" "mem_strs d' = mem_strs d" "mem_hashes d' = mem_hashes d"
    | fs where "cmd (d\<lparr>db_faults := fs\<rparr>) = (r, d')"
proof (cases "db_faults d")
  case Nil
  then have "d\<lparr>db_faults := []\<rparr> = d" by (metis mem_db.surjective mem_db.update_convs(3))
  with Nil assms that(2) [of "[]"] show thesis by (simp add: faulty_def)
next
  case (Cons f fs)
  with assms that(1) that(2) [of fs] show thesis by (auto simp: faulty_def split: if_splits)
qed

interpretation mem: redis_client mem_redis mem_strs mem_hashes
proof
  fix k d r d'
  assume "rd_Get mem_redis k d = (r, d')"
  then show "mem_strs d' = mem_strs d \<and> mem_hashes d' = mem_hashes d \<and>
      (r = Inl RedisNil \<longrightarrow> mem_strs d k = None) \<and> (\<forall>v. r = Inr v \<longrightarrow> mem_strs d k = Some v)"
    by (simp add: mem_redis_def) (erule faulty_cases, auto simp: mem_strs_def split: option.splits)
next
  fix k v ttl d r d'
  assume "rd_Set mem_redis k v ttl d = (r, d')"
  then show "mem_strs d' = (mem_strs d)(k \<mapsto> v) \<or> (r \<noteq> Inr () \<and> mem_strs d' = mem_strs d)"
    by (simp add: mem_redis_def) (erule faulty_cases, auto simp: mem_strs_def update_conv')
next
  fix k v ttl d r d' k'
  assume "rd_Set mem_redis k v ttl d = (r, d')"
  then show "mem_hashes d' k' = mem_hashes d k'"
    by (simp add: mem_redis_def) (erule faulty_cases, auto simp: mem_hashes_def db_hash_def)
next
  fix cmds d r d'
  assume "rd_Exec mem_redis cmds d = (r, d')"
  then have "mem_strs d' = mem_strs d \<and>
      (mem_hashes d' = fold run_cmd cmds (mem_hashes d) \<or> (r \<noteq> Inr () \<and> mem_hashes d' = mem_hashes d))"
    by (simp add: mem_redis_def) (erule faulty_cases, use mem_run_view in \<open>fastforce+\<close>)
  then show "mem_strs d' = mem_strs d \<and>
      (\<exists>k. mem_hashes d' = fold run_cmd (take k cmds) (mem_hashes d) \<and> (r = Inr () \<longrightarrow> length cmds \<le> k))"
    by (metis fold_Nil id_apply order_refl take_0 take_all)
next
  fix k d r d'
  assume "rd_HGetAll mem_redis k d = (r, d')"
  then show "mem_strs d' = mem_strs d \<and> mem_hashes d' = mem_hashes d \<and>
      (\<forall>vals. r = Inr vals \<longrightarrow> map_of vals = mem_hashes d k \<and> distinct (map fst vals))"
    by (simp add: mem_redis_def) (erule faulty_cases, auto simp: mem_hashes_def db_hash_def map_of_clearjunk)
next
  fix k d r d'
  assume "rd_Del mem_redis k d = (r, d')"
  then show "(\<forall>k'. k' \<noteq> k \<longrightarrow> mem_strs d' k' = mem_strs d k') \<and>
      (mem_hashes d' = (mem_hashes d)(k := Map.empty) \<or> (r \<noteq> Inr () \<and> mem_hashes d' = mem_hashes d))"
    by (simp add: mem_redis_def)
      (erule faulty_cases, auto simp: mem_hashes_def mem_strs_def db_hash_def delete_conv' fun_eq_iff split: option.splits)
qed

section \<open>Properties\<close>

text \<open>
  Keys are isolated: the session keys of two (client, state) pairs are equal only when the
  pairs are, provided client hashes contain no colon, and no session key is a page key.
\<close>

lemma SessionKey_isolated:
  assumes "no_colon ch" "no_colon ch'"
  shows "(SessionKey ch sh = SessionKey ch' sh' \<longleftrightarrow> (ch, sh) = (ch', sh')) \<and> SessionKey ch sh \<noteq> TempKey rid"
  using assms by (simp add: no_colon_def SessionKey_inject)

text \<open>
  C22. On every client with the documented behaviour, a lookup after a successful write returns the
  written session for that client and state, and the old one for every other pair.
\<close>

theorem GetSession_after_PutSession:
  assumes "redis_client c strs hashes"
    and "PutSession c ch sh x ttl (m, s) = (Inr (), m1, s1)"
    and "GetSession c ch' sh' (m2, s1) = (Inr v, m3, s3)" "no_colon ch" "no_colon ch'"
  shows "v = (if (ch', sh') = (ch, sh) then Some x else strs s (SessionKey ch' sh'))"
proof -
  have "ss_PutSession (redis_sessions c) ch sh x ttl (m, s) = (Inr (), m1, s1)"
    "ss_GetSession (redis_sessions c) ch' sh' (m2, s1) = (Inr v, m3, s3)"
    using assms(2,3) by (simp_all add: redis_sessions_def)
  from session_store.get_after_put [OF redis_client.redis_session_store [OF assms(1)] this assms(4,5)] show ?thesis by (simp add: db_mapping_def)
qed

theorem GetSession_after_PutSession_witness:
  "(case PutSession mem_redis ''ab'' ''h'' ''s1'' 60 (New, \<lparr>db_strs = [], db_hashes = [], db_faults = []\<rparr>) of (r, m1, d1) \<Rightarrow>
     (case GetSession mem_redis ''ab'' ''h'' (m1, d1) of (g, m2, d2) \<Rightarrow> r = Inr () \<and> g = Inr (Some ''s1'')))"
proof -
  let ?d = "\<lparr>db_strs = [], db_hashes = [], db_faults = []\<rparr>"
  obtain m1 d1 where p: "PutSession mem_redis ''ab'' ''h'' ''s1'' 60 (New, ?d) = (Inr (), m1, d1)"
    by (simp add: PutSession_def mem_redis_def faulty_def plain_result_def split: prod.splits)
  obtain v m2 d2 where g: "GetSession mem_redis ''ab'' ''h'' (m1, d1) = (Inr v, m2, d2)"
    using p by (auto simp: GetSession_def PutSession_def mem_redis_def faulty_def split: prod.splits option.splits)
  have "v = Some ''s1''"
    using GetSession_after_PutSession [OF mem.redis_client_axioms p g] by (simp add: no_colon_def)
  with p g show ?thesis by simp
qed

text \<open>
  C21. After a successful write of a page, a successful read of the request's pages returns this
  page and the pages that were there, under their numbers, whatever order the server
  lists the fields in.
\<close>

theorem GetPages_after_PutPage:
  assumes "redis_client c strs hashes" "page_fields hashes s" "in_int64 n"
    and "PutPage c rid n b ttl (m, s) = (Inr (), m1, s1)" "GetPages c rid (m2, s1) = (Inr ps, m3, s3)"
  shows "distinct (map fst ps) \<and> map_of ps = (db_pages hashes s rid)(n \<mapsto> b)"
proof -
  have p: "ps_PutPage (redis_pages c) rid n b ttl (m, s) = (Inr (), m1, s1)"
    and g: "ps_GetPages (redis_pages c) rid (m2, s1) = (Inr ps, m3, s3)"
    using assms(4,5) by (simp_all add: redis_pages_def)
  note st = redis_client.redis_page_store [OF assms(1)]
  from temp_page_store.put_page_ok [OF st assms(2,3) p]
    temp_page_store.get_pages_result [OF st temp_page_store.put_page_inv [OF st assms(2,3) p] g]
  show ?thesis by simp
qed

theorem GetPages_after_PutPage_witness:
  "(case PutPage mem_redis ''r'' 2 ''xy'' 60 (New, \<lparr>db_strs = [], db_hashes = [], db_faults = []\<rparr>) of (r, m1, d1) \<Rightarrow>
     (case GetPages mem_redis ''r'' (m1, d1) of (g, m2, d2) \<Rightarrow> r = Inr () \<and> (\<exists>ps. g = Inr ps \<and> map_of ps 2 = Some ''xy'')))"
proof -
  let ?d = "\<lparr>db_strs = [], db_hashes = [], db_faults = []\<rparr>"
  obtain m1 d1 where p: "PutPage mem_redis ''r'' 2 ''xy'' 60 (New, ?d) = (Inr (), m1, d1)"
    by (simp add: PutPage_def Let_def mem_redis_def faulty_def plain_result_def split: prod.splits)
  obtain ps m2 d2 where g: "GetPages mem_redis ''r'' (m1, d1) = (Inr ps, m2, d2)"
    using p by (auto simp: GetPages_def PutPage_def Let_def mem_redis_def faulty_def mem_run_def split: prod.splits)
  have "page_fields mem_hashes ?d" by (simp add: page_fields_def mem_hashes_def db_hash_def)
  from GetPages_after_PutPage [OF mem.redis_client_axioms this _ p g] have "map_of ps 2 = Some ''xy''"
    by (simp add: in_int64_def)
  with p g show ?thesis by simp
qed

end
