(* ===== verification/Session.thy ===== *)
theory Session
  imports Canon Store
begin

text \<open>
  Package \<open>internal/session\<close> (resolver.go): which session a request belongs to. The UUID that
  \<open>uuid.NewString\<close> (third-party code) would return is the argument \<open>fresh\<close>. The resolver only
  talks to a session store, so its lemmas are proved once from the contract \<open>session_store\<close>.
\<close>

datatype Source = SourceClient | SourceResolved | SourceNew

record Decision =
  SessionID :: bytes
  dec_Source :: Source
  dec_HistoryHash :: bytes

definition Resolve ::
  "'s SessionStore \<Rightarrow> bytes \<Rightarrow> bytes \<Rightarrow> bytes list \<Rightarrow> bytes \<Rightarrow> Metrics \<times> 's \<Rightarrow> Decision \<times> Metrics \<times> 's" where
  "Resolve S fresh clientHash canonMsgs clientSession w =
     (case w of (m, s) \<Rightarrow>
        if clientSession \<noteq> [] then
          (\<lparr>SessionID = clientSession, dec_Source = SourceClient, dec_HistoryHash = []\<rparr>,
           m\<lparr>SessionClientSupplied := Suc (SessionClientSupplied m)\<rparr>, s)
        else if length canonMsgs > 1 then
          (let histHash = HistoryHash (take (length canonMsgs - 1) canonMsgs);
               new = \<lparr>SessionID = fresh, dec_Source = SourceNew, dec_HistoryHash = histHash\<rparr>
           in case ss_GetSession S clientHash histHash (m, s) of (r, m1, s1) \<Rightarrow>
             (case r of
                Inl e \<Rightarrow> (new, SessionStoreErrorInc ''session_get'' m1, s1)
              | Inr (Some sid) \<Rightarrow>
                  (\<lparr>SessionID = sid, dec_Source = SourceResolved, dec_HistoryHash = histHash\<rparr>,
                   m1\<lparr>SessionResolveHit := Suc (SessionResolveHit m1)\<rparr>, s1)
              | Inr None \<Rightarrow> (new, m1\<lparr>SessionResolveMiss := Suc (SessionResolveMiss m1)\<rparr>, s1)))
        else (\<lparr>SessionID = fresh, dec_Source = SourceNew, dec_HistoryHash = []\<rparr>, m, s))"

context session_store
begin

lemma Resolve_keeps:
  "Resolve S fresh ch msgs cs (m, s) = (d, m', s') \<Longrightarrow> mapping s' = mapping s"
  by (auto simp: Resolve_def Let_def get_keeps split: if_splits prod.splits sum.splits option.splits)

text \<open>Without a store error the decision is the one the mapping prescribes.\<close>

lemma Resolve_mapping:
  assumes "Resolve S fresh ch msgs [] (m, s) = (d, m', s')" "1 < length msgs" "okey ch"
    and "ss_GetSession S ch (HistoryHash (take (length msgs - 1) msgs)) (m, s) = (Inr v, m1, s1)"
  shows "d = (case mapping s (ch, HistoryHash (take (length msgs - 1) msgs)) of
      None \<Rightarrow> \<lparr>SessionID = fresh, dec_Source = SourceNew, dec_HistoryHash = HistoryHash (take (length msgs - 1) msgs)\<rparr>
    | Some sid \<Rightarrow> \<lparr>SessionID = sid, dec_Source = SourceResolved, dec_HistoryHash = HistoryHash (take (length msgs - 1) msgs)\<rparr>)"
  using assms get_result [OF assms(4,3)] by (auto simp: Resolve_def Let_def split: option.splits)

text \<open>The next turn: the history it sends is the state the previous turn was stored under.\<close>

lemma Resolve_next_turn:
  assumes "mapping s (ch, HashBytes (FullState msgs a)) = Some sid" "okey ch"
    and "ss_GetSession S ch (HashBytes (FullState msgs a)) (m, s) = (Inr v, m1, s1)"
    and "Resolve S fresh ch (msgs @ [a, u]) [] (m, s) = (d, m', s')"
  shows "SessionID d = sid \<and> dec_Source d = SourceResolved"
proof -
  have "HistoryHash (take (length (msgs @ [a, u]) - 1) (msgs @ [a, u])) = HashBytes (FullState msgs a)"
    by (simp add: FullState_hash)
  with Resolve_mapping [OF assms(4), of v m1 s1] assms(1-3) show ?thesis by simp
qed

end

section \<open>Properties\<close>

text \<open>
  A session supplied by the client is always used as it is, whatever the messages and the
  state of the store, and the store is not consulted.
\<close>

lemma Resolve_client_wins:
  assumes "clientSession \<noteq> []"
  shows "Resolve S fresh ch msgs clientSession (m, s) =
    (\<lparr>SessionID = clientSession, dec_Source = SourceClient, dec_HistoryHash = []\<rparr>,
     m\<lparr>SessionClientSupplied := Suc (SessionClientSupplied m)\<rparr>, s)"
  using assms by (simp add: Resolve_def)

text \<open>
  C30. Resolution never fails: a first message, a miss and a failing store all yield the fresh
  session, and a decision other than \<open>client\<close> carries a session from the store only when
  the lookup of exactly the history before the last message found it.
\<close>

theorem Resolve_total:
  assumes "Resolve S fresh ch msgs [] (m, s) = (d, m', s')"
  shows "(dec_Source d = SourceNew \<and> SessionID d = fresh) \<or>
    (dec_Source d = SourceResolved \<and> 1 < length msgs \<and>
     (\<exists>m1. ss_GetSession S ch (HistoryHash (butlast msgs)) (m, s) = (Inr (Some (SessionID d)), m1, s')))"
proof (cases "1 < length msgs")
  case True
  obtain r m1 s1 where "ss_GetSession S ch (HistoryHash (butlast msgs)) (m, s) = (r, m1, s1)"
    by (cases "ss_GetSession S ch (HistoryHash (butlast msgs)) (m, s)") auto
  with True assms show ?thesis
    by (auto simp: Resolve_def Let_def butlast_conv_take split: sum.splits option.splits)
qed (use assms in \<open>auto simp: Resolve_def\<close>)

theorem Resolve_total_witness:
  "\<exists>d m' s'. Resolve (redis_sessions mem_redis) ''u'' ''h'' [''1'', ''2''] [] (New, \<lparr>db_strs = [], db_hashes = [], db_faults = [True]\<rparr>) = (d, m', s')
    \<and> dec_Source d = SourceNew \<and> SessionID d = ''u''"
proof -
  let ?w = "(New, \<lparr>db_strs = [], db_hashes = [], db_faults = [True]\<rparr>)"
  obtain d m' s' where r: "Resolve (redis_sessions mem_redis) ''u'' ''h'' [''1'', ''2''] [] ?w = (d, m', s')"
    by (cases "Resolve (redis_sessions mem_redis) ''u'' ''h'' [''1'', ''2''] [] ?w") auto
  moreover have "ss_GetSession (redis_sessions mem_redis) ''h'' x ?w \<noteq> (Inr (Some y), m1, s1)" for x y m1 s1
    by (simp add: redis_sessions_def GetSession_def mem_redis_def faulty_def)
  ultimately show ?thesis using Resolve_total [OF r] by blast
qed

text \<open>
  Session affinity: when a turn stored the session \<open>sid\<close> under the hash of its full
  conversation state and the mapping is still there, the next turn of the same client, whose
  messages are that state followed by one new message, resolves to \<open>sid\<close> unless the store
  fails. This holds for the Redis store on every client with the documented behaviour.
\<close>

lemma next_turn_resolves:
  assumes "redis_client c strs hashes" "no_colon ch"
    and "strs s (SessionKey ch (HashBytes (FullState msgs a))) = Some sid"
    and "GetSession c ch (HashBytes (FullState msgs a)) (m, s) = (Inr v, m1, s1)"
    and "Resolve (redis_sessions c) fresh ch (msgs @ [a, u]) [] (m, s) = (d, m', s')"
  shows "SessionID d = sid \<and> dec_Source d = SourceResolved"
  using session_store.Resolve_next_turn [OF redis_client.redis_session_store [OF assms(1)] _ assms(2) _ assms(5)] assms(3,4)
  by (simp add: db_mapping_def redis_sessions_def)

text \<open>
  C38. One failing lookup in Redis is counted twice in the counter of store errors: \<open>observe\<close>
  counts it under \<open>session_get\<close> and the resolver counts it again under the same label.
\<close>

theorem session_get_error_counted_twice:
  assumes "rd_Get c (SessionKey ch (HistoryHash (butlast msgs))) s = (Inl (RedisFailure t), s')" "1 < length msgs"
    and "Resolve (redis_sessions c) fresh ch msgs [] (m, s) = (d, m', s'')"
  shows "label_value (SessionStoreError m') ''session_get'' = label_value (SessionStoreError m) ''session_get'' + 2"
  using assms
  by (simp add: Resolve_def Let_def redis_sessions_def GetSession_def observe_def SessionStoreErrorInc_def butlast_conv_take)
    (auto simp: SessionStoreErrorInc_def)

theorem session_get_error_counted_twice_witness:
  "label_value (SessionStoreError (fst (snd (Resolve (redis_sessions mem_redis) ''u'' ''c'' [''1'', ''2''] []
     (New, \<lparr>db_strs = [], db_hashes = [], db_faults = [True]\<rparr>))))) ''session_get'' = 2"
proof -
  let ?s = "\<lparr>db_strs = [], db_hashes = [], db_faults = [True]\<rparr>"
  have g: "rd_Get mem_redis (SessionKey ''c'' (HistoryHash (butlast [''1'', ''2'']))) ?s
      = (Inl (RedisFailure ''timeout''), ?s\<lparr>db_faults := []\<rparr>)"
    by (simp add: mem_redis_def faulty_def)
  obtain d m' s'' where r: "Resolve (redis_sessions mem_redis) ''u'' ''c'' [''1'', ''2''] [] (New, ?s) = (d, m', s'')"
    by (cases "Resolve (redis_sessions mem_redis) ''u'' ''c'' [''1'', ''2''] [] (New, ?s)") auto
  show ?thesis using session_get_error_counted_twice [OF g _ r] r by (simp add: New_def label_value_def)
qed

end
