(* ===== verification/Sse.thy ===== *)
theory Sse
  imports Prelude
begin

text \<open>
  Package \<open>internal/sse\<close> (sse.go): the scanner of text/event-stream payloads. The callback
  \<open>fn\<close> of \<open>Scan\<close> is a Go closure: it reads and updates the variables it captures and
  returns whether the scan goes on, so in the model it is a function on the captured state. The
  declarative reading of a payload (\<open>events\<close>) splits it into lines and the lines into
  groups; the scanner is shown to run the callback over exactly these events.
\<close>

record Event =
  Data :: bytes

text \<open>\<open>bytes.Join\<close>.\<close>

fun Join :: "bytes list \<Rightarrow> bytes \<Rightarrow> bytes" where
  "Join [] sep = []"
| "Join [x] sep = x"
| "Join (x # y # ys) sep = x @ sep @ Join (y # ys) sep"

type_synonym 's event_fn = "Event \<Rightarrow> 's \<Rightarrow> bool \<times> 's"

text \<open>The local closure \<open>dispatch\<close>: its result, the data lines left, the captured state.\<close>

definition dispatch :: "'s event_fn \<Rightarrow> bytes list \<Rightarrow> 's \<Rightarrow> bool \<times> bytes list \<times> 's" where
  "dispatch fn data st =
     (if data = [] then (True, data, st)
      else (let (go, st') = fn \<lparr>Data = Join data [nl]\<rparr> st in (go, [], st')))"

text \<open>One line and the index after it, as the payload that remains.\<close>

definition next_line :: "bytes \<Rightarrow> bytes \<times> bytes" where
  "next_line payload =
     (case IndexByte payload nl of
        None \<Rightarrow> (payload, [])
      | Some j \<Rightarrow> (take j payload, drop (j + 1) payload))"

definition data_field :: bytes where "data_field = ''data:''"

text \<open>The effect of one line that is not blank on the data lines of the event.\<close>

definition take_line :: "bytes \<Rightarrow> bytes list \<Rightarrow> bytes list" where
  "take_line line data =
     (if HasPrefix line '':'' then data
      else if HasPrefix line data_field
      then data @ [TrimPrefix (drop (length data_field) line) '' '']
      else data)"

lemma next_line_shrink: "payload \<noteq> [] \<Longrightarrow> length (snd (next_line payload)) < length payload"
  by (auto simp: next_line_def split: option.splits)

function scan_loop :: "bytes \<Rightarrow> 's event_fn \<Rightarrow> bytes list \<Rightarrow> 's \<Rightarrow> 's" where
  "scan_loop payload fn data st =
     (if payload = [] then snd (snd (dispatch fn data st))
      else (let line = TrimSuffix (fst (next_line payload)) [cr];
                rest = snd (next_line payload)
            in if line = []
               then (case dispatch fn data st of (go, data', st') \<Rightarrow>
                       if go then scan_loop rest fn data' st' else st')
               else scan_loop rest fn (take_line line data) st))"
  by pat_completeness auto
termination
  by (relation "measure (\<lambda>(payload, _). length payload)") (auto simp: next_line_shrink)

declare scan_loop.simps [simp del]

definition Scan :: "bytes \<Rightarrow> 's event_fn \<Rightarrow> 's \<Rightarrow> 's" where
  "Scan payload fn st = scan_loop payload fn [] st"

section \<open>The events of a payload\<close>

fun split_lines :: "bytes \<Rightarrow> bytes list" where
  "split_lines [] = []"
| "split_lines (c # s) =
     (if c = nl then [] # split_lines s
      else (case split_lines s of [] \<Rightarrow> [[c]] | l # ls \<Rightarrow> (c # l) # ls))"

definition payload_lines :: "bytes \<Rightarrow> bytes list" where
  "payload_lines p = map (\<lambda>l. TrimSuffix l [cr]) (split_lines p)"

text \<open>The runs of lines between blank lines.\<close>

fun groups :: "bytes list \<Rightarrow> bytes list list" where
  "groups [] = [[]]"
| "groups (l # ls) = (if l = [] then [] # groups ls else (l # hd (groups ls)) # tl (groups ls))"

definition data_line :: "bytes \<Rightarrow> bytes option" where
  "data_line l = (if HasPrefix l ''data:'' then Some (TrimPrefix (drop 5 l) '' '') else None)"

definition group_event :: "bytes list \<Rightarrow> Event option" where
  "group_event ds = (if ds = [] then None else Some \<lparr>Data = Join ds [nl]\<rparr>)"

definition events :: "bytes \<Rightarrow> Event list" where
  "events p = List.map_filter (group_event \<circ> List.map_filter data_line) (groups (payload_lines p))"

text \<open>Running a callback over a list of events until it asks to stop.\<close>

fun run_events :: "'s event_fn \<Rightarrow> Event list \<Rightarrow> 's \<Rightarrow> 's" where
  "run_events fn [] st = st"
| "run_events fn (e # es) st = (case fn e st of (go, st') \<Rightarrow> if go then run_events fn es st' else st')"

text \<open>The events when \<open>data\<close> was already collected for the first group.\<close>

definition events_after :: "bytes list \<Rightarrow> bytes list \<Rightarrow> Event list" where
  "events_after data ls =
     List.map_filter group_event
       ((data @ List.map_filter data_line (hd (groups ls))) # map (List.map_filter data_line) (tl (groups ls)))"

lemma groups_nonempty [simp]: "groups ls \<noteq> []"
  by (cases ls) auto

lemma events_after_Nil: "events p = events_after [] (payload_lines p)"
proof -
  obtain g gs where "groups (payload_lines p) = g # gs" by (cases "groups (payload_lines p)") auto
  moreover have "List.map_filter (group_event \<circ> List.map_filter data_line) gs
    = List.map_filter group_event (map (List.map_filter data_line) gs)"
    by (induction gs) (auto simp: List.map_filter_simps split: option.splits)
  ultimately show ?thesis by (auto simp: events_def events_after_def List.map_filter_simps split: option.splits)
qed

lemma take_line_data: "l \<noteq> [] \<Longrightarrow> take_line l data = data @ List.map_filter data_line [l]"
  by (auto simp: take_line_def data_line_def data_field_def List.map_filter_simps HasPrefix_iff)

lemma map_filter_append: "List.map_filter f (xs @ ys) = List.map_filter f xs @ List.map_filter f ys"
  by (induction xs) (auto simp: List.map_filter_simps split: option.splits)

lemma events_after_step:
  "events_after data [] = (if data = [] then [] else [\<lparr>Data = Join data [nl]\<rparr>])"
  "events_after data ([] # ls) = (if data = [] then [] else [\<lparr>Data = Join data [nl]\<rparr>]) @ events_after [] ls"
  "l \<noteq> [] \<Longrightarrow> events_after data (l # ls) = events_after (take_line l data) ls"
proof -
  show "events_after data [] = (if data = [] then [] else [\<lparr>Data = Join data [nl]\<rparr>])"
    by (simp add: events_after_def List.map_filter_simps group_event_def)
  obtain g gs where g: "groups ls = g # gs" by (cases "groups ls") auto
  show "events_after data ([] # ls) = (if data = [] then [] else [\<lparr>Data = Join data [nl]\<rparr>]) @ events_after [] ls"
    by (simp add: events_after_def List.map_filter_simps group_event_def g)
  show "events_after data (l # ls) = events_after (take_line l data) ls" if "l \<noteq> []"
    using that by (simp add: events_after_def take_line_data g List.map_filter_simps split: option.splits)
qed

lemma split_lines_next:
  "p \<noteq> [] \<Longrightarrow> split_lines p = fst (next_line p) # split_lines (snd (next_line p))"
proof (induction p)
  case (Cons c s)
  show ?case
  proof (cases "c = nl")
    case False
    then show ?thesis using Cons.IH
      by (cases "s = []") (auto simp: next_line_def simp del: IndexByte_None split: list.splits option.splits)
  qed (simp add: next_line_def)
qed simp

lemma scan_loop_events: "scan_loop payload fn data st = run_events fn (events_after data (payload_lines payload)) st"
proof (induction payload fn data st rule: scan_loop.induct)
  case (1 payload fn data st)
  let ?line = "TrimSuffix (fst (next_line payload)) [cr]" and ?rest = "snd (next_line payload)"
  show ?case
  proof (cases "payload = []")
    case True
    then show ?thesis
      by (subst scan_loop.simps) (auto simp: payload_lines_def events_after_step dispatch_def split: prod.splits)
  next
    case False
    then have lines: "payload_lines payload = ?line # payload_lines ?rest"
      by (simp add: payload_lines_def split_lines_next)
    show ?thesis
    proof (cases "?line = []")
      case True
      obtain go data' st' where d: "dispatch fn data st = (go, data', st')" by (cases "dispatch fn data st") auto
      have "data' = []" using d by (auto simp: dispatch_def split: if_splits prod.splits)
      moreover have "go \<Longrightarrow> scan_loop ?rest fn data' st' = run_events fn (events_after data' (payload_lines ?rest)) st'"
        using "1.IH"(1) [OF False refl refl True d [symmetric] refl] by simp
      ultimately show ?thesis using True False lines d
        by (subst scan_loop.simps) (auto simp: events_after_step dispatch_def split: prod.splits if_splits)
    next
      case nonblank: False
      show ?thesis using "1.IH"(2) [OF False refl refl nonblank] False nonblank lines
        by (subst scan_loop.simps) (simp add: events_after_step Let_def)
    qed
  qed
qed

lemma Scan_run: "Scan p fn st = run_events fn (events p) st"
  by (simp add: Scan_def scan_loop_events events_after_Nil)

section \<open>Payloads in pieces\<close>

lemma split_lines_eq_Nil [simp]: "split_lines s = [] \<longleftrightarrow> s = []"
  by (cases s) (auto split: list.splits)

lemma split_lines_append: "split_lines (p @ nl # s) = split_lines (p @ [nl]) @ split_lines s"
  by (induction p) (auto split: list.splits)

lemma split_lines_line: "nl \<notin> set l \<Longrightarrow> split_lines (l @ nl # s) = l # split_lines s"
  by (induction l) auto

lemma events_after_append: "events_after data (ls @ [] # ls') = events_after data (ls @ [[]]) @ events_after [] ls'"
proof (induction ls arbitrary: data)
  case (Cons l ls)
  then show ?case by (cases "l = []") (auto simp: events_after_step)
qed (auto simp: events_after_step)

text \<open>The wire form of one event given by its data lines.\<close>

definition encode_event :: "bytes list \<Rightarrow> bytes" where
  "encode_event ls = concat (map (\<lambda>l. ''data: '' @ l @ [nl]) ls) @ [nl]"

definition plain_line :: "bytes \<Rightarrow> bool" where
  "plain_line l \<longleftrightarrow> nl \<notin> set l \<and> \<not> HasSuffix l [cr]"

lemma events_after_data_line:
  assumes "plain_line l"
  shows "events_after data (payload_lines (''data: '' @ l @ nl # s)) = events_after (data @ [l]) (payload_lines s)"
proof -
  let ?l = "''data: '' @ l"
  have "\<not> HasSuffix ?l [cr]" using assms
    by (cases l rule: rev_cases) (auto simp: plain_line_def HasSuffix_iff)
  then have "TrimSuffix ?l [cr] = ?l" unfolding TrimSuffix_def by (simp del: append_Cons append.simps)
  moreover have "split_lines (?l @ nl # s) = ?l # split_lines s"
    using assms by (intro split_lines_line) (simp add: plain_line_def)
  ultimately have "payload_lines (?l @ nl # s) = ?l # payload_lines s" by (simp add: payload_lines_def)
  moreover have "take_line ?l data = data @ [l]"
    by (simp add: take_line_def data_field_def HasPrefix_def TrimPrefix_def)
  ultimately show ?thesis using events_after_step(3) [of ?l data "payload_lines s"] by simp
qed

lemma events_after_encoded:
  assumes "list_all plain_line ls"
  shows "events_after data (payload_lines (encode_event ls @ s))
    = (if data @ ls = [] then [] else [\<lparr>Data = Join (data @ ls) [nl]\<rparr>]) @ events s"
  using assms
proof (induction ls arbitrary: data)
  case Nil
  have "payload_lines (nl # s) = [] # payload_lines s" by (simp add: payload_lines_def TrimSuffix_def)
  then show ?case by (simp add: encode_event_def events_after_step events_after_Nil)
next
  case (Cons l ls)
  have "encode_event (l # ls) @ s = ''data: '' @ l @ nl # encode_event ls @ s" by (simp add: encode_event_def)
  with Cons events_after_data_line [of l data "encode_event ls @ s"] show ?case by simp
qed

lemma events_encoded:
  "list_all (\<lambda>ls. ls \<noteq> [] \<and> list_all plain_line ls) lss \<Longrightarrow>
    events (concat (map encode_event lss)) = map (\<lambda>ls. \<lparr>Data = Join ls [nl]\<rparr>) lss"
proof (induction lss)
  case Nil
  show ?case by (simp add: events_after_Nil payload_lines_def events_after_step)
next
  case (Cons ls lss)
  then show ?case using events_after_encoded [of ls "[]" "concat (map encode_event lss)"]
    by (simp add: events_after_Nil [of "encode_event ls @ _"])
qed

section \<open>Properties\<close>

text \<open>
  C12. \<open>Scan\<close> calls the callback on exactly the events of the payload, in order, each with the
  joined data lines of one group of lines, and stops after the first call that returns false.
\<close>

theorem Scan_events: "Scan p fn st = run_events fn (events p) st"
  by (rule Scan_run)

text \<open>
  C29. Round trip: the events scanned from the wire form of a sequence of events (each with at
  least one data line, no line feed inside a line, no carriage return at its end) are these events.
\<close>

theorem events_roundtrip:
  assumes "list_all (\<lambda>ls. ls \<noteq> [] \<and> list_all plain_line ls) lss"
  shows "Scan (concat (map encode_event lss)) (\<lambda>e es. (True, es @ [e])) [] = map (\<lambda>ls. \<lparr>Data = Join ls [nl]\<rparr>) lss"
proof -
  have run: "run_events (\<lambda>e es. (True, es @ [e])) es acc = acc @ es" for es acc
    by (induction es arbitrary: acc) auto
  show ?thesis by (simp add: Scan_run run events_encoded [OF assms])
qed

theorem events_roundtrip_witness:
  "Scan (concat (map encode_event [[''a'', ''b''], [''[DONE]'']])) (\<lambda>e es. (True, es @ [e])) []
    = map (\<lambda>ls. \<lparr>Data = Join ls [nl]\<rparr>) [[''a'', ''b''], [''[DONE]'']]"
  by (rule events_roundtrip) (simp add: plain_line_def HasSuffix_def)

text \<open>
  A blank line is a boundary: the events of a payload that is cut after a blank line are the
  events of the two parts, so events never mix data from both sides.
\<close>

theorem events_boundary: "events (p @ [nl, nl] @ q) = events (p @ [nl, nl]) @ events q"
proof -
  have "payload_lines (p @ [nl, nl] @ q) = payload_lines (p @ [nl]) @ [] # payload_lines q"
    "payload_lines (p @ [nl, nl]) = payload_lines (p @ [nl]) @ [[]]"
    using split_lines_append [of p "nl # q"] split_lines_append [of p "[nl]"]
    by (simp_all add: payload_lines_def TrimSuffix_def)
  then show ?thesis using events_after_append [of "[]" "payload_lines (p @ [nl])" "payload_lines q"]
    by (simp add: events_after_Nil)
qed

end
