(* ===== verification/OpenAI.thy ===== *)
theory OpenAI
  imports Canon Sse Decode
begin

text \<open>
  Package \<open>internal/openai\<close>: the messages of a chat request (request.go) and the assistant
  message of a streamed or complete response (assistant.go). The Go map \<open>tools\<close> is an
  association list in the order of insertion, the text builder is a byte string, and a method on
  \<open>*accumulator\<close> maps the accumulator to the updated one.
\<close>

section \<open>request.go\<close>

text \<open>\<open>None\<close> is the result with \<open>ok\<close> false.\<close>

definition ParseChatRequest :: "bytes \<Rightarrow> bytes list option" where
  "ParseChatRequest body =
     (case unmarshal_raw_map body of None \<Rightarrow> None
      | Some tp \<Rightarrow> (case map_of tp ''messages'' of None \<Rightarrow> None
        | Some raw \<Rightarrow> unmarshal_raw_slice raw))"

record responseChoice =
  rc_Message :: bytes

record CompletionResponse =
  rs_Choices :: "responseChoice gslice"

definition zero_responseChoice :: responseChoice where
  "zero_responseChoice = \<lparr>rc_Message = []\<rparr>"

definition into_responseChoice :: "jtree \<Rightarrow> responseChoice \<Rightarrow> responseChoice option" where
  "into_responseChoice = into_struct [''message''] (\<lambda>_ raw _ c. Some (c\<lparr>rc_Message := raw\<rparr>))"

definition unmarshal_CompletionResponse :: "bytes \<Rightarrow> CompletionResponse option" where
  "unmarshal_CompletionResponse body =
     (case json_unmarshal body of None \<Rightarrow> None
      | Some v \<Rightarrow> into_struct [''choices'']
          (\<lambda>_ _ w r. map_option (\<lambda>cs. r\<lparr>rs_Choices := cs\<rparr>)
             (into_slice into_responseChoice zero_responseChoice w (rs_Choices r)))
          v \<lparr>rs_Choices = (0, [])\<rparr>)"

datatype openai_error =
    ErrComplexContent
  | ErrNoAssistantContent
  | DecodeCompletion
  | NoMessage
  | DecodeMessage
  | DecodeToolCalls
  | CanonError canon_error

definition ParseCompletionResponse :: "bytes \<Rightarrow> openai_error + bytes" where
  "ParseCompletionResponse body =
     (case unmarshal_CompletionResponse body of None \<Rightarrow> Inl DecodeCompletion
      | Some resp \<Rightarrow>
        (case elements (rs_Choices resp) of [] \<Rightarrow> Inl NoMessage
         | c # _ \<Rightarrow> if rc_Message c = [] then Inl NoMessage else Inr (rc_Message c)))"

section \<open>assistant.go: types\<close>

record toolCallState =
  ID :: bytes
  Type :: bytes
  Name :: bytes
  Arguments :: bytes

record accumulator =
  txt_buf :: bytes
  textSeen :: bool
  nullSeen :: bool
  complex :: bool
  tools :: "(int \<times> toolCallState) list"
  toolOrder :: "int list"

record functionDelta =
  fd_Name :: "bytes option"
  fd_Arguments :: "bytes option"

record toolCallDelta =
  td_Index :: "int option"
  td_ID :: bytes
  td_Type :: bytes
  td_Function :: functionDelta

record deltaLike =
  Content :: bytes
  ToolCalls :: "toolCallDelta gslice"
  ReasoningContent :: "bytes option"
  Reasoning :: "bytes option"

record streamChoice =
  sc_Index :: "int option"
  sc_Delta :: "deltaLike option"
  sc_Message :: "deltaLike option"
  sc_Text :: "bytes option"

record streamChunk =
  Choices :: "streamChoice gslice"

definition zero_toolCallState :: toolCallState where
  "zero_toolCallState = \<lparr>ID = [], Type = [], Name = [], Arguments = []\<rparr>"

definition zero_accumulator :: accumulator where
  "zero_accumulator =
     \<lparr>txt_buf = [], textSeen = False, nullSeen = False, complex = False, tools = [], toolOrder = []\<rparr>"

definition zero_toolCallDelta :: toolCallDelta where
  "zero_toolCallDelta =
     \<lparr>td_Index = None, td_ID = [], td_Type = [], td_Function = \<lparr>fd_Name = None, fd_Arguments = None\<rparr>\<rparr>"

definition zero_deltaLike :: deltaLike where
  "zero_deltaLike = \<lparr>Content = [], ToolCalls = (0, []), ReasoningContent = None, Reasoning = None\<rparr>"

definition zero_streamChoice :: streamChoice where
  "zero_streamChoice = \<lparr>sc_Index = None, sc_Delta = None, sc_Message = None, sc_Text = None\<rparr>"

section \<open>assistant.go: the struct tags\<close>

definition into_functionDelta :: "jtree \<Rightarrow> functionDelta \<Rightarrow> functionDelta option" where
  "into_functionDelta = into_struct [''name'', ''arguments'']
     (\<lambda>n _ v f.
        if n = ''name'' then map_option (\<lambda>x. f\<lparr>fd_Name := x\<rparr>) (into_string_ptr v)
        else map_option (\<lambda>x. f\<lparr>fd_Arguments := x\<rparr>) (into_string_ptr v))"

definition into_toolCallDelta :: "jtree \<Rightarrow> toolCallDelta \<Rightarrow> toolCallDelta option" where
  "into_toolCallDelta = into_struct [''index'', ''id'', ''type'', ''function'']
     (\<lambda>n _ v t.
        if n = ''index'' then map_option (\<lambda>x. t\<lparr>td_Index := x\<rparr>) (into_int_ptr v)
        else if n = ''id'' then map_option (\<lambda>x. t\<lparr>td_ID := x\<rparr>) (into_string v (td_ID t))
        else if n = ''type'' then map_option (\<lambda>x. t\<lparr>td_Type := x\<rparr>) (into_string v (td_Type t))
        else map_option (\<lambda>x. t\<lparr>td_Function := x\<rparr>) (into_functionDelta v (td_Function t)))"

definition into_deltaLike :: "jtree \<Rightarrow> deltaLike \<Rightarrow> deltaLike option" where
  "into_deltaLike = into_struct [''content'', ''tool_calls'', ''reasoning_content'', ''reasoning'']
     (\<lambda>n raw v d.
        if n = ''content'' then Some (d\<lparr>Content := raw\<rparr>)
        else if n = ''tool_calls'' then
          map_option (\<lambda>x. d\<lparr>ToolCalls := x\<rparr>) (into_slice into_toolCallDelta zero_toolCallDelta v (ToolCalls d))
        else if n = ''reasoning_content'' then map_option (\<lambda>x. d\<lparr>ReasoningContent := x\<rparr>) (into_string_ptr v)
        else map_option (\<lambda>x. d\<lparr>Reasoning := x\<rparr>) (into_string_ptr v))"

definition into_streamChoice :: "jtree \<Rightarrow> streamChoice \<Rightarrow> streamChoice option" where
  "into_streamChoice = into_struct [''index'', ''delta'', ''message'', ''text'']
     (\<lambda>n _ v c.
        if n = ''index'' then map_option (\<lambda>x. c\<lparr>sc_Index := x\<rparr>) (into_int_ptr v)
        else if n = ''delta'' then
          map_option (\<lambda>x. c\<lparr>sc_Delta := x\<rparr>) (into_ptr into_deltaLike zero_deltaLike v (sc_Delta c))
        else if n = ''message'' then
          map_option (\<lambda>x. c\<lparr>sc_Message := x\<rparr>) (into_ptr into_deltaLike zero_deltaLike v (sc_Message c))
        else map_option (\<lambda>x. c\<lparr>sc_Text := x\<rparr>) (into_string_ptr v))"

definition into_streamChunk :: "jtree \<Rightarrow> streamChunk \<Rightarrow> streamChunk option" where
  "into_streamChunk = into_struct [''choices'']
     (\<lambda>_ _ v ch. map_option (\<lambda>x. ch\<lparr>Choices := x\<rparr>)
        (into_slice into_streamChoice zero_streamChoice v (Choices ch)))"

definition unmarshal_streamChunk :: "bytes \<Rightarrow> streamChunk option" where
  "unmarshal_streamChunk b =
     (case json_unmarshal b of None \<Rightarrow> None | Some v \<Rightarrow> into_streamChunk v \<lparr>Choices = (0, [])\<rparr>)"

section \<open>assistant.go: the accumulator\<close>

text \<open>
  \<open>tool\<close> returns a pointer to the state of a call, created on first use; \<open>with_tool\<close> is the
  call of \<open>tool\<close> followed by the assignments through that pointer.
\<close>

definition tool :: "int \<Rightarrow> accumulator \<Rightarrow> accumulator" where
  "tool idx a =
     (if map_of (tools a) idx = None
      then a\<lparr>tools := AList.update idx zero_toolCallState (tools a), toolOrder := toolOrder a @ [idx]\<rparr>
      else a)"

definition with_tool :: "int \<Rightarrow> (toolCallState \<Rightarrow> toolCallState) \<Rightarrow> accumulator \<Rightarrow> accumulator" where
  "with_tool idx f a =
     (let a' = tool idx a in
      a'\<lparr>tools := AList.update idx (f (the (map_of (tools a') idx))) (tools a')\<rparr>)"

definition merge_content :: "bytes \<Rightarrow> accumulator \<Rightarrow> accumulator" where
  "merge_content c a =
     (if c = [] then a
      else if TrimSpace c = ''null'' then a\<lparr>nullSeen := True\<rparr>
      else (case unmarshal_string c of
              None \<Rightarrow> a\<lparr>complex := True\<rparr>
            | Some s \<Rightarrow> a\<lparr>txt_buf := txt_buf a @ s, textSeen := True\<rparr>))"

definition merge_call :: "toolCallDelta \<Rightarrow> toolCallState \<Rightarrow> toolCallState" where
  "merge_call tc st =
     (let st1 = (if td_ID tc \<noteq> [] \<and> ID st = [] then st\<lparr>ID := td_ID tc\<rparr> else st);
          st2 = (if td_Type tc \<noteq> [] \<and> Type st1 = [] then st1\<lparr>Type := td_Type tc\<rparr> else st1);
          st3 = (case fd_Name (td_Function tc) of None \<Rightarrow> st2
                 | Some n \<Rightarrow>
                    if n = [] then st2
                    else if Name st2 = [] then st2\<lparr>Name := n\<rparr>
                    else if n \<noteq> Name st2 then st2\<lparr>Name := Name st2 @ n\<rparr>
                    else st2)
      in (case fd_Arguments (td_Function tc) of None \<Rightarrow> st3
          | Some x \<Rightarrow> st3\<lparr>Arguments := Arguments st3 @ x\<rparr>))"

definition index_or_0 :: "int option \<Rightarrow> int" where
  "index_or_0 i = (case i of None \<Rightarrow> 0 | Some n \<Rightarrow> n)"

definition merge_tool :: "toolCallDelta \<Rightarrow> accumulator \<Rightarrow> accumulator" where
  "merge_tool tc a = with_tool (index_or_0 (td_Index tc)) (merge_call tc) a"

definition mergeDelta :: "deltaLike \<Rightarrow> accumulator \<Rightarrow> accumulator" where
  "mergeDelta d a = fold merge_tool (elements (ToolCalls d)) (merge_content (Content d) a)"

definition empty :: "accumulator \<Rightarrow> bool" where
  "empty a \<longleftrightarrow> \<not> textSeen a \<and> \<not> nullSeen a \<and> \<not> complex a \<and> tools a = []"

definition call_value :: "toolCallState \<Rightarrow> goany" where
  "call_value tc =
     (let fn = [(''arguments'', AString (Arguments tc))];
          fn = (if Name tc \<noteq> [] then AList.update ''name'' (AString (Name tc)) fn else fn);
          call = [(''function'', AMap fn)];
          call = (if ID tc \<noteq> [] then AList.update ''id'' (AString (ID tc)) call else call);
          call = (if Type tc \<noteq> [] then AList.update ''type'' (AString (Type tc)) call else call)
      in AMap call)"

definition assistant_value :: "accumulator \<Rightarrow> goany" where
  "assistant_value a =
     (let m = [(''role'', AString ''assistant'')];
          m = (if textSeen a then AList.update ''content'' (AString (txt_buf a)) m
               else if nullSeen a then AList.update ''content'' ANil m
               else m);
          m = (if tools a \<noteq> []
               then AList.update ''tool_calls''
                      (ASlice (map (\<lambda>idx. call_value (the (map_of (tools a) idx))) (sort (toolOrder a)))) m
               else m)
      in AMap m)"

definition canonical :: "accumulator \<Rightarrow> openai_error + bytes" where
  "canonical a =
     (if complex a then Inl ErrComplexContent
      else if empty a then Inl ErrNoAssistantContent
      else (case CanonicalValue (assistant_value a) of Inl e \<Rightarrow> Inl (CanonError e) | Inr c \<Rightarrow> Inr c))"

section \<open>assistant.go: entry points\<close>

text \<open>The body of the loop over the choices of a chunk.\<close>

definition merge_choice :: "streamChoice \<Rightarrow> accumulator \<Rightarrow> accumulator" where
  "merge_choice c root =
     (if index_or_0 (sc_Index c) \<noteq> 0 then root
      else (let r1 = (case sc_Delta c of None \<Rightarrow> root | Some d \<Rightarrow> mergeDelta d root);
                r2 = (case sc_Message c of None \<Rightarrow> r1 | Some d \<Rightarrow> mergeDelta d r1)
            in (case sc_Text c of None \<Rightarrow> r2
                | Some t \<Rightarrow> if t = [] then r2 else r2\<lparr>txt_buf := txt_buf r2 @ t, textSeen := True\<rparr>)))"

text \<open>The callback given to \<open>sse.Scan\<close>; it captures \<open>root\<close> and \<open>sawDone\<close>.\<close>

definition on_event :: "(accumulator \<times> bool) event_fn" where
  "on_event ev st =
     (case st of (root, sawDone) \<Rightarrow>
        let data = TrimSpace (Data ev) in
        if data = ''[DONE]'' then (False, (root, True))
        else (case unmarshal_streamChunk data of
                None \<Rightarrow> (True, (root, sawDone))
              | Some ch \<Rightarrow> (True, (fold merge_choice (elements (Choices ch)) root, sawDone))))"

definition AssistantFromSSE :: "bytes \<Rightarrow> bool \<times> (openai_error + bytes)" where
  "AssistantFromSSE payload =
     (case Scan payload on_event (zero_accumulator, False) of (root, sawDone) \<Rightarrow> (sawDone, canonical root))"

text \<open>The assignments to one tool call of a complete message: later values replace earlier ones.\<close>

definition set_call :: "toolCallDelta \<Rightarrow> toolCallState \<Rightarrow> toolCallState" where
  "set_call tc st =
     (let st1 = (if td_ID tc \<noteq> [] then st\<lparr>ID := td_ID tc\<rparr> else st);
          st2 = (if td_Type tc \<noteq> [] then st1\<lparr>Type := td_Type tc\<rparr> else st1);
          st3 = (case fd_Name (td_Function tc) of None \<Rightarrow> st2 | Some n \<Rightarrow> st2\<lparr>Name := n\<rparr>)
      in (case fd_Arguments (td_Function tc) of None \<Rightarrow> st3 | Some x \<Rightarrow> st3\<lparr>Arguments := x\<rparr>))"

definition unmarshal_tool_calls :: "bytes \<Rightarrow> toolCallDelta list option" where
  "unmarshal_tool_calls raw =
     (case json_unmarshal raw of None \<Rightarrow> None
      | Some v \<Rightarrow> map_option elements (into_slice into_toolCallDelta zero_toolCallDelta v (0, [])))"

definition AssistantFromMessage :: "bytes \<Rightarrow> openai_error + bytes" where
  "AssistantFromMessage raw =
     (case unmarshal_raw_map raw of None \<Rightarrow> Inl DecodeMessage
      | Some m \<Rightarrow>
        (let a = (case map_of m ''content'' of None \<Rightarrow> zero_accumulator
                  | Some c \<Rightarrow> mergeDelta (zero_deltaLike\<lparr>Content := c\<rparr>) zero_accumulator)
         in (case map_of m ''tool_calls'' of None \<Rightarrow> canonical a
             | Some tcRaw \<Rightarrow>
               (case unmarshal_tool_calls tcRaw of None \<Rightarrow> Inl DecodeToolCalls
                | Some arr \<Rightarrow>
                  canonical (fold (\<lambda>(i, tc). with_tool (int i) (set_call tc)) (enumerate 0 arr) a)))))"

section \<open>Well-formed decoder results\<close>

definition function_ok :: "functionDelta \<Rightarrow> bool" where
  "function_ok f \<longleftrightarrow> pred_option valid_utf8 (fd_Name f) \<and> pred_option valid_utf8 (fd_Arguments f)"

definition call_delta_ok :: "toolCallDelta \<Rightarrow> bool" where
  "call_delta_ok t \<longleftrightarrow> valid_utf8 (td_ID t) \<and> valid_utf8 (td_Type t) \<and> function_ok (td_Function t)"

definition delta_ok :: "deltaLike \<Rightarrow> bool" where
  "delta_ok d \<longleftrightarrow> list_all call_delta_ok (snd (ToolCalls d))"

definition choice_ok :: "streamChoice \<Rightarrow> bool" where
  "choice_ok c \<longleftrightarrow> pred_option delta_ok (sc_Delta c) \<and> pred_option delta_ok (sc_Message c)
     \<and> pred_option valid_utf8 (sc_Text c)"

lemma zero_ok [simp]: "call_delta_ok zero_toolCallDelta" "delta_ok zero_deltaLike" "choice_ok zero_streamChoice"
  by (simp_all add: call_delta_ok_def zero_toolCallDelta_def function_ok_def delta_ok_def zero_deltaLike_def
      choice_ok_def zero_streamChoice_def)

lemma into_functionDelta_ok:
  assumes "into_functionDelta v f = Some f'" "jvalid v" "function_ok f"
  shows "function_ok f'"
  using assms unfolding into_functionDelta_def
  by (rule into_struct_inv) (auto simp: function_ok_def split: if_splits dest: into_scalar_valid)

lemma into_toolCallDelta_ok:
  assumes "into_toolCallDelta v t = Some t'" "jvalid v" "call_delta_ok t"
  shows "call_delta_ok t'"
  using assms unfolding into_toolCallDelta_def
  by (rule into_struct_inv)
    (auto simp: call_delta_ok_def split: if_splits dest: into_scalar_valid into_functionDelta_ok)

lemma into_calls_ok:
  "into_slice into_toolCallDelta zero_toolCallDelta v old = Some new \<Longrightarrow> jvalid v \<Longrightarrow>
    list_all call_delta_ok (snd old) \<Longrightarrow> list_all call_delta_ok (snd new)"
  by (erule into_slice_inv) (auto dest: into_toolCallDelta_ok)

lemma into_deltaLike_ok:
  assumes "into_deltaLike v d = Some d'" "jvalid v" "delta_ok d"
  shows "delta_ok d'"
  using assms unfolding into_deltaLike_def
  by (rule into_struct_inv) (auto simp: delta_ok_def split: if_splits dest: into_calls_ok)

lemma into_delta_ptr_ok:
  "into_ptr into_deltaLike zero_deltaLike v old = Some new \<Longrightarrow> jvalid v \<Longrightarrow>
    pred_option delta_ok old \<Longrightarrow> pred_option delta_ok new"
  by (erule into_ptr_inv) (auto dest: into_deltaLike_ok)

lemma into_streamChoice_ok:
  assumes "into_streamChoice v c = Some c'" "jvalid v" "choice_ok c"
  shows "choice_ok c'"
  using assms unfolding into_streamChoice_def
  by (rule into_struct_inv)
    (auto simp: choice_ok_def split: if_splits dest: into_scalar_valid(2) into_delta_ptr_ok)

lemma into_choices_ok:
  "into_slice into_streamChoice zero_streamChoice v old = Some new \<Longrightarrow> jvalid v \<Longrightarrow>
    list_all choice_ok (snd old) \<Longrightarrow> list_all choice_ok (snd new)"
  by (erule into_slice_inv) (auto dest: into_streamChoice_ok)

lemma into_streamChunk_ok:
  assumes "into_streamChunk v ch = Some ch'" "jvalid v" "list_all choice_ok (snd (Choices ch))"
  shows "list_all choice_ok (snd (Choices ch'))"
  using assms unfolding into_streamChunk_def
  by (rule into_struct_inv [where P = "\<lambda>ch. list_all choice_ok (snd (Choices ch))"]) (auto dest: into_choices_ok)

lemma unmarshal_streamChunk_ok:
  assumes "unmarshal_streamChunk b = Some ch"
  shows "list_all choice_ok (elements (Choices ch))"
proof -
  obtain v where v: "json_unmarshal b = Some v" "into_streamChunk v \<lparr>Choices = (0, [])\<rparr> = Some ch"
    using assms by (auto simp: unmarshal_streamChunk_def split: option.splits)
  from into_streamChunk_ok [OF v(2) unmarshal_jvalid [OF v(1)]] show ?thesis by (simp add: elements_inv)
qed

section \<open>The accumulator invariant\<close>

definition call_ok :: "toolCallState \<Rightarrow> bool" where
  "call_ok st \<longleftrightarrow> valid_utf8 (ID st) \<and> valid_utf8 (Type st) \<and> valid_utf8 (Name st) \<and> valid_utf8 (Arguments st)"

text \<open>Every string is valid UTF-8; \<open>toolOrder\<close> lists the keys of \<open>tools\<close>, each once.\<close>

definition acc_ok :: "accumulator \<Rightarrow> bool" where
  "acc_ok a \<longleftrightarrow> valid_utf8 (txt_buf a) \<and> toolOrder a = map fst (tools a) \<and> distinct (toolOrder a) \<and>
     list_all (call_ok \<circ> snd) (tools a)"

lemma acc_ok_zero [simp]: "acc_ok zero_accumulator"
  by (simp add: acc_ok_def zero_accumulator_def)

lemma map_fst_update:
  "map fst (AList.update k v m) = (if k \<in> fst ` set m then map fst m else map fst m @ [k])"
  by (induction m) auto

lemma set_update_sub: "set (AList.update k v m) \<subseteq> insert (k, v) (set m)"
  by (induction m) auto

lemma acc_ok_tool: "acc_ok a \<Longrightarrow> acc_ok (tool idx a)"
  using set_update_sub [of idx zero_toolCallState "tools a"]
  by (auto simp: acc_ok_def tool_def map_fst_update map_of_eq_None_iff list_all_iff call_ok_def zero_toolCallState_def)

lemma tool_present: "idx \<in> fst ` set (tools (tool idx a))"
  by (auto simp: tool_def map_of_eq_None_iff update_conv' dom_update)

lemma acc_ok_with_tool:
  assumes "acc_ok a" "\<And>st. call_ok st \<Longrightarrow> call_ok (f st)"
  shows "acc_ok (with_tool idx f a)"
proof -
  let ?a = "tool idx a"
  have ok: "acc_ok ?a" using assms(1) by (rule acc_ok_tool)
  obtain st where st: "map_of (tools ?a) idx = Some st"
    using tool_present [of idx a] by (metis map_of_eq_None_iff option.exhaust)
  then have "call_ok st" using ok by (auto simp: acc_ok_def list_all_iff dest!: map_of_SomeD)
  then have "call_ok (f st)" by (rule assms(2))
  then have "list_all (call_ok \<circ> snd) (AList.update idx (f st) (tools ?a))"
    using ok set_update_sub [of idx "f st" "tools ?a"] unfolding acc_ok_def list_all_iff by auto
  moreover have "map fst (AList.update idx (f st) (tools ?a)) = map fst (tools ?a)"
    using tool_present [of idx a] by (simp add: map_fst_update)
  ultimately show ?thesis using ok st by (auto simp: acc_ok_def with_tool_def Let_def)
qed

lemma call_ok_merge: "call_delta_ok tc \<Longrightarrow> call_ok st \<Longrightarrow> call_ok (merge_call tc st)"
  by (auto simp: call_ok_def call_delta_ok_def function_ok_def merge_call_def Let_def split: option.splits)

lemma call_ok_set: "call_delta_ok tc \<Longrightarrow> call_ok st \<Longrightarrow> call_ok (set_call tc st)"
  by (auto simp: call_ok_def call_delta_ok_def function_ok_def set_call_def Let_def split: option.splits)

lemma acc_ok_merge_content: "acc_ok a \<Longrightarrow> acc_ok (merge_content c a)"
  by (auto simp: acc_ok_def merge_content_def unmarshal_string_def split: option.splits
      dest: unmarshal_jvalid into_scalar_valid(1))

lemma acc_ok_fold: "list_all P xs \<Longrightarrow> (\<And>x a. P x \<Longrightarrow> acc_ok a \<Longrightarrow> acc_ok (f x a)) \<Longrightarrow> acc_ok a \<Longrightarrow> acc_ok (fold f xs a)"
  by (induction xs arbitrary: a) auto

lemma acc_ok_mergeDelta: "delta_ok d \<Longrightarrow> acc_ok a \<Longrightarrow> acc_ok (mergeDelta d a)"
  unfolding mergeDelta_def merge_tool_def delta_ok_def
  by (rule acc_ok_fold [OF elements_inv [where P = call_delta_ok]])
    (auto intro: acc_ok_with_tool call_ok_merge acc_ok_merge_content)

lemma acc_ok_merge_choice:
  assumes "choice_ok c" "acc_ok a"
  shows "acc_ok (merge_choice c a)"
proof -
  have "acc_ok (a\<lparr>txt_buf := txt_buf a @ t, textSeen := True\<rparr>)" if "acc_ok a" "valid_utf8 t" for a t
    using that by (auto simp: acc_ok_def)
  with assms show ?thesis
    by (auto simp: merge_choice_def choice_ok_def Let_def acc_ok_mergeDelta split: option.splits)
qed

lemma valid_words [simp]: "valid_utf8 ''role''" "valid_utf8 ''assistant''" "valid_utf8 ''content''"
  "valid_utf8 ''tool_calls''" "valid_utf8 ''arguments''" "valid_utf8 ''name''" "valid_utf8 ''function''"
  "valid_utf8 ''id''" "valid_utf8 ''type''"
  by code_simp+

lemma call_value_wf: "call_ok st \<Longrightarrow> wf_any (call_value st) \<and> (2 \<le> d \<longrightarrow> fits d (call_value st))"
  by (auto simp: call_value_def Let_def call_ok_def)

lemma assistant_value_wf:
  assumes "acc_ok a"
  shows "wf_any (assistant_value a)" "fits maxNestingDepth (assistant_value a)"
proof -
  let ?calls = "map (\<lambda>idx. call_value (the (map_of (tools a) idx))) (sort (toolOrder a))"
  have "call_ok (the (map_of (tools a) idx))" if "idx \<in> set (toolOrder a)" for idx
    using assms that by (auto simp: acc_ok_def list_all_iff)
  then have wf: "wf_any (ASlice ?calls)" and "fits (maxNestingDepth - Suc 0) (ASlice ?calls)"
    using call_value_wf by (auto simp: list_all_iff maxNestingDepth_def)
  moreover have "maxNestingDepth \<noteq> 0" by (simp add: maxNestingDepth_def)
  ultimately show "wf_any (assistant_value a)" "fits maxNestingDepth (assistant_value a)"
    using assms by (auto simp: assistant_value_def Let_def acc_ok_def simp del: wf_any.simps(5) fits.simps(1))
qed

lemma canonical_ok:
  assumes "acc_ok a"
  shows "canonical a =
    (if complex a then Inl ErrComplexContent
     else if empty a then Inl ErrNoAssistantContent
     else Inr (render WriteString (assistant_value a)))"
  using assistant_value_wf [OF assms] by (simp add: canonical_def CanonicalValue_render)

lemma canonical_canonical: "acc_ok a \<Longrightarrow> canonical a = Inr c \<Longrightarrow> is_canonical c"
  using assistant_value_wf [of a] Canonicalize_render(1) by (auto simp: canonical_ok is_canonical_def split: if_splits)

lemma AssistantFromMessage_canonical:
  assumes "AssistantFromMessage raw = Inr c"
  shows "is_canonical c"
proof -
  have calls: "list_all call_delta_ok arr" if u: "unmarshal_tool_calls b = Some arr" for b arr
  proof -
    obtain v new where v: "json_unmarshal b = Some v" "into_slice into_toolCallDelta zero_toolCallDelta v (0, []) = Some new" "arr = elements new"
      using u by (auto simp: unmarshal_tool_calls_def split: option.splits)
    from into_calls_ok [OF v(2) unmarshal_jvalid [OF v(1)]] show ?thesis by (simp add: v(3) elements_inv)
  qed
  have delta: "delta_ok (zero_deltaLike\<lparr>Content := b\<rparr>)" for b by (simp add: delta_ok_def zero_deltaLike_def)
  have fold: "acc_ok (fold (\<lambda>(i, tc). with_tool (int i) (set_call tc)) (enumerate 0 arr) a)"
    if "list_all call_delta_ok arr" "acc_ok a" for arr a
    by (rule acc_ok_fold [where P = "\<lambda>x. call_delta_ok (snd x)"])
      (use that in \<open>auto simp: list_all_iff in_set_enumerate_eq intro!: acc_ok_with_tool call_ok_set\<close>)
  have merge: "acc_ok (mergeDelta (zero_deltaLike\<lparr>Content := b\<rparr>) zero_accumulator)" for b
    by (rule acc_ok_mergeDelta [OF delta acc_ok_zero])
  show ?thesis using assms
    by (auto simp: AssistantFromMessage_def Let_def intro: merge fold [OF calls] elim!: canonical_canonical [rotated] split: option.splits)
qed

section \<open>What a stream amounts to\<close>

definition is_done :: "Event \<Rightarrow> bool" where
  "is_done ev \<longleftrightarrow> TrimSpace (Data ev) = ''[DONE]''"

definition event_choices :: "Event \<Rightarrow> streamChoice list" where
  "event_choices ev =
     (case unmarshal_streamChunk (TrimSpace (Data ev)) of None \<Rightarrow> [] | Some ch \<Rightarrow> elements (Choices ch))"

lemma run_on_event:
  "run_events on_event es (root, sd) =
    (fold merge_choice (concat (map event_choices (takeWhile (Not \<circ> is_done) es))) root, sd \<or> list_ex is_done es)"
  by (induction es arbitrary: root)
    (auto simp: on_event_def is_done_def event_choices_def Let_def split: option.splits)

definition primary :: "streamChoice \<Rightarrow> bool" where
  "primary c \<longleftrightarrow> index_or_0 (sc_Index c) = 0"

lemma fold_primary: "fold merge_choice cs root = fold merge_choice (filter primary cs) root"
  by (induction cs arbitrary: root) (auto simp: merge_choice_def primary_def)

lemma event_choices_ok: "list_all choice_ok (event_choices ev)"
  using unmarshal_streamChunk_ok by (auto simp: event_choices_def split: option.splits)

definition stream_choices :: "bytes \<Rightarrow> streamChoice list" where
  "stream_choices p = filter primary (concat (map event_choices (takeWhile (Not \<circ> is_done) (events p))))"

lemma AssistantFromSSE_unfold:
  "AssistantFromSSE p = (list_ex is_done (events p), canonical (fold merge_choice (stream_choices p) zero_accumulator))"
  using fold_primary by (simp add: AssistantFromSSE_def Scan_run run_on_event stream_choices_def)

lemma acc_ok_stream: "acc_ok (fold merge_choice (stream_choices p) zero_accumulator)"
proof (rule acc_ok_fold [where P = choice_ok])
  show "list_all choice_ok (stream_choices p)"
    using event_choices_ok by (auto simp: stream_choices_def list_all_iff)
qed (auto intro: acc_ok_merge_choice)

section \<open>Text streams\<close>

definition text_chunk :: "bytes \<Rightarrow> bytes" where
  "text_chunk t = ''{\"choices\":[{\"delta\":{\"content\":'' @ WriteString t @ ''}}]}''"

definition text_stream :: "bytes list \<Rightarrow> bytes" where
  "text_stream ts = concat (map encode_event (map (\<lambda>t. [text_chunk t]) ts @ [[''[DONE]'']]))"

text \<open>The message a client sends back as part of the next request, and its canonical form.\<close>

definition echo_message :: "bytes \<Rightarrow> bytes" where
  "echo_message t = ''{\"role\":\"assistant\",\"content\":'' @ WriteString t @ ''}''"

definition echo_canonical :: "bytes \<Rightarrow> bytes" where
  "echo_canonical t = ''{\"content\":'' @ WriteString t @ '',\"role\":\"assistant\"}''"

lemmas jparse = jvalue_Cons [of "Suc _"] jmembers.simps [of _ "dquote # _"] jelems.simps [of _ "CHR ''{'' # _"]
  jvalue_WriteString skip_ws_WriteString encode_rune_ascii char_of_def bit_Suc_0_iff

lemma content_object:
  "jvalue (Suc d) (''{\"content\":'' @ WriteString t @ CHR ''}'' # u)
    = Some (JObj [(''content'', WriteString t, JStr (utf8 (runes t)))], u)"
  by (simp add: jparse)

lemma delta_object:
  "jvalue (Suc (Suc d)) (''{\"delta\":{\"content\":'' @ WriteString t @ CHR ''}'' # CHR ''}'' # u)
    = Some (JObj [(''delta'', ''{\"content\":'' @ WriteString t @ ''}'',
        JObj [(''content'', WriteString t, JStr (utf8 (runes t)))])], u)"
  using content_object [of d t "CHR ''}'' # u"] consumed_append [of "''{\"content\":'' @ WriteString t @ ''}''" "CHR ''}'' # u"]
  by (simp add: jparse)


lemma chunk_object:
  "\<exists>r1 r2 r3. jvalue (Suc (Suc (Suc (Suc d)))) (text_chunk t) =
    Some (JObj [(''choices'', r1, JArr [(r2, JObj [(''delta'', r3,
      JObj [(''content'', WriteString t, JStr (utf8 (runes t)))])])])], [])"
  using delta_object [of d t "'']}''"] by (simp add: text_chunk_def jparse)

lemma unmarshal_text_chunk:
  "unmarshal_streamChunk (text_chunk t) =
    Some \<lparr>Choices = (1, [zero_streamChoice\<lparr>sc_Delta := Some (zero_deltaLike\<lparr>Content := WriteString t\<rparr>)\<rparr>])\<rparr>"
proof -
  have "maxNestingDepth = Suc (Suc (Suc (Suc 9996)))" by (simp add: maxNestingDepth_def)
  moreover have "skip_ws (text_chunk t) = text_chunk t" by (simp add: text_chunk_def)
  ultimately obtain r1 r2 r3 where "json_unmarshal (text_chunk t) =
      Some (JObj [(''choices'', r1, JArr [(r2, JObj [(''delta'', r3,
        JObj [(''content'', WriteString t, JStr (utf8 (runes t)))])])])])"
    using chunk_object [of 9996 t] by (auto simp only: json_unmarshal_def) (simp add: skip_ws_def)
  then show ?thesis
    by (simp add: unmarshal_streamChunk_def into_streamChunk_def into_struct_def find_field_def into_slice_def
        into_streamChoice_def into_ptr_def into_deltaLike_def zero_streamChoice_def)
qed

lemma TrimSpace_WriteString: "TrimSpace (WriteString t) = WriteString t"
  by (rule TrimSpace_id) (simp_all add: WriteString_def space_lead_bytes_def space_last_bytes_def space_seqs_def)

lemma merge_WriteString:
  "valid_utf8 t \<Longrightarrow> merge_content (WriteString t) a = a\<lparr>txt_buf := txt_buf a @ t, textSeen := True\<rparr>"
proof -
  assume "valid_utf8 t"
  then have "json_unmarshal (WriteString t) = Some (JStr t)"
    using jvalue_WriteString [of maxNestingDepth t "[]"] skip_ws_WriteString [of t "[]"]
    by (simp add: json_unmarshal_def valid_utf8_def skip_ws_def [of "[]"])
  then show ?thesis using TrimSpace_WriteString [of t]
    by (simp add: merge_content_def unmarshal_string_def into_string_def WriteString_def)
qed

lemma text_chunk_plain: "plain_line (text_chunk t)"
  using WriteString_no_control [of nl t] by (auto simp: plain_line_def text_chunk_def HasSuffix_def)

lemma TrimSpace_text_chunk: "TrimSpace (text_chunk t) = text_chunk t"
  by (rule TrimSpace_id) (simp_all add: text_chunk_def space_lead_bytes_def space_last_bytes_def space_seqs_def)

lemma TrimSpace_done: "TrimSpace ''[DONE]'' = ''[DONE]''"
  by (rule TrimSpace_id) (simp_all add: space_lead_bytes_def space_last_bytes_def space_seqs_def)

lemma events_text_stream: "events (text_stream ts) = map (\<lambda>t. \<lparr>Data = text_chunk t\<rparr>) ts @ [\<lparr>Data = ''[DONE]''\<rparr>]"
proof -
  have "plain_line ''[DONE]''" by (simp add: plain_line_def HasSuffix_def)
  then show ?thesis unfolding text_stream_def
    by (subst events_encoded) (auto simp: list_all_iff text_chunk_plain)
qed

lemma fold_text_stream:
  assumes "list_all valid_utf8 ts"
  shows "fold merge_choice (stream_choices (text_stream ts)) zero_accumulator
    = zero_accumulator\<lparr>txt_buf := concat ts, textSeen := (ts \<noteq> [])\<rparr>"
proof -
  let ?c = "\<lambda>t. zero_streamChoice\<lparr>sc_Delta := Some (zero_deltaLike\<lparr>Content := WriteString t\<rparr>)\<rparr>"
  have "text_chunk t \<noteq> ''[DONE]''" for t by (simp add: text_chunk_def)
  then have nd: "\<not> is_done \<lparr>Data = text_chunk t\<rparr>" and d: "is_done \<lparr>Data = ''[DONE]''\<rparr>" for t
    by (simp_all add: is_done_def TrimSpace_text_chunk TrimSpace_done)
  have "event_choices \<lparr>Data = text_chunk t\<rparr> = [?c t]" for t
    by (simp add: event_choices_def TrimSpace_text_chunk unmarshal_text_chunk elements_def)
  then have "stream_choices (text_stream ts) = map ?c ts"
    using nd d by (simp add: stream_choices_def events_text_stream comp_def takeWhile_append primary_def index_or_0_def
        zero_streamChoice_def filter_map)
  moreover have "merge_choice (?c t) a = a\<lparr>txt_buf := txt_buf a @ t, textSeen := True\<rparr>" if "valid_utf8 t" for t a
    using that by (simp add: merge_choice_def index_or_0_def zero_streamChoice_def zero_deltaLike_def mergeDelta_def
        elements_def merge_WriteString)
  then have "fold merge_choice (map ?c ts) a = a\<lparr>txt_buf := txt_buf a @ concat ts, textSeen := (textSeen a \<or> ts \<noteq> [])\<rparr>" for a
    using assms by (induction ts arbitrary: a) auto
  ultimately show ?thesis by (simp add: zero_accumulator_def)
qed

lemma canonical_text:
  assumes "valid_utf8 t"
  shows "canonical (zero_accumulator\<lparr>txt_buf := t, textSeen := True\<rparr>) = Inr (echo_canonical t)"
proof -
  let ?a = "zero_accumulator\<lparr>txt_buf := t, textSeen := True\<rparr>"
  have "acc_ok ?a" using assms by (simp add: acc_ok_def zero_accumulator_def)
  moreover have "WriteString ''role'' = ''\"role\"''" "WriteString ''content'' = ''\"content\"''"
    "WriteString ''assistant'' = ''\"assistant\"''" by code_simp+
  ultimately show ?thesis
    by (simp add: canonical_ok empty_def zero_accumulator_def assistant_value_def Let_def echo_canonical_def)
qed

lemma echo_object:
  "jvalue (Suc d) (echo_message t) = Some (JObj [(''role'', ''\"assistant\"'', JStr ''assistant''),
    (''content'', WriteString t, JStr (utf8 (runes t)))], [])"
  by (simp add: jparse jvalue_Cons consumed_def echo_message_def)


lemma unmarshal_echo:
  assumes "valid_utf8 t"
  shows "json_unmarshal (echo_message t) = Some (JObj [(''role'', ''\"assistant\"'', JStr ''assistant''),
      (''content'', WriteString t, JStr t)])"
    and "Canonicalize (echo_message t) = Inr (echo_canonical t)"
    and "AssistantFromMessage (echo_message t) = Inr (echo_canonical t)"
proof -
  have d: "maxNestingDepth = Suc 9999" by (simp add: maxNestingDepth_def)
  have sk: "skip_ws (echo_message t) = echo_message t" by (simp add: echo_message_def)
  have u: "utf8 (runes t) = t" using assms by (simp add: valid_utf8_def)
  show j: "json_unmarshal (echo_message t) = Some (JObj [(''role'', ''\"assistant\"'', JStr ''assistant''),
      (''content'', WriteString t, JStr t)])"
    using echo_object [of 9999 t] by (simp add: json_unmarshal_def d sk u skip_ws_def [of "[]"])
  have "json_decode (echo_message t) = Some (JObj [(''role'', ''\"assistant\"'', JStr ''assistant''),
      (''content'', WriteString t, JStr t)])"
    using echo_object [of 9999 t] by (simp add: json_decode_def d sk u)
  moreover have "WriteString ''role'' = ''\"role\"''" "WriteString ''content'' = ''\"content\"''"
    "WriteString ''assistant'' = ''\"assistant\"''" by code_simp+
  ultimately show "Canonicalize (echo_message t) = Inr (echo_canonical t)"
    by (simp add: Canonicalize_Inr put_all_def echo_canonical_def)
  have "merge_content (WriteString t) zero_accumulator = zero_accumulator\<lparr>txt_buf := t, textSeen := True\<rparr>"
    using merge_WriteString [OF assms, of zero_accumulator] by (simp add: zero_accumulator_def)
  then show "AssistantFromMessage (echo_message t) = Inr (echo_canonical t)"
    using canonical_text [OF assms]
    by (simp add: AssistantFromMessage_def unmarshal_raw_map_def j put_all_def mergeDelta_def zero_deltaLike_def elements_def)
qed

section \<open>Tool calls\<close>

lemma lookup_with_tool:
  "map_of (tools (with_tool i f a)) j =
    (if j = i then Some (f (case map_of (tools a) i of None \<Rightarrow> zero_toolCallState | Some st \<Rightarrow> st))
     else map_of (tools a) j)"
  by (auto simp: with_tool_def tool_def Let_def update_conv' split: option.splits)

definition calls_of :: "int \<Rightarrow> toolCallDelta list \<Rightarrow> toolCallDelta list" where
  "calls_of i tcs = filter (\<lambda>tc. index_or_0 (td_Index tc) = i) tcs"

lemma lookup_merged:
  "map_of (tools (fold merge_tool tcs a)) i =
    (if calls_of i tcs = [] then map_of (tools a) i
     else Some (fold merge_call (calls_of i tcs) (case map_of (tools a) i of None \<Rightarrow> zero_toolCallState | Some st \<Rightarrow> st)))"
  by (induction tcs arbitrary: a) (auto simp: calls_of_def merge_tool_def lookup_with_tool split: option.splits)

definition arguments_of :: "toolCallDelta \<Rightarrow> bytes" where
  "arguments_of tc = (case fd_Arguments (td_Function tc) of None \<Rightarrow> [] | Some x \<Rightarrow> x)"

lemma merged_arguments: "Arguments (fold merge_call tcs st) = Arguments st @ concat (map arguments_of tcs)"
proof (induction tcs arbitrary: st)
  case (Cons tc tcs)
  have "Arguments (merge_call tc st) = Arguments st @ arguments_of tc"
    by (auto simp: merge_call_def arguments_of_def Let_def split: option.splits)
  with Cons show ?case by simp
qed simp

lemma parsed_messages_canonical:
  assumes "ParseChatRequest body = Some msgs"
  shows "list_all (\<lambda>m. \<exists>c. Canonicalize m = Inr c \<and> is_canonical c) msgs"
proof -
  obtain raw where "unmarshal_raw_slice raw = Some msgs"
    using assms by (auto simp: ParseChatRequest_def split: option.splits)
  then consider "msgs = []" | es where "json_unmarshal raw = Some (JArr es)" "msgs = map fst es"
    by (auto simp: unmarshal_raw_slice_def split: option.splits jtree.splits)
  then show ?thesis
  proof cases
    case 2
    from unmarshal_raw(1) [OF 2(1) refl] have "list_all (\<lambda>(raw, w). json_decode raw = Some w) es"
      by (auto simp: list_all_iff)
    then have "\<exists>v. json_decode m = Some v" if "m \<in> set msgs" for m
      using that 2(2) by (auto simp: list_all_iff)
    then show ?thesis using Canonicalize_Inr Canonicalize_canonical by (fastforce simp: list_all_iff)
  qed simp
qed

section \<open>Properties\<close>

text \<open>
  C11. The result of \<open>AssistantFromSSE\<close> is given by the events of the payload: \<open>sawDone\<close> holds
  exactly when some event is the [DONE] sentinel, and the message accumulates, in order, the
  choices with index 0 (or none) of the well-formed chunks before the first sentinel. Malformed
  events, other choices and everything after the sentinel have no influence.
\<close>

theorem AssistantFromSSE_spec:
  "AssistantFromSSE p =
    (list_ex is_done (events p),
     canonical (fold merge_choice
       (filter primary (concat (map event_choices (takeWhile (Not \<circ> is_done) (events p))))) zero_accumulator))"
  using AssistantFromSSE_unfold by (simp add: stream_choices_def)

lemma AssistantFromSSE_canonical: "AssistantFromSSE p = (b, Inr c) \<Longrightarrow> is_canonical c"
  using canonical_canonical [OF acc_ok_stream [of p]] by (auto simp: AssistantFromSSE_unfold)

text \<open>
  C26. On every payload, whatever bytes the upstream sent, the result is one of the two documented
  errors or a canonical JSON text: canonicalising the reconstructed message never fails.
\<close>

theorem AssistantFromSSE_result:
  "snd (AssistantFromSSE p) = Inl ErrComplexContent \<or> snd (AssistantFromSSE p) = Inl ErrNoAssistantContent \<or>
    (\<exists>c. snd (AssistantFromSSE p) = Inr c \<and> Canonicalize c = Inr c)"
  using assistant_value_wf [OF acc_ok_stream [of p]] Canonicalize_render(1)
  by (simp add: AssistantFromSSE_unfold canonical_ok [OF acc_ok_stream])

text \<open>
  C13. A text streamed in any number of pieces, followed by [DONE], is reconstructed as the message
  with the concatenated text; it is the message the complete (non-streamed) response
  gives, and the canonical form of the message a client sends back in its next request.
\<close>

theorem stream_text_roundtrip:
  assumes "list_all valid_utf8 ts" "ts \<noteq> []"
  shows "AssistantFromSSE (text_stream ts) = (True, Inr (echo_canonical (concat ts))) \<and>
    AssistantFromMessage (echo_message (concat ts)) = Inr (echo_canonical (concat ts)) \<and>
    Canonicalize (echo_message (concat ts)) = Inr (echo_canonical (concat ts))"
proof -
  have v: "valid_utf8 (concat ts)" using assms(1) by (induction ts) auto
  have "list_ex is_done (events (text_stream ts))"
    by (simp add: events_text_stream is_done_def TrimSpace_done)
  then show ?thesis
    using assms(2) canonical_text [OF v] unmarshal_echo [OF v]
    by (simp add: AssistantFromSSE_unfold fold_text_stream [OF assms(1)])
qed

theorem stream_text_roundtrip_witness:
  "AssistantFromSSE (text_stream [''Hel'', ''lo \"you\"'']) = (True, Inr (echo_canonical (concat [''Hel'', ''lo \"you\"'']))) \<and>
    AssistantFromMessage (echo_message (concat [''Hel'', ''lo \"you\"''])) = Inr (echo_canonical (concat [''Hel'', ''lo \"you\"''])) \<and>
    Canonicalize (echo_message (concat [''Hel'', ''lo \"you\"''])) = Inr (echo_canonical (concat [''Hel'', ''lo \"you\"'']))"
proof (rule stream_text_roundtrip)
  show "list_all valid_utf8 [''Hel'', ''lo \"you\"'']" by code_simp
qed simp

text \<open>
  C25. Fragments of several tool calls may arrive interleaved in any way: the state of the call
  with index \<open>i\<close> is determined by the fragments for \<open>i\<close> alone, in their order, and its
  arguments are their concatenation.
\<close>

theorem tool_fragments:
  "map_of (tools (fold merge_tool tcs zero_accumulator)) i =
     (if calls_of i tcs = [] then None else Some (fold merge_call (calls_of i tcs) zero_toolCallState)) \<and>
   Arguments (fold merge_call (calls_of i tcs) zero_toolCallState) = concat (map arguments_of (calls_of i tcs))"
  by (simp add: lookup_merged merged_arguments) (simp add: zero_accumulator_def zero_toolCallState_def)

text \<open>
  C27. Every message that \<open>ParseChatRequest\<close> extracts can be canonicalised, so the proxy's
  loop over the messages of an accepted request never meets a canonicalisation error.
\<close>

theorem ParseChatRequest_canonical:
  assumes "ParseChatRequest body = Some msgs"
  shows "list_all (\<lambda>m. \<exists>c. Canonicalize m = Inr c \<and> is_canonical c) msgs"
  using assms by (rule parsed_messages_canonical)

theorem ParseChatRequest_canonical_witness:
  "list_all (\<lambda>m. \<exists>c. Canonicalize m = Inr c \<and> is_canonical c) [''{\"role\":\"user\", \"content\":\"hi\"}'']"
proof (rule ParseChatRequest_canonical)
  show "ParseChatRequest ''{\"model\":\"m\",\"messages\":[ {\"role\":\"user\", \"content\":\"hi\"}] }''
    = Some [''{\"role\":\"user\", \"content\":\"hi\"}'']" by code_simp
qed

end
