(* ===== verification/Collector.thy ===== *)
theory Collector
  imports OpenAI Store "HOL-Library.Sublist"
begin

text \<open>
  Package \<open>internal/collector\<close> (collector.go): the pool of page workers, its bounded queue and
  the collectors, one per request. Operations of one goroutine are functions on the
  collector and the queue; the pool with all its goroutines is a labelled transition system
  (\<open>pool_step\<close>), in which a call of \<open>Write\<close>, one step of a worker and the two halves of \<open>Finalize\<close>
  (before and after \<open>inflight.Wait\<close>) are atomic. That is enough: a writer shares with the
  workers only the flag \<open>failed\<close>, the wait group and the channel, and touches the channel once.
  A wait group is a counter, a channel its buffer, a pointer to a collector an address (\<open>nat\<close>).
  Expiry of temporary entries in Redis is not a step of the system.
\<close>

section \<open>Types\<close>

datatype collector_error =
    ErrCacheFailed
  | ErrStreamIncomplete
  | ErrNoAssistantMessage
  | ReadTempPages store_error
  | AssistantError openai_error

record PoolConfig =
  PageSize :: nat
  TTL :: int
  MaxPendingPages :: nat

record Collector =
  requestID :: bytes
  pageSize :: nat
  tail :: bytes
  seq :: nat
  inflight :: nat
  failed :: bool
  onDone :: bool
  scanBuf :: bytes
  sawDone :: bool
  sealed :: bool

record pageJob =
  job_requestID :: bytes
  job_seq :: nat
  job_data :: bytes
  job_owner :: nat

record Stats =
  Pages :: nat
  Bytes :: nat

section \<open>Operations of one goroutine\<close>

definition NewCollector :: "PoolConfig \<Rightarrow> bytes \<Rightarrow> bool \<Rightarrow> Collector" where
  "NewCollector cfg rid withOnDone =
     \<lparr>requestID = rid, pageSize = PageSize cfg, tail = [], seq = 0, inflight = 0, failed = False,
      onDone = withOnDone, scanBuf = [], sawDone = False, sealed = False\<rparr>"

definition fail :: "Collector \<Rightarrow> Collector" where
  "fail c = c\<lparr>failed := True\<rparr>"

text \<open>The non-blocking send: it succeeds while the buffer of the channel has room.\<close>

definition submit :: "PoolConfig \<Rightarrow> nat \<Rightarrow> bytes \<Rightarrow> Collector \<Rightarrow> pageJob list \<Rightarrow> Collector \<times> pageJob list" where
  "submit cfg me page c q =
     (let c1 = c\<lparr>seq := Suc (seq c), inflight := Suc (inflight c)\<rparr> in
      if length q < MaxPendingPages cfg
      then (c1, q @ [\<lparr>job_requestID = requestID c, job_seq = seq c1, job_data = page, job_owner = me\<rparr>])
      else (fail (c1\<lparr>inflight := inflight c1 - 1\<rparr>), q))"

text \<open>The loop of \<open>watchDone\<close> over the complete lines in the scan buffer.\<close>

function watch_lines :: "bytes \<Rightarrow> bool \<times> bytes" where
  "watch_lines buf =
     (case IndexByte buf nl of
        None \<Rightarrow> (False, buf)
      | Some i \<Rightarrow>
          (let line = TrimSuffix (take i buf) [cr]; rest = drop (i + 1) buf in
           if TrimSpace line = ''data: [DONE]'' then (True, rest) else watch_lines rest))"
  by pat_completeness auto
termination
  by (relation "measure length") (auto dest: IndexByte_Some)

declare watch_lines.simps [simp del]

definition scan_cap :: nat where "scan_cap = 1048576"

text \<open>The first component says whether the call-back \<open>onDone\<close> is due.\<close>

definition watchDone :: "bytes \<Rightarrow> Collector \<Rightarrow> bool \<times> Collector" where
  "watchDone p c =
     (if \<not> onDone c \<or> sawDone c then (False, c)
      else (case watch_lines (scanBuf c @ p) of (hit, rest) \<Rightarrow>
        if hit then (True, c\<lparr>scanBuf := rest, sawDone := True, sealed := True\<rparr>)
        else (False, c\<lparr>scanBuf := (if length rest > scan_cap then [] else rest)\<rparr>)))"

text \<open>\<open>Write\<close> up to and including the decision to call back, and its end after the call-back.\<close>

definition Write_begin :: "PoolConfig \<Rightarrow> nat \<Rightarrow> bytes \<Rightarrow> Collector \<Rightarrow> pageJob list \<Rightarrow> bool \<times> Collector \<times> pageJob list" where
  "Write_begin cfg me p c q =
     (if sealed c \<or> failed c then (False, c, q)
      else (let c1 = c\<lparr>tail := tail c @ p\<rparr>;
                (c2, q2) = (if length (tail c1) \<ge> pageSize c1
                            then (case submit cfg me (tail c1) c1 q of (c', q') \<Rightarrow> (c'\<lparr>tail := []\<rparr>, q'))
                            else (c1, q));
                (fired, c3) = watchDone p c2
            in (fired, c3, q2)))"

definition Write_end :: "Collector \<Rightarrow> Collector" where
  "Write_end c = (if sealed c then c\<lparr>tail := []\<rparr> else c)"

text \<open>\<open>Finalize\<close> after the wait: read, sort and join the pages, add the tail, clean up, extract.\<close>

definition assemble :: "(int \<times> bytes) list \<Rightarrow> bytes \<Rightarrow> bytes" where
  "assemble pages t = concat (map (\<lambda>n. the (map_of pages n)) (sort (map fst pages))) @ t"

definition extract_assistant :: "bytes \<Rightarrow> collector_error + bytes" where
  "extract_assistant payload =
     (case AssistantFromSSE payload of (done, r) \<Rightarrow>
        (case r of
           Inl ErrNoAssistantContent \<Rightarrow> Inl ErrNoAssistantMessage
         | Inl e \<Rightarrow> Inl (AssistantError e)
         | Inr asst \<Rightarrow>
             if \<not> done then Inl ErrStreamIncomplete
             else if asst = [] then Inl ErrNoAssistantMessage
             else Inr asst))"

type_synonym outcome = "(collector_error + bytes) \<times> Stats"

definition Finalize_rest :: "'s TempPageStore \<Rightarrow> Collector \<Rightarrow> Metrics \<times> 's \<Rightarrow> outcome \<times> Metrics \<times> 's" where
  "Finalize_rest P c w =
     (case ps_GetPages P (requestID c) w of (r, w1) \<Rightarrow>
        (case r of
           Inl e \<Rightarrow> ((Inl (ReadTempPages e), \<lparr>Pages = seq c, Bytes = 0\<rparr>), w1)
         | Inr pages \<Rightarrow>
             (let payload = assemble pages (tail c);
                  w2 = snd (ps_DeletePages P (requestID c) w1)
              in ((extract_assistant payload, \<lparr>Pages = seq c, Bytes = length payload\<rparr>), w2))))"

text \<open>\<open>Finalize\<close> before the wait: an early result, or none when the call goes on to wait.\<close>

definition Finalize_begin :: "Collector \<Rightarrow> outcome option" where
  "Finalize_begin c = (if failed c then Some (Inl ErrCacheFailed, \<lparr>Pages = seq c, Bytes = 0\<rparr>) else None)"

text \<open>A \<open>Finalize\<close> with nothing to wait for.\<close>

definition Finalize_now :: "'s TempPageStore \<Rightarrow> Collector \<Rightarrow> Metrics \<times> 's \<Rightarrow> outcome \<times> Metrics \<times> 's" where
  "Finalize_now P c w = (case Finalize_begin c of Some r \<Rightarrow> (r, w) | None \<Rightarrow> Finalize_rest P c w)"

definition Abort :: "'s TempPageStore \<Rightarrow> Collector \<Rightarrow> Metrics \<times> 's \<Rightarrow> Collector \<times> Metrics \<times> 's" where
  "Abort P c w = (fail c, snd (ps_DeletePages P (requestID c) w))"

text \<open>The body of the loop of \<open>worker\<close> on one job: did the page fail, and the new world.\<close>

definition flush_page :: "'s TempPageStore \<Rightarrow> PoolConfig \<Rightarrow> pageJob \<Rightarrow> Metrics \<times> 's \<Rightarrow> bool \<times> Metrics \<times> 's" where
  "flush_page P cfg j w =
     (case ps_PutPage P (job_requestID j) (int (job_seq j)) (job_data j) (TTL cfg) w of (r, m, s) \<Rightarrow>
        (case r of
           Inl e \<Rightarrow> (True, m\<lparr>PageFlushError := Suc (PageFlushError m)\<rparr>, s)
         | Inr _ \<Rightarrow> (False, m\<lparr>PageFlushSuccess := Suc (PageFlushSuccess m)\<rparr>, s)))"

section \<open>The pool as a transition system\<close>

text \<open>
  Where a collector's own goroutine is: streaming, inside the call-back that \<open>Write\<close> makes at [DONE],
  waiting in \<open>Finalize\<close> (the flag says whether inside that call-back), or past a \<open>Finalize\<close>.
\<close>

datatype phase = Streaming | InCallback | Waiting bool | Ended

record 's pool =
  ids :: "bytes list"
  queue :: "pageJob list"
  taken :: "pageJob list"
  colls :: "nat \<Rightarrow> Collector option"
  phases :: "nat \<Rightarrow> phase"
  results :: "nat \<Rightarrow> outcome list"
  world :: "Metrics \<times> 's"

datatype label =
    LNew nat bytes bool
  | LWrite nat bytes
  | LTake
  | LPut nat
  | LFinBegin nat
  | LFinEnd nat

definition NewPool :: "Metrics \<times> 's \<Rightarrow> 's pool" where
  "NewPool w = \<lparr>ids = [], queue = [], taken = [], colls = (\<lambda>_. None), phases = (\<lambda>_. Streaming), results = (\<lambda>_. []), world = w\<rparr>"

definition set_coll :: "nat \<Rightarrow> Collector \<Rightarrow> 's pool \<Rightarrow> 's pool" where
  "set_coll i c s = s\<lparr>colls := (colls s)(i \<mapsto> c)\<rparr>"

definition set_phase :: "nat \<Rightarrow> phase \<Rightarrow> 's pool \<Rightarrow> 's pool" where
  "set_phase i ph s = s\<lparr>phases := (phases s)(i := ph)\<rparr>"

definition add_result :: "nat \<Rightarrow> outcome \<Rightarrow> 's pool \<Rightarrow> 's pool" where
  "add_result i r s = s\<lparr>results := (results s)(i := results s i @ [r])\<rparr>"

text \<open>A call-back that returns lets \<open>Write\<close> run to its end.\<close>

definition after_callback :: "bool \<Rightarrow> Collector \<Rightarrow> Collector" where
  "after_callback cb c = (if cb then Write_end c else c)"

fun is_waiting :: "phase \<Rightarrow> bool" where
  "is_waiting (Waiting cb) = True"
| "is_waiting ph = False"

text \<open>
  One step. \<open>LNew\<close> creates a collector with a request id not used before, as UUIDs are;
  \<open>LTake\<close> hands the oldest job to an idle worker; \<open>LPut k\<close> is the worker that holds the \<open>k\<close>-th taken job.
\<close>

definition put_step :: "'s TempPageStore \<Rightarrow> PoolConfig \<Rightarrow> nat \<Rightarrow> 's pool \<Rightarrow> 's pool" where
  "put_step P cfg k s =
     (let j = taken s ! k;
          (bad, w) = flush_page P cfg j (world s);
          c = the (colls s (job_owner j));
          c1 = (if bad then fail c else c);
          c2 = c1\<lparr>inflight := inflight c1 - 1\<rparr>
      in set_coll (job_owner j) c2 (s\<lparr>taken := take k (taken s) @ drop (Suc k) (taken s), world := w\<rparr>))"

definition write_step :: "PoolConfig \<Rightarrow> nat \<Rightarrow> bytes \<Rightarrow> Collector \<Rightarrow> 's pool \<Rightarrow> 's pool" where
  "write_step cfg i p c s =
     (case Write_begin cfg i p c (queue s) of (fired, c', q') \<Rightarrow>
        set_phase i (if fired then InCallback else phases s i) (set_coll i c' (s\<lparr>queue := q'\<rparr>)))"

definition fin_begin_step :: "nat \<Rightarrow> bool \<Rightarrow> Collector \<Rightarrow> 's pool \<Rightarrow> 's pool" where
  "fin_begin_step i cb c s =
     (case Finalize_begin c of
        Some r \<Rightarrow> add_result i r (set_phase i Ended (set_coll i (after_callback cb c) s))
      | None \<Rightarrow> set_phase i (Waiting cb) s)"

definition fin_end_step :: "'s TempPageStore \<Rightarrow> nat \<Rightarrow> bool \<Rightarrow> Collector \<Rightarrow> 's pool \<Rightarrow> 's pool" where
  "fin_end_step P i cb c s =
     (case Finalize_rest P c (world s) of (r, w) \<Rightarrow>
        add_result i r (set_phase i Ended (set_coll i (after_callback cb c) (s\<lparr>world := w\<rparr>))))"

fun pool_step :: "'s TempPageStore \<Rightarrow> PoolConfig \<Rightarrow> nat \<Rightarrow> label \<Rightarrow> 's pool \<Rightarrow> 's pool option" where
  "pool_step P cfg workers (LNew i rid withOnDone) s =
     (if colls s i = None \<and> rid \<notin> set (ids s)
      then Some (set_coll i (NewCollector cfg rid withOnDone) (s\<lparr>ids := rid # ids s\<rparr>)) else None)"
| "pool_step P cfg workers (LWrite i p) s =
     (case colls s i of None \<Rightarrow> None
      | Some c \<Rightarrow> if phases s i = Streaming \<or> phases s i = Ended then Some (write_step cfg i p c s) else None)"
| "pool_step P cfg workers LTake s =
     (case queue s of [] \<Rightarrow> None
      | j # q \<Rightarrow> if length (taken s) < workers then Some (s\<lparr>queue := q, taken := taken s @ [j]\<rparr>) else None)"
| "pool_step P cfg workers (LPut k) s = (if k < length (taken s) then Some (put_step P cfg k s) else None)"
| "pool_step P cfg workers (LFinBegin i) s =
     (case colls s i of None \<Rightarrow> None
      | Some c \<Rightarrow> if is_waiting (phases s i) then None else Some (fin_begin_step i (phases s i = InCallback) c s))"
| "pool_step P cfg workers (LFinEnd i) s =
     (case colls s i of None \<Rightarrow> None
      | Some c \<Rightarrow> (case phases s i of
          Waiting cb \<Rightarrow> if inflight c = 0 then Some (fin_end_step P i cb c s) else None
        | _ \<Rightarrow> None))"

fun pool_run :: "'s TempPageStore \<Rightarrow> PoolConfig \<Rightarrow> nat \<Rightarrow> label list \<Rightarrow> 's pool \<Rightarrow> 's pool option" where
  "pool_run P cfg workers [] s = Some s"
| "pool_run P cfg workers (l # ls) s =
     (case pool_step P cfg workers l s of None \<Rightarrow> None | Some s' \<Rightarrow> pool_run P cfg workers ls s')"

section \<open>Reachable states\<close>

text \<open>
  The states a pool can reach from a fresh one, together with the bytes each collector has accepted
  so far: a \<open>Write\<close> is ignored by a collector that failed or was sealed at [DONE].
\<close>

definition accept :: "label \<Rightarrow> 's pool \<Rightarrow> (nat \<Rightarrow> bytes) \<Rightarrow> nat \<Rightarrow> bytes" where
  "accept l s g =
     (case l of LWrite i p \<Rightarrow>
        (case colls s i of None \<Rightarrow> g
         | Some c \<Rightarrow> if sealed c \<or> failed c then g else g(i := g i @ p))
      | _ \<Rightarrow> g)"

inductive pool_reach :: "'s TempPageStore \<Rightarrow> PoolConfig \<Rightarrow> nat \<Rightarrow> Metrics \<times> 's \<Rightarrow> 's pool \<Rightarrow> (nat \<Rightarrow> bytes) \<Rightarrow> bool"
  for P cfg workers w0
where
  start: "pool_reach P cfg workers w0 (NewPool w0) (\<lambda>_. [])"
| step: "pool_reach P cfg workers w0 s g \<Longrightarrow> pool_step P cfg workers l s = Some s' \<Longrightarrow>
    pool_reach P cfg workers w0 s' (accept l s g)"

text \<open>The bytes accepted along a run.\<close>

fun accepted :: "'s TempPageStore \<Rightarrow> PoolConfig \<Rightarrow> nat \<Rightarrow> label list \<Rightarrow> 's pool \<Rightarrow> (nat \<Rightarrow> bytes) \<Rightarrow> nat \<Rightarrow> bytes" where
  "accepted P cfg workers [] s g = g"
| "accepted P cfg workers (l # ls) s g =
     (case pool_step P cfg workers l s of None \<Rightarrow> g | Some s' \<Rightarrow> accepted P cfg workers ls s' (accept l s g))"

lemma reach_run:
  "pool_reach P cfg workers w0 s g \<Longrightarrow> pool_run P cfg workers ls s = Some s' \<Longrightarrow>
    pool_reach P cfg workers w0 s' (accepted P cfg workers ls s g)"
  by (induction ls arbitrary: s g) (auto intro: pool_reach.step split: option.splits)

text \<open>What one \<open>Write\<close> does to the collector and the queue.\<close>

lemma watchDone_frame:
  "watchDone p c = (fired, c') \<Longrightarrow> requestID c' = requestID c \<and> pageSize c' = pageSize c \<and> tail c' = tail c \<and>
    seq c' = seq c \<and> inflight c' = inflight c \<and> failed c' = failed c"
  by (auto simp: watchDone_def split: if_splits prod.splits)

lemma Write_begin_cases:
  assumes "Write_begin cfg i p c q = (fired, c', q')"
  obtains (ignored) "sealed c \<or> failed c" "c' = c" "q' = q" "\<not> fired"
    | (buffered) "\<not> sealed c" "\<not> failed c" "q' = q" "tail c' = tail c @ p" "length (tail c') < pageSize c"
        "seq c' = seq c" "inflight c' = inflight c" "\<not> failed c'" "requestID c' = requestID c" "pageSize c' = pageSize c"
    | (queued) "\<not> sealed c" "\<not> failed c" "length q < MaxPendingPages cfg"
        "q' = q @ [\<lparr>job_requestID = requestID c, job_seq = Suc (seq c), job_data = tail c @ p, job_owner = i\<rparr>]"
        "tail c' = []" "seq c' = Suc (seq c)" "inflight c' = Suc (inflight c)" "\<not> failed c'"
        "requestID c' = requestID c" "pageSize c' = pageSize c"
    | (full) "\<not> sealed c" "\<not> failed c" "q' = q" "tail c' = []" "inflight c' = inflight c" "seq c' = Suc (seq c)"
        "failed c'" "requestID c' = requestID c" "pageSize c' = pageSize c"
proof (cases "sealed c \<or> failed c")
  case True
  then have "c' = c" "q' = q" "\<not> fired" using assms by (auto simp: Write_begin_def)
  with True show thesis by (rule ignored)
next
  case live: False
  let ?c1 = "c\<lparr>tail := tail c @ p\<rparr>"
  show thesis
  proof (cases "length (tail ?c1) \<ge> pageSize c")
    case False
    then have "watchDone p ?c1 = (fired, c')" "q' = q"
      using assms live by (auto simp: Write_begin_def Let_def split: prod.splits)
    with watchDone_frame [OF this(1)] buffered live False show thesis by simp
  next
    case True
    obtain c2 q2 where s: "submit cfg i (tail ?c1) ?c1 q = (c2, q2)" by (cases "submit cfg i (tail ?c1) ?c1 q")
    then have w: "watchDone p (c2\<lparr>tail := []\<rparr>) = (fired, c')" "q' = q2"
      using assms live True by (auto simp: Write_begin_def Let_def split: prod.splits)
    note fr = watchDone_frame [OF w(1)]
    show thesis
    proof (cases "length q < MaxPendingPages cfg")
      case True
      with s fr w queued live show thesis by (auto simp: submit_def Let_def)
    next
      case False
      with s fr w full live show thesis by (auto simp: submit_def Let_def fail_def)
    qed
  qed
qed

section \<open>The pool invariant\<close>

abbreviation jobs :: "'s pool \<Rightarrow> pageJob list" where
  "jobs s \<equiv> queue s @ taken s"

text \<open>Bounds on memory: the queue, the jobs in the workers' hands and every tail.\<close>

definition bounded :: "PoolConfig \<Rightarrow> nat \<Rightarrow> 's pool \<Rightarrow> bool" where
  "bounded cfg workers s \<longleftrightarrow> length (queue s) \<le> MaxPendingPages cfg \<and> length (taken s) \<le> workers \<and>
     (\<forall>i c. colls s i = Some c \<longrightarrow> pageSize c = PageSize cfg \<and> length (tail c) < PageSize cfg)"

text \<open>Jobs belong to live collectors, \<open>inflight\<close> counts them, and request ids are distinct.\<close>

definition owned :: "'s pool \<Rightarrow> bool" where
  "owned s \<longleftrightarrow> (\<forall>j \<in> set (jobs s). \<exists>c. colls s (job_owner j) = Some c \<and> job_requestID j = requestID c \<and>
     1 \<le> job_seq j \<and> job_seq j \<le> seq c)"

definition counted :: "'s pool \<Rightarrow> bool" where
  "counted s \<longleftrightarrow> (\<forall>i c. colls s i = Some c \<longrightarrow> inflight c = length (filter (\<lambda>j. job_owner j = i) (jobs s)))"

definition unique_ids :: "'s pool \<Rightarrow> bool" where
  "unique_ids s \<longleftrightarrow> (\<forall>i c. colls s i = Some c \<longrightarrow> requestID c \<in> set (ids s)) \<and>
     (\<forall>i j c d. colls s i = Some c \<longrightarrow> colls s j = Some d \<longrightarrow> requestID c = requestID d \<longrightarrow> i = j)"

text \<open>
  The data of a collector that neither failed nor was finalized: the pages submitted so far and
  the tail are the bytes accepted, every page is stored or on its way, and nothing else is stored.
\<close>

definition data_ok :: "(int \<Rightarrow> bytes option) \<Rightarrow> nat \<Rightarrow> Collector \<Rightarrow> pageJob list \<Rightarrow> bytes \<Rightarrow> bool" where
  "data_ok stored i c js written \<longleftrightarrow>
     (\<exists>pgs. length pgs = seq c \<and> concat pgs @ tail c = written \<and>
       (\<forall>j \<in> set js. job_owner j = i \<longrightarrow> job_data j = pgs ! (job_seq j - 1)) \<and>
       (\<forall>n < seq c. stored (int n + 1) = Some (pgs ! n) \<or> (\<exists>j \<in> set js. job_owner j = i \<and> job_seq j = Suc n)) \<and>
       (\<forall>n. stored n \<noteq> None \<longrightarrow> 1 \<le> n \<and> n \<le> int (seq c)))"

text \<open>
  What holds of every collector, failed and finalized ones included: the pages submitted so far and the
  tail are a subsequence of the bytes accepted, and whatever is stored or on its way is such a page.
\<close>

definition data_part :: "(int \<Rightarrow> bytes option) \<Rightarrow> nat \<Rightarrow> Collector \<Rightarrow> pageJob list \<Rightarrow> bytes \<Rightarrow> bool" where
  "data_part stored i c js written \<longleftrightarrow>
     (\<exists>pgs. length pgs = seq c \<and> subseq (concat pgs @ tail c) written \<and>
       (\<forall>j \<in> set js. job_owner j = i \<longrightarrow> job_data j = pgs ! (job_seq j - 1)) \<and>
       (\<forall>n b. stored n = Some b \<longrightarrow> 1 \<le> n \<and> n \<le> int (seq c) \<and> b = pgs ! nat (n - 1)))"

definition part_inv :: "('s \<Rightarrow> bytes \<Rightarrow> int \<Rightarrow> bytes option) \<Rightarrow> 's pool \<Rightarrow> (nat \<Rightarrow> bytes) \<Rightarrow> bool" where
  "part_inv pages s g \<longleftrightarrow>
     (\<forall>i c. colls s i = Some c \<longrightarrow> data_part (pages (snd (world s)) (requestID c)) i c (jobs s) (g i))"

definition small :: "'s pool \<Rightarrow> bool" where
  "small s \<longleftrightarrow> (\<forall>i c. colls s i = Some c \<longrightarrow> seq c < 2 ^ 63)"

definition pool_inv :: "('s \<Rightarrow> bool) \<Rightarrow> ('s \<Rightarrow> bytes \<Rightarrow> int \<Rightarrow> bytes option) \<Rightarrow> 's pool \<Rightarrow> (nat \<Rightarrow> bytes) \<Rightarrow> bool" where
  "pool_inv sinv pages s g \<longleftrightarrow> sinv (snd (world s)) \<and>
     (\<forall>rid. rid \<notin> set (ids s) \<longrightarrow> pages (snd (world s)) rid = Map.empty) \<and>
     (\<forall>i. colls s i = None \<longrightarrow> g i = []) \<and>
     (\<forall>i c. colls s i = Some c \<longrightarrow> \<not> failed c \<longrightarrow> results s i = [] \<longrightarrow>
        data_ok (pages (snd (world s)) (requestID c)) i c (jobs s) (g i))"

lemmas pool_defs = set_coll_def set_phase_def add_result_def

text \<open>The steps, taken apart.\<close>

lemma step_New:
  assumes "pool_step P cfg workers (LNew i rid b) s = Some s'"
  shows "colls s i = None" "rid \<notin> set (ids s)"
    "s' = s\<lparr>ids := rid # ids s, colls := (colls s)(i \<mapsto> NewCollector cfg rid b)\<rparr>"
  using assms by (auto simp: set_coll_def split: if_splits)

lemma step_Write:
  assumes "pool_step P cfg workers (LWrite i p) s = Some s'"
  obtains c c' q' fired where "colls s i = Some c" "Write_begin cfg i p c (queue s) = (fired, c', q')"
    "s' = s\<lparr>queue := q', colls := (colls s)(i \<mapsto> c'), phases := (phases s)(i := if fired then InCallback else phases s i)\<rparr>"
proof -
  obtain c where c: "colls s i = Some c" "s' = write_step cfg i p c s"
    using assms by (auto split: option.splits if_splits)
  obtain fired c' q' where w: "Write_begin cfg i p c (queue s) = (fired, c', q')"
    by (cases "Write_begin cfg i p c (queue s)") auto
  show thesis by (rule that [OF c(1) w]) (simp add: c(2) w write_step_def pool_defs)
qed

lemma step_Take:
  assumes "pool_step P cfg workers LTake s = Some s'"
  obtains j q where "queue s = j # q" "length (taken s) < workers" "s' = s\<lparr>queue := q, taken := taken s @ [j]\<rparr>"
  using assms by (auto split: list.splits if_splits)

lemma step_Put:
  assumes "pool_step P cfg workers (LPut k) s = Some s'" "owned s"
  obtains c w bad where "k < length (taken s)" "colls s (job_owner (taken s ! k)) = Some c"
    "flush_page P cfg (taken s ! k) (world s) = (bad, w)"
    "s' = s\<lparr>taken := take k (taken s) @ drop (Suc k) (taken s), world := w,
       colls := (colls s)(job_owner (taken s ! k) \<mapsto> c\<lparr>failed := (failed c \<or> bad), inflight := inflight c - 1\<rparr>)\<rparr>"
proof -
  have k: "k < length (taken s)" "s' = put_step P cfg k s" using assms(1) by (auto split: if_splits)
  then have "taken s ! k \<in> set (jobs s)" by simp
  then obtain c where c: "colls s (job_owner (taken s ! k)) = Some c" using assms(2) unfolding owned_def by blast
  obtain bad w where f: "flush_page P cfg (taken s ! k) (world s) = (bad, w)"
    by (cases "flush_page P cfg (taken s ! k) (world s)") auto
  show thesis
    by (rule that [OF k(1) c f]) (use c f k(2) in \<open>auto simp: put_step_def Let_def fail_def set_coll_def\<close>)
qed

lemma step_FinBegin:
  assumes "pool_step P cfg workers (LFinBegin i) s = Some s'"
  obtains c cb r where "colls s i = Some c" "failed c"
      "s' = s\<lparr>colls := (colls s)(i \<mapsto> after_callback cb c), phases := (phases s)(i := Ended),
        results := (results s)(i := results s i @ [r])\<rparr>"
    | c cb where "colls s i = Some c" "\<not> failed c" "s' = s\<lparr>phases := (phases s)(i := Waiting cb)\<rparr>"
  using assms by (auto simp: fin_begin_step_def Finalize_begin_def pool_defs split: option.splits if_splits)

lemma step_FinEnd:
  assumes "pool_step P cfg workers (LFinEnd i) s = Some s'"
  obtains c cb r w where "colls s i = Some c" "phases s i = Waiting cb" "inflight c = 0"
    "Finalize_rest P c (world s) = (r, w)"
    "s' = s\<lparr>world := w, colls := (colls s)(i \<mapsto> after_callback cb c), phases := (phases s)(i := Ended),
        results := (results s)(i := results s i @ [r])\<rparr>"
  using assms by (auto simp: fin_end_step_def pool_defs split: option.splits if_splits prod.splits phase.splits)

lemma after_callback_frame [simp]:
  "requestID (after_callback cb c) = requestID c" "seq (after_callback cb c) = seq c"
  "inflight (after_callback cb c) = inflight c" "failed (after_callback cb c) = failed c"
  "pageSize (after_callback cb c) = pageSize c" "length (tail (after_callback cb c)) \<le> length (tail c)"
  by (auto simp: after_callback_def Write_end_def)

lemma NewCollector_frame [simp]:
  "requestID (NewCollector cfg rid b) = rid" "seq (NewCollector cfg rid b) = 0" "inflight (NewCollector cfg rid b) = 0"
  "failed (NewCollector cfg rid b) = False" "pageSize (NewCollector cfg rid b) = PageSize cfg"
  "tail (NewCollector cfg rid b) = []"
  by (simp_all add: NewCollector_def)

lemma filter_remove_nth:
  "k < length xs \<Longrightarrow> length (filter f (take k xs)) + length (filter f (drop (Suc k) xs))
    = length (filter f xs) - (if f (xs ! k) then 1 else 0)"
proof -
  assume k: "k < length xs"
  have "filter f xs = filter f (take k xs) @ filter f (xs ! k # drop (Suc k) xs)"
    by (metis Cons_nth_drop_Suc append_take_drop_id filter_append k)
  then show ?thesis by simp
qed

lemma filter_nth_pos: "k < length xs \<Longrightarrow> f (xs ! k) \<Longrightarrow> 0 < length (filter f xs)"
  by (auto simp: filter_empty_conv)

lemma owned_mono:
  assumes "owned s" "set (jobs s') \<subseteq> set (jobs s)"
    and "\<And>i c. colls s i = Some c \<Longrightarrow> \<exists>c'. colls s' i = Some c' \<and> requestID c' = requestID c \<and> seq c \<le> seq c'"
  shows "owned s'"
  unfolding owned_def
proof
  fix j assume "j \<in> set (jobs s')"
  then obtain c where "colls s (job_owner j) = Some c" "job_requestID j = requestID c" "1 \<le> job_seq j" "job_seq j \<le> seq c"
    using assms(1,2) unfolding owned_def by blast
  then show "\<exists>c. colls s' (job_owner j) = Some c \<and> job_requestID j = requestID c \<and> 1 \<le> job_seq j \<and> job_seq j \<le> seq c"
    using assms(3) [of "job_owner j" c] by fastforce
qed

lemma owned_step:
  assumes "owned s" "pool_step P cfg workers l s = Some s'"
  shows "owned s'"
proof (cases l)
  case (LNew i rid b)
  note n = step_New [OF assms(2) [unfolded LNew]]
  show ?thesis by (rule owned_mono [OF assms(1)]) (use n in auto)
next
  case (LWrite i p)
  obtain c c' q' fired where w: "colls s i = Some c" "Write_begin cfg i p c (queue s) = (fired, c', q')"
    "s' = s\<lparr>queue := q', colls := (colls s)(i \<mapsto> c'), phases := (phases s)(i := if fired then InCallback else phases s i)\<rparr>"
    using assms(2) [unfolded LWrite] by (rule step_Write)
  let ?s = "s\<lparr>colls := (colls s)(i \<mapsto> c')\<rparr>"
  have "requestID c' = requestID c \<and> seq c \<le> seq c'" using w(2) by (cases rule: Write_begin_cases) auto
  then have "owned ?s" by (intro owned_mono [OF assms(1)]) (use w(1) in auto)
  moreover have "j \<in> set (jobs s) \<or> (job_owner j = i \<and> job_requestID j = requestID c' \<and> 1 \<le> job_seq j \<and> job_seq j \<le> seq c')"
    if "j \<in> set (jobs s')" for j
    using w(2) by (cases rule: Write_begin_cases) (use that w(3) in auto)
  moreover have "colls s' = colls ?s" "jobs ?s = jobs s" "colls s' i = Some c'" using w(3) by simp_all
  ultimately show ?thesis unfolding owned_def by metis
next
  case LTake
  obtain j q where "queue s = j # q" "s' = s\<lparr>queue := q, taken := taken s @ [j]\<rparr>"
    using assms(2) [unfolded LTake] by (rule step_Take)
  then show ?thesis by (intro owned_mono [OF assms(1)]) auto
next
  case (LPut k)
  obtain c w bad where p: "k < length (taken s)" "colls s (job_owner (taken s ! k)) = Some c"
    "s' = s\<lparr>taken := take k (taken s) @ drop (Suc k) (taken s), world := w,
       colls := (colls s)(job_owner (taken s ! k) \<mapsto> c\<lparr>failed := (failed c \<or> bad), inflight := inflight c - 1\<rparr>)\<rparr>"
    using assms(2) [unfolded LPut] assms(1) by (rule step_Put)
  show ?thesis by (rule owned_mono [OF assms(1)]) (use p in \<open>auto dest: in_set_takeD in_set_dropD\<close>)
next
  case (LFinBegin i)
  from assms(2) [unfolded LFinBegin] show ?thesis
    by (rule step_FinBegin) (rule owned_mono [OF assms(1)]; auto)+
next
  case (LFinEnd i)
  from assms(2) [unfolded LFinEnd] show ?thesis
    by (rule step_FinEnd) (rule owned_mono [OF assms(1)]; auto)
qed

lemma counted_step:
  assumes "owned s" "counted s" "pool_step P cfg workers l s = Some s'"
  shows "counted s'"
proof (cases l)
  case (LNew i rid b)
  note n = step_New [OF assms(3) [unfolded LNew]]
  have "job_owner j \<noteq> i" if "j \<in> set (jobs s)" for j using assms(1) that n(1) unfolding owned_def by force
  then have "filter (\<lambda>j. job_owner j = i) (jobs s) = []" by (auto simp: filter_empty_conv)
  then show ?thesis using assms(2) n by (auto simp: counted_def)
next
  case (LWrite i p)
  obtain c c' q' fired where w: "colls s i = Some c" "Write_begin cfg i p c (queue s) = (fired, c', q')"
    "s' = s\<lparr>queue := q', colls := (colls s)(i \<mapsto> c'), phases := (phases s)(i := if fired then InCallback else phases s i)\<rparr>"
    using assms(3) [unfolded LWrite] by (rule step_Write)
  from w(2) show ?thesis
    by (cases rule: Write_begin_cases) (use assms(2) w(1,3) in \<open>auto simp: counted_def\<close>)
next
  case LTake
  obtain j q where "queue s = j # q" "s' = s\<lparr>queue := q, taken := taken s @ [j]\<rparr>"
    using assms(3) [unfolded LTake] by (rule step_Take)
  then show ?thesis using assms(2) by (auto simp: counted_def)
next
  case (LPut k)
  obtain c w bad where p: "k < length (taken s)" "colls s (job_owner (taken s ! k)) = Some c"
    "s' = s\<lparr>taken := take k (taken s) @ drop (Suc k) (taken s), world := w,
       colls := (colls s)(job_owner (taken s ! k) \<mapsto> c\<lparr>failed := (failed c \<or> bad), inflight := inflight c - 1\<rparr>)\<rparr>"
    using assms(3) [unfolded LPut] assms(1) by (rule step_Put)
  let ?o = "\<lambda>j. job_owner j = job_owner (taken s ! k)"
  have "length (filter ?o (queue s)) + length (filter ?o (taken s)) - 1
      = length (filter ?o (queue s)) + (length (filter ?o (taken s)) - 1)"
    using filter_nth_pos [OF p(1), of ?o] by linarith
  with p show ?thesis using assms(2) by (auto simp: counted_def filter_remove_nth)
next
  case (LFinBegin i)
  from assms(3) [unfolded LFinBegin] show ?thesis
    by (rule step_FinBegin) (use assms(2) in \<open>auto simp: counted_def\<close>)
next
  case (LFinEnd i)
  from assms(3) [unfolded LFinEnd] show ?thesis
    by (rule step_FinEnd) (use assms(2) in \<open>auto simp: counted_def\<close>)
qed

lemma unique_ids_step:
  assumes "owned s" "unique_ids s" "pool_step P cfg workers l s = Some s'"
  shows "unique_ids s'"
proof (cases l)
  case (LNew i rid b)
  note n = step_New [OF assms(3) [unfolded LNew]]
  then show ?thesis using assms(2) by (auto simp: unique_ids_def)
next
  case (LWrite i p)
  obtain c c' q' fired where w: "colls s i = Some c" "Write_begin cfg i p c (queue s) = (fired, c', q')"
    "s' = s\<lparr>queue := q', colls := (colls s)(i \<mapsto> c'), phases := (phases s)(i := if fired then InCallback else phases s i)\<rparr>"
    using assms(3) [unfolded LWrite] by (rule step_Write)
  have "requestID c' = requestID c" using w(2) by (cases rule: Write_begin_cases) auto
  then show ?thesis using assms(2) w(1,3) by (auto simp: unique_ids_def)
next
  case LTake
  obtain j q where "s' = s\<lparr>queue := q, taken := taken s @ [j]\<rparr>"
    using assms(3) [unfolded LTake] by (rule step_Take)
  then show ?thesis using assms(2) by (auto simp: unique_ids_def)
next
  case (LPut k)
  obtain c w bad where p: "colls s (job_owner (taken s ! k)) = Some c"
    "s' = s\<lparr>taken := take k (taken s) @ drop (Suc k) (taken s), world := w,
       colls := (colls s)(job_owner (taken s ! k) \<mapsto> c\<lparr>failed := (failed c \<or> bad), inflight := inflight c - 1\<rparr>)\<rparr>"
    using assms(3) [unfolded LPut] assms(1) by (rule step_Put)
  then show ?thesis using assms(2) by (auto simp: unique_ids_def)
next
  case (LFinBegin i)
  from assms(3) [unfolded LFinBegin] show ?thesis
    by (rule step_FinBegin) (use assms(2) in \<open>auto simp: unique_ids_def\<close>)
next
  case (LFinEnd i)
  from assms(3) [unfolded LFinEnd] show ?thesis
    by (rule step_FinEnd) (use assms(2) in \<open>auto simp: unique_ids_def\<close>)
qed

lemma bounded_step:
  assumes "owned s" "bounded cfg workers s" "pool_step P cfg workers l s = Some s'" "0 < PageSize cfg"
  shows "bounded cfg workers s'"
proof (cases l)
  case (LNew i rid b)
  note n = step_New [OF assms(3) [unfolded LNew]]
  then show ?thesis using assms(2,4) by (auto simp: bounded_def)
next
  case (LWrite i p)
  obtain c c' q' fired where w: "colls s i = Some c" "Write_begin cfg i p c (queue s) = (fired, c', q')"
    "s' = s\<lparr>queue := q', colls := (colls s)(i \<mapsto> c'), phases := (phases s)(i := if fired then InCallback else phases s i)\<rparr>"
    using assms(3) [unfolded LWrite] by (rule step_Write)
  have "pageSize c = PageSize cfg" "length (tail c) < PageSize cfg" using assms(2) w(1) by (auto simp: bounded_def)
  with w(2) show ?thesis
    by (cases rule: Write_begin_cases) (use assms(2,4) w(3) in \<open>auto simp: bounded_def\<close>)
next
  case LTake
  obtain j q where "queue s = j # q" "length (taken s) < workers" "s' = s\<lparr>queue := q, taken := taken s @ [j]\<rparr>"
    using assms(3) [unfolded LTake] by (rule step_Take)
  then show ?thesis using assms(2) by (auto simp: bounded_def)
next
  case (LPut k)
  obtain c w bad where p: "k < length (taken s)" "colls s (job_owner (taken s ! k)) = Some c"
    "s' = s\<lparr>taken := take k (taken s) @ drop (Suc k) (taken s), world := w,
       colls := (colls s)(job_owner (taken s ! k) \<mapsto> c\<lparr>failed := (failed c \<or> bad), inflight := inflight c - 1\<rparr>)\<rparr>"
    using assms(3) [unfolded LPut] assms(1) by (rule step_Put)
  then show ?thesis using assms(2) by (auto simp: bounded_def)
next
  case (LFinBegin i)
  from assms(3) [unfolded LFinBegin] show ?thesis
    by (rule step_FinBegin) (use assms(2) in \<open>auto simp: bounded_def intro: le_less_trans [OF after_callback_frame(6)]\<close>)
next
  case (LFinEnd i)
  from assms(3) [unfolded LFinEnd] show ?thesis
    by (rule step_FinEnd) (use assms(2) in \<open>auto simp: bounded_def intro: le_less_trans [OF after_callback_frame(6)]\<close>)
qed

section \<open>Data of the streams\<close>

lemma data_ok_cong:
  assumes "data_ok st i c js written" "\<And>j. job_owner j = i \<Longrightarrow> j \<in> set js' \<longleftrightarrow> j \<in> set js" "seq c' = seq c" "tail c' = tail c"
  shows "data_ok st i c' js' written"
  using assms unfolding data_ok_def by metis

lemma data_ok_new:
  assumes "\<And>j. j \<in> set js \<Longrightarrow> job_owner j \<noteq> i" "seq c = 0" "tail c = []"
  shows "data_ok Map.empty i c js []"
  using assms by (auto simp: data_ok_def intro!: exI [of _ "[]"])

lemma data_ok_buffer:
  assumes "data_ok st i c js written" "seq c' = seq c" "tail c' = tail c @ p"
  shows "data_ok st i c' js (written @ p)"
  using assms unfolding data_ok_def by (metis append.assoc)

lemma data_ok_submit:
  assumes "data_ok st i c js written" "seq c' = Suc (seq c)" "tail c' = []"
    and "set js' = insert j0 (set js)" "job_owner j0 = i" "job_seq j0 = Suc (seq c)" "job_data j0 = tail c @ p"
    and "\<And>j. j \<in> set js \<Longrightarrow> job_owner j = i \<Longrightarrow> 1 \<le> job_seq j \<and> job_seq j \<le> seq c"
  shows "data_ok st i c' js' (written @ p)"
proof -
  obtain pgs where g: "length pgs = seq c" "concat pgs @ tail c = written"
    "\<forall>j \<in> set js. job_owner j = i \<longrightarrow> job_data j = pgs ! (job_seq j - 1)"
    "\<forall>n < seq c. st (int n + 1) = Some (pgs ! n) \<or> (\<exists>j \<in> set js. job_owner j = i \<and> job_seq j = Suc n)"
    "\<forall>n. st n \<noteq> None \<longrightarrow> 1 \<le> n \<and> n \<le> int (seq c)"
    using assms(1) unfolding data_ok_def by blast
  let ?pgs = "pgs @ [tail c @ p]"
  have "job_data j = ?pgs ! (job_seq j - 1)" if "j \<in> set js'" "job_owner j = i" for j
  proof (cases "j = j0")
    case True
    then show ?thesis using assms(6,7) g(1) by (simp add: nth_append)
  next
    case False
    then have "j \<in> set js" using that(1) assms(4) by simp
    moreover from this have "job_seq j - 1 < length pgs" using that(2) assms(8) [of j] g(1) by auto
    ultimately show ?thesis using that(2) g(3) by (simp add: nth_append)
  qed
  moreover have "st (int n + 1) = Some (?pgs ! n) \<or> (\<exists>j \<in> set js'. job_owner j = i \<and> job_seq j = Suc n)"
    if "n < Suc (seq c)" for n
  proof (cases "n = seq c")
    case True
    then show ?thesis using assms(4-6) by auto
  next
    case False
    then have "n < seq c" using that by simp
    then show ?thesis using g(1,4) assms(4) by (auto simp: nth_append)
  qed
  moreover have "\<forall>n. st n \<noteq> None \<longrightarrow> 1 \<le> n \<and> n \<le> int (Suc (seq c))" using g(5) by fastforce
  moreover have "length ?pgs = Suc (seq c)" "concat ?pgs @ [] = written @ p" using g(1,2) by auto
  ultimately show ?thesis unfolding data_ok_def assms(2,3) by blast
qed

lemma data_ok_stored:
  assumes "data_ok st i c (js1 @ xs) written" "k < length xs" "job_owner (xs ! k) = i"
    and "1 \<le> job_seq (xs ! k)" "job_seq (xs ! k) \<le> seq c" "seq c' = seq c" "tail c' = tail c"
  shows "data_ok (st(int (job_seq (xs ! k)) \<mapsto> job_data (xs ! k))) i c' (js1 @ take k xs @ drop (Suc k) xs) written"
proof -
  let ?js = "js1 @ xs" and ?js' = "js1 @ take k xs @ drop (Suc k) xs" and ?j = "xs ! k"
  obtain pgs where g: "length pgs = seq c" "concat pgs @ tail c = written"
    "\<forall>j \<in> set ?js. job_owner j = i \<longrightarrow> job_data j = pgs ! (job_seq j - 1)"
    "\<forall>n < seq c. st (int n + 1) = Some (pgs ! n) \<or> (\<exists>j \<in> set ?js. job_owner j = i \<and> job_seq j = Suc n)"
    "\<forall>n. st n \<noteq> None \<longrightarrow> 1 \<le> n \<and> n \<le> int (seq c)"
    using assms(1) unfolding data_ok_def by blast
  have sub: "set ?js' \<subseteq> set ?js" by (auto dest: in_set_takeD in_set_dropD)
  have kept: "j \<in> set ?js'" if "j \<in> set ?js" "j \<noteq> ?j" for j
  proof -
    have "set xs = insert ?j (set (take k xs @ drop (Suc k) xs))"
      by (metis assms(2) Un_insert_right id_take_nth_drop list.simps(15) set_append)
    then show ?thesis using that by auto
  qed
  have data: "job_data ?j = pgs ! (job_seq ?j - 1)" using g(3) assms(2,3) by auto
  have "(st(int (job_seq ?j) \<mapsto> job_data ?j)) (int n + 1) = Some (pgs ! n) \<or> (\<exists>j \<in> set ?js'. job_owner j = i \<and> job_seq j = Suc n)"
    if "n < seq c" for n
  proof (cases "job_seq ?j = Suc n")
    case True
    then show ?thesis using data by simp
  next
    case False
    then have "int n + 1 \<noteq> int (job_seq ?j)" by linarith
    moreover have "st (int n + 1) = Some (pgs ! n) \<or> (\<exists>j \<in> set ?js'. job_owner j = i \<and> job_seq j = Suc n)"
      using g(4) that False kept by metis
    ultimately show ?thesis by simp
  qed
  moreover have "\<forall>n. (st(int (job_seq ?j) \<mapsto> job_data ?j)) n \<noteq> None \<longrightarrow> 1 \<le> n \<and> n \<le> int (seq c)"
    using g(5) assms(4,5) by auto
  ultimately show ?thesis using g(1-3) sub unfolding data_ok_def assms(6,7) by blast
qed

text \<open>Once no page is on its way, the pages read back and the tail are the bytes written.\<close>

lemma numbers_from_1: "[1..int k] = map (\<lambda>n. int n + 1) [0..<k]"
  by (induction k) (simp_all add: upto_rec2)

text \<open>What is joined is the pages that are stored, in the order of their numbers.\<close>

lemma assemble_stored:
  assumes "map_of pages = st" "distinct (map fst pages)" "\<And>n. st n \<noteq> None \<Longrightarrow> 1 \<le> n \<and> n \<le> int k"
  shows "assemble pages t = concat (map (\<lambda>n. the (st (int n + 1))) (filter (\<lambda>n. st (int n + 1) \<noteq> None) [0..<k])) @ t"
proof -
  have "set (map fst pages) = {n. st n \<noteq> None}" by (simp add: assms(1) [symmetric] map_of_eq_None_iff)
  also have "\<dots> = set (filter (\<lambda>n. st n \<noteq> None) [1..int k])" using assms(3) by auto
  finally have "sort (map fst pages) = filter (\<lambda>n. st n \<noteq> None) [1..int k]"
    using assms(2) by (intro sorted_distinct_set_unique) (simp_all add: sorted_wrt_filter)
  then show ?thesis by (simp add: assemble_def assms(1) numbers_from_1 filter_map comp_def)
qed

lemma data_ok_assembled:
  assumes "data_ok st i c js written" "\<And>j. j \<in> set js \<Longrightarrow> job_owner j \<noteq> i" "map_of pages = st" "distinct (map fst pages)"
  shows "assemble pages (tail c) = written"
proof -
  obtain pgs where g: "length pgs = seq c" "concat pgs @ tail c = written"
    "\<forall>n < seq c. st (int n + 1) = Some (pgs ! n)" "\<forall>n. st n \<noteq> None \<longrightarrow> 1 \<le> n \<and> n \<le> int (seq c)"
    using assms(1,2) unfolding data_ok_def by blast
  have "filter (\<lambda>n. st (int n + 1) \<noteq> None) [0..<seq c] = [0..<seq c]" using g(3) by (simp add: filter_id_conv)
  moreover have "map (\<lambda>n. the (st (int n + 1))) [0..<seq c] = pgs"
    using g(1,3) by (intro nth_equalityI) simp_all
  ultimately show ?thesis using assemble_stored [OF assms(3,4), of "seq c" "tail c"] g(2,4) by simp
qed

text \<open>With one page missing, its bytes are missing and the rest is in place.\<close>

lemma filter_gap: "q < k \<Longrightarrow> filter (\<lambda>n. n \<noteq> q) [0..<k] = [0..<q] @ [Suc q..<k]"
proof -
  assume q: "q < k"
  then have "[0..<k] = [0..<q] @ q # [Suc q..<k]" using upt_add_eq_append [of 0 q "k - q"] upt_conv_Cons [OF q] by simp
  moreover have "filter (\<lambda>n. n \<noteq> q) [0..<q] = [0..<q]" "filter (\<lambda>n. n \<noteq> q) [Suc q..<k] = [Suc q..<k]"
    by (simp_all add: filter_id_conv)
  ultimately show ?thesis by simp
qed

lemma data_ok_gap:
  assumes "data_ok st i c js written" "\<And>j'. j' \<in> set js \<Longrightarrow> job_owner j' = i \<Longrightarrow> j' = j" "j \<in> set js" "job_owner j = i"
    and "1 \<le> job_seq j" "job_seq j \<le> seq c" "st (int (job_seq j)) = None" "map_of pages = st" "distinct (map fst pages)"
  shows "\<exists>before after. written = before @ job_data j @ after \<and> assemble pages (tail c) = before @ after"
proof -
  obtain pgs where g: "length pgs = seq c" "concat pgs @ tail c = written"
    "\<forall>j \<in> set js. job_owner j = i \<longrightarrow> job_data j = pgs ! (job_seq j - 1)"
    "\<forall>n < seq c. st (int n + 1) = Some (pgs ! n) \<or> (\<exists>j \<in> set js. job_owner j = i \<and> job_seq j = Suc n)"
    "\<forall>n. st n \<noteq> None \<longrightarrow> 1 \<le> n \<and> n \<le> int (seq c)"
    using assms(1) unfolding data_ok_def by blast
  define q where "q = job_seq j - 1"
  have q: "q < length pgs" "job_seq j = Suc q" using assms(5,6) g(1) by (auto simp: q_def)
  have there: "st (int n + 1) = (if n = q then None else Some (pgs ! n))" if "n < seq c" for n
    using g(4) that assms(2,7) q(2) by (auto simp: algebra_simps)
  then have "filter (\<lambda>n. st (int n + 1) \<noteq> None) [0..<seq c] = filter (\<lambda>n. n \<noteq> q) [0..<seq c]"
    by (intro filter_cong) auto
  then have "filter (\<lambda>n. st (int n + 1) \<noteq> None) [0..<seq c] = [0..<q] @ [Suc q..<seq c]" using filter_gap q(1) g(1) by simp
  moreover have "map (\<lambda>n. the (st (int n + 1))) [0..<q] = take q pgs"
    using there q(1) g(1) by (intro nth_equalityI) simp_all
  moreover have "map (\<lambda>n. the (st (int n + 1))) [Suc q..<seq c] = drop (Suc q) pgs"
    using there [of "Suc q + _"] g(1) by (intro nth_equalityI) simp_all
  ultimately have "assemble pages (tail c) = concat (take q pgs) @ concat (drop (Suc q) pgs) @ tail c"
    using assemble_stored [OF assms(8,9), of "seq c" "tail c"] g(5) by simp
  moreover have "pgs = take q pgs @ job_data j # drop (Suc q) pgs"
    using g(3) assms(3,4) q by (simp add: id_take_nth_drop)
  then have "written = concat (take q pgs) @ job_data j @ concat (drop (Suc q) pgs) @ tail c"
    using g(2) by (metis append.assoc concat.simps(2) concat_append)
  ultimately show ?thesis by blast
qed

text \<open>The weaker relation of pages and bytes.\<close>

lemma data_part_mono:
  assumes "data_part st i c js written" "st' \<subseteq>\<^sub>m st" "\<And>j. j \<in> set js' \<Longrightarrow> job_owner j = i \<Longrightarrow> j \<in> set js"
    and "seq c' = seq c" "tail c' = tail c \<or> tail c' = []"
  shows "data_part st' i c' js' written"
proof -
  obtain pgs where g: "length pgs = seq c" "subseq (concat pgs @ tail c) written"
    "\<forall>j \<in> set js. job_owner j = i \<longrightarrow> job_data j = pgs ! (job_seq j - 1)"
    "\<forall>n b. st n = Some b \<longrightarrow> 1 \<le> n \<and> n \<le> int (seq c) \<and> b = pgs ! nat (n - 1)"
    using assms(1) unfolding data_part_def by blast
  have "subseq (concat pgs @ tail c') (concat pgs @ tail c)" using assms(5) by auto
  then have "subseq (concat pgs @ tail c') written" using g(2) by (rule subseq_order.order_trans)
  moreover have "\<forall>n b. st' n = Some b \<longrightarrow> 1 \<le> n \<and> n \<le> int (seq c) \<and> b = pgs ! nat (n - 1)"
    using g(4) assms(2) by (metis domI map_le_def)
  ultimately show ?thesis using g(1,3) assms(3,4) unfolding data_part_def by metis
qed

lemma data_part_stored:
  assumes "data_part st i c js written" "j \<in> set js" "job_owner j = i" "1 \<le> job_seq j" "job_seq j \<le> seq c"
  shows "data_part (st(int (job_seq j) \<mapsto> job_data j)) i c js written"
proof -
  obtain pgs where g: "length pgs = seq c" "subseq (concat pgs @ tail c) written"
    "\<forall>j \<in> set js. job_owner j = i \<longrightarrow> job_data j = pgs ! (job_seq j - 1)"
    "\<forall>n b. st n = Some b \<longrightarrow> 1 \<le> n \<and> n \<le> int (seq c) \<and> b = pgs ! nat (n - 1)"
    using assms(1) unfolding data_part_def by blast
  have "nat (int (job_seq j) - 1) = job_seq j - 1" by simp
  then have "\<forall>n b. (st(int (job_seq j) \<mapsto> job_data j)) n = Some b \<longrightarrow> 1 \<le> n \<and> n \<le> int (seq c) \<and> b = pgs ! nat (n - 1)"
    using g(3,4) assms(2-5) by (simp add: fun_upd_def)
  then show ?thesis using g(1-3) unfolding data_part_def by blast
qed

lemma data_part_write:
  assumes "Write_begin cfg i p c q = (fired, c', q')" "data_part st i c (q @ ts) written"
    and "\<And>j. j \<in> set (q @ ts) \<Longrightarrow> job_owner j = i \<Longrightarrow> 1 \<le> job_seq j \<and> job_seq j \<le> seq c"
  shows "data_part st i c' (q' @ ts) (if sealed c \<or> failed c then written else written @ p)"
proof -
  obtain pgs where g: "length pgs = seq c" "subseq (concat pgs @ tail c) written"
    "\<forall>j \<in> set (q @ ts). job_owner j = i \<longrightarrow> job_data j = pgs ! (job_seq j - 1)"
    "\<forall>n b. st n = Some b \<longrightarrow> 1 \<le> n \<and> n \<le> int (seq c) \<and> b = pgs ! nat (n - 1)"
    using assms(2) unfolding data_part_def by blast
  have more: "subseq (concat pgs @ tail c @ p) (written @ p)"
    using g(2) by (metis append.assoc subseq_append)
  let ?pgs = "pgs @ [tail c @ p]"
  have jd: "job_data j = ?pgs ! (job_seq j - 1)" if "j \<in> set (q @ ts)" "job_owner j = i" for j
  proof -
    have "job_seq j - 1 < length pgs" using assms(3) [OF that] g(1) by linarith
    then show ?thesis using g(3) that by (simp add: nth_append)
  qed
  have st: "1 \<le> n \<and> n \<le> int (Suc (seq c)) \<and> b = ?pgs ! nat (n - 1)" if "st n = Some b" for n b
  proof -
    have "1 \<le> n" "n \<le> int (seq c)" "b = pgs ! nat (n - 1)" using g(4) that by blast+
    then show ?thesis using g(1) by (auto simp: nth_append)
  qed
  from assms(1) show ?thesis
  proof (cases rule: Write_begin_cases)
    case ignored
    then show ?thesis using assms(2) by simp
  next
    case buffered
    then show ?thesis using g(1,3,4) more unfolding data_part_def by (intro exI [of _ pgs]) auto
  next
    case queued
    have "\<forall>j \<in> set (q' @ ts). job_owner j = i \<longrightarrow> job_data j = ?pgs ! (job_seq j - 1)"
      using jd g(1) queued(4) by (auto simp: nth_append)
    then show ?thesis using queued g(1) more st unfolding data_part_def by (intro exI [of _ ?pgs]) auto
  next
    case full
    then show ?thesis using g(1) more st jd unfolding data_part_def by (intro exI [of _ ?pgs]) auto
  qed
qed

lemma subseq_concat_filter: "subseq (concat (map f (filter P xs))) (concat (map f xs))"
  by (induction xs) (auto intro: list_emb_append_mono)

lemma data_part_assembled:
  assumes "data_part st i c js written" "map_of pages = st" "distinct (map fst pages)"
  shows "subseq (assemble pages (tail c)) written"
proof -
  obtain pgs where g: "length pgs = seq c" "subseq (concat pgs @ tail c) written"
    "\<forall>n b. st n = Some b \<longrightarrow> 1 \<le> n \<and> n \<le> int (seq c) \<and> b = pgs ! nat (n - 1)"
    using assms(1) unfolding data_part_def by blast
  let ?P = "\<lambda>n. st (int n + 1) \<noteq> None"
  have "map (\<lambda>n. the (st (int n + 1))) (filter ?P [0..<seq c]) = map (\<lambda>n. pgs ! n) (filter ?P [0..<seq c])"
    using g(3) by (intro map_cong) force+
  moreover have "1 \<le> n \<and> n \<le> int (seq c)" if "st n \<noteq> None" for n using g(3) that by blast
  note assemble_stored [OF assms(2,3) this, of "tail c"]
  ultimately have "assemble pages (tail c) = concat (map (\<lambda>n. pgs ! n) (filter ?P [0..<length pgs])) @ tail c"
    unfolding g(1) by metis
  moreover have "subseq (concat (map (\<lambda>n. pgs ! n) (filter ?P [0..<length pgs]))) (concat pgs)"
    using subseq_concat_filter [of "\<lambda>n. pgs ! n" ?P "[0..<length pgs]"] by (simp add: map_nth)
  ultimately have "subseq (assemble pages (tail c)) (concat pgs @ tail c)" by (simp add: list_emb_append_mono)
  then show ?thesis using g(2) by (rule subseq_order.order_trans)
qed

section \<open>The invariant is kept\<close>

text \<open>Proved from the contract of the page store alone.\<close>

context temp_page_store
begin

lemma flush_page_step:
  assumes "flush_page P cfg j (m, s) = (bad, m', s')" "inv s" "in_int64 (int (job_seq j))"
  shows "inv s'" "rid \<noteq> job_requestID j \<Longrightarrow> pages s' rid = pages s rid"
    and "\<not> bad \<Longrightarrow> pages s' (job_requestID j) = (pages s (job_requestID j))(int (job_seq j) \<mapsto> job_data j)"
    and "pages s' = pages s \<or> pages s' (job_requestID j) = (pages s (job_requestID j))(int (job_seq j) \<mapsto> job_data j)"
proof -
  obtain r m1 where p: "ps_PutPage P (job_requestID j) (int (job_seq j)) (job_data j) (TTL cfg) (m, s) = (r, m1, s')"
    and bad: "bad \<longleftrightarrow> isl r"
    using assms(1) by (auto simp: flush_page_def split: prod.splits sum.splits)
  show "inv s'" by (rule put_page_inv [OF assms(2,3) p])
  show "rid \<noteq> job_requestID j \<Longrightarrow> pages s' rid = pages s rid" by (rule put_page_other [OF assms(2,3) p])
  show "\<not> bad \<Longrightarrow> pages s' (job_requestID j) = (pages s (job_requestID j))(int (job_seq j) \<mapsto> job_data j)"
    using put_page_ok [OF assms(2,3)] p bad by (cases r) auto
  show "pages s' = pages s \<or> pages s' (job_requestID j) = (pages s (job_requestID j))(int (job_seq j) \<mapsto> job_data j)"
    using put_page_ok [OF assms(2,3)] put_page_fail [OF assms(2,3)] p by (cases r) fastforce+
qed

lemma Finalize_rest_step:
  assumes "Finalize_rest P c (m, s) = (r, m', s')" "inv s"
  shows "inv s'" "rid \<noteq> requestID c \<Longrightarrow> pages s' rid = pages s rid" "pages s' rid \<subseteq>\<^sub>m pages s rid"
proof -
  obtain rg m1 s1 where g: "ps_GetPages P (requestID c) (m, s) = (rg, m1, s1)"
    by (cases "ps_GetPages P (requestID c) (m, s)") auto
  note keep = get_pages_keeps [OF assms(2) g]
  obtain rd m2 s2 where d: "ps_DeletePages P (requestID c) (m1, s1) = (rd, m2, s2)"
    by (cases "ps_DeletePages P (requestID c) (m1, s1)") auto
  have "s' = s1 \<or> s' = s2" using assms(1) g d by (auto simp: Finalize_rest_def Let_def split: sum.splits)
  then show "inv s'" "rid \<noteq> requestID c \<Longrightarrow> pages s' rid = pages s rid"
    using keep delete_inv [OF _ d] delete_other [OF _ d] by auto
  have "pages s2 = pages s1 \<or> pages s2 = (pages s1)(requestID c := Map.empty)"
    using keep delete_ok [of s1 "requestID c" m1 m2 s2] delete_fail [of s1 "requestID c" m1 _ m2 s2] d by (cases rd) simp_all
  then show "pages s' rid \<subseteq>\<^sub>m pages s rid" using \<open>s' = s1 \<or> s' = s2\<close> keep by (auto simp: map_le_def split: if_splits)
qed

lemma pool_invD:
  assumes "pool_inv inv pages s g" "unique_ids s"
  shows "inv (snd (world s))" "\<And>rid. rid \<notin> set (ids s) \<Longrightarrow> pages (snd (world s)) rid = Map.empty"
    and "\<And>i. colls s i = None \<Longrightarrow> g i = []"
    and "\<And>i c. colls s i = Some c \<Longrightarrow> \<not> failed c \<Longrightarrow> results s i = [] \<Longrightarrow>
        data_ok (pages (snd (world s)) (requestID c)) i c (jobs s) (g i)"
    and "\<And>i c. colls s i = Some c \<Longrightarrow> requestID c \<in> set (ids s)"
    and "\<And>i j c d. colls s i = Some c \<Longrightarrow> colls s j = Some d \<Longrightarrow> i \<noteq> j \<Longrightarrow> requestID c \<noteq> requestID d"
  using assms unfolding pool_inv_def unique_ids_def by blast+

lemma pool_inv_new:
  assumes "owned s" "pool_inv inv pages s g" "unique_ids s" "pool_step P cfg workers (LNew i rid b) s = Some s'"
  shows "pool_inv inv pages s' g"
proof -
  note n = step_New [OF assms(4)] and d = pool_invD [OF assms(2,3)]
  have "job_owner j \<noteq> i" if "j \<in> set (jobs s)" for j using assms(1) that n(1) unfolding owned_def by force
  then have "data_ok Map.empty i (NewCollector cfg rid b) (jobs s) []" by (intro data_ok_new) auto
  then have "data_ok (pages (snd (world s)) rid) i (NewCollector cfg rid b) (jobs s) (g i)"
    using d(2) [OF n(2)] d(3) [OF n(1)] by simp
  then show ?thesis using d(1-4) n by (auto simp: pool_inv_def)
qed

lemma data_ok_write:
  assumes "owned s" "colls s i = Some c" "Write_begin cfg i p c (queue s) = (fired, c', q')" "\<not> failed c'"
    and "data_ok st i c (jobs s) written" "set (jobs s') = set (q' @ taken s)"
  shows "data_ok st i c' (jobs s') (if sealed c \<or> failed c then written else written @ p)"
proof -
  have rng: "1 \<le> job_seq j \<and> job_seq j \<le> seq c" if "j \<in> set (jobs s)" "job_owner j = i" for j
    using assms(1) that assms(2) unfolding owned_def by fastforce
  from assms(3) show ?thesis
  proof (cases rule: Write_begin_cases)
    case ignored
    then show ?thesis using data_ok_cong [OF assms(5)] assms(6) by auto
  next
    case buffered
    then show ?thesis using data_ok_cong [OF data_ok_buffer [OF assms(5)], of c' p] assms(6) by auto
  next
    case queued
    let ?j = "\<lparr>job_requestID = requestID c, job_seq = Suc (seq c), job_data = tail c @ p, job_owner = i\<rparr>"
    have "set (jobs s') = insert ?j (set (jobs s))" using queued(4) assms(6) by auto
    then show ?thesis using data_ok_submit [OF assms(5), of c' "jobs s'" ?j p] queued rng by simp
  qed (use assms(4) in simp)
qed

lemma pool_inv_write:
  assumes "owned s" "pool_inv inv pages s g" "unique_ids s" "pool_step P cfg workers (LWrite i p) s = Some s'"
  shows "pool_inv inv pages s' (accept (LWrite i p) s g)"
proof -
  note d = pool_invD [OF assms(2,3)]
  obtain c c' q' fired where w: "colls s i = Some c" "Write_begin cfg i p c (queue s) = (fired, c', q')"
    "s' = s\<lparr>queue := q', colls := (colls s)(i \<mapsto> c'), phases := (phases s)(i := if fired then InCallback else phases s i)\<rparr>"
    using assms(4) by (rule step_Write)
  have g: "accept (LWrite i p) s g = (if sealed c \<or> failed c then g else g(i := g i @ p))"
    using w(1) by (simp add: accept_def)
  have rid: "requestID c' = requestID c" "failed c \<longrightarrow> failed c'" using w(2) by (cases rule: Write_begin_cases; simp)+
  have other: "data_ok (pages (snd (world s)) (requestID e)) j e (jobs s') (g j)"
    if "colls s j = Some e" "\<not> failed e" "results s j = []" "j \<noteq> i" for j e
    using w(2) by (cases rule: Write_begin_cases)
      (use d(4) [OF that(1-3)] that(4) w(3) in \<open>auto elim!: data_ok_cong\<close>)
  have mine: "data_ok (pages (snd (world s)) (requestID c')) i c' (jobs s') (accept (LWrite i p) s g i)"
    if "\<not> failed c'" "results s i = []"
    using data_ok_write [OF assms(1) w(1,2) that(1) d(4) [OF w(1)], of s'] that rid w(3) g by auto
  show ?thesis using d(1-3) mine other w(1,3) g unfolding pool_inv_def by auto
qed

lemma pool_inv_put:
  assumes "owned s" "small s" "pool_inv inv pages s g" "unique_ids s" "pool_step P cfg workers (LPut k) s = Some s'"
  shows "pool_inv inv pages s' g"
proof -
  note d = pool_invD [OF assms(3,4)]
  obtain c w bad where p: "k < length (taken s)" "colls s (job_owner (taken s ! k)) = Some c"
    "flush_page P cfg (taken s ! k) (world s) = (bad, w)"
    "s' = s\<lparr>taken := take k (taken s) @ drop (Suc k) (taken s), world := w,
       colls := (colls s)(job_owner (taken s ! k) \<mapsto> c\<lparr>failed := (failed c \<or> bad), inflight := inflight c - 1\<rparr>)\<rparr>"
    using assms(5,1) by (rule step_Put)
  let ?j = "taken s ! k" and ?c' = "c\<lparr>failed := (failed c \<or> bad), inflight := inflight c - 1\<rparr>"
  have "?j \<in> set (jobs s)" using p(1) by simp
  then have j: "job_requestID ?j = requestID c" "1 \<le> job_seq ?j" "job_seq ?j \<le> seq c"
    using assms(1) p(2) unfolding owned_def by fastforce+
  have "in_int64 (int (job_seq ?j))" using j(3) assms(2) p(2) by (fastforce simp: in_int64_def small_def)
  note fl = flush_page_step [of cfg ?j "fst (world s)" "snd (world s)" bad "fst w" "snd w", OF _ d(1) this]
  have "set (taken s) = insert ?j (set (take k (taken s) @ drop (Suc k) (taken s)))"
    by (metis p(1) Un_insert_right id_take_nth_drop list.simps(15) set_append)
  then have same: "j' \<in> set (jobs s') \<longleftrightarrow> j' \<in> set (jobs s)" if "job_owner j' \<noteq> job_owner ?j" for j'
    using that p(4) by auto
  have mine: "data_ok (pages (snd w) (requestID c)) (job_owner ?j) ?c' (jobs s') (g (job_owner ?j))"
    if "\<not> failed ?c'" "results s (job_owner ?j) = []"
    using data_ok_stored [OF d(4) [OF p(2)] p(1) refl j(2,3), of ?c'] fl(3) p(3,4) j(1) that by simp
  have other: "data_ok (pages (snd w) (requestID e)) i e (jobs s') (g i)"
    if "colls s i = Some e" "\<not> failed e" "results s i = []" "i \<noteq> job_owner ?j" for i e
  proof -
    have "pages (snd w) (requestID e) = pages (snd (world s)) (requestID e)"
      using fl(2) p(3) d(6) [OF that(1) p(2) that(4)] j(1) by simp
    then show ?thesis using d(4) [OF that(1-3)] same that(4) by (auto elim!: data_ok_cong)
  qed
  have "pages (snd w) rid = Map.empty" if "rid \<notin> set (ids s)" for rid
    using fl(2) [of rid] p(3) j(1) d(5) [OF p(2)] d(2) [OF that] that by auto
  moreover have "inv (snd w)" using fl(1) p(3) by simp
  ultimately show ?thesis using d(3) mine other p(2,4) unfolding pool_inv_def by auto
qed

lemma pool_inv_fin_end:
  assumes "pool_inv inv pages s g" "unique_ids s" "pool_step P cfg workers (LFinEnd i) s = Some s'"
  shows "pool_inv inv pages s' g"
proof -
  note d = pool_invD [OF assms(1,2)]
  obtain c cb r w where e: "colls s i = Some c" "Finalize_rest P c (world s) = (r, w)"
    "s' = s\<lparr>world := w, colls := (colls s)(i \<mapsto> after_callback cb c), phases := (phases s)(i := Ended),
        results := (results s)(i := results s i @ [r])\<rparr>"
    using assms(3) by (rule step_FinEnd)
  note fr = Finalize_rest_step [of c "fst (world s)" "snd (world s)" r "fst w" "snd w", OF _ d(1)]
  have "data_ok (pages (snd w) (requestID e')) j e' (jobs s') (g j)"
    if "colls s j = Some e'" "\<not> failed e'" "results s j = []" "j \<noteq> i" for j e'
    using d(4) [OF that(1-3)] fr(2) e(2,3) d(6) [OF that(1) e(1) that(4)] by simp
  moreover have "pages (snd w) rid = Map.empty" if "rid \<notin> set (ids s)" for rid
    using fr(2) [of rid] e(2) d(5) [OF e(1)] d(2) [OF that] that by auto
  moreover have "inv (snd w)" using fr(1) e(2) by simp
  ultimately show ?thesis using d(3) e(1,3) unfolding pool_inv_def by auto
qed

lemma pool_inv_step:
  assumes "owned s" "unique_ids s" "small s" "pool_inv inv pages s g" "pool_step P cfg workers l s = Some s'"
  shows "pool_inv inv pages s' (accept l s g)"
proof (cases l)
  case (LNew i rid b)
  then show ?thesis using pool_inv_new [OF assms(1,4,2)] assms(5) by (simp add: accept_def)
next
  case (LWrite i p)
  then show ?thesis using pool_inv_write [OF assms(1,4,2)] assms(5) by simp
next
  case LTake
  obtain j q where t: "queue s = j # q" "s' = s\<lparr>queue := q, taken := taken s @ [j]\<rparr>"
    using assms(5) [unfolded LTake] by (rule step_Take)
  then have "j' \<in> set (jobs s') \<longleftrightarrow> j' \<in> set (jobs s)" for j' by auto
  then have "data_ok (pages (snd (world s)) (requestID c)) i c (jobs s') (g i)"
    if "colls s i = Some c" "\<not> failed c" "results s i = []" for i c
    using pool_invD(4) [OF assms(4,2) that] by (auto elim: data_ok_cong)
  then show ?thesis using assms(4) t LTake by (auto simp: pool_inv_def accept_def)
next
  case (LPut k)
  then show ?thesis using pool_inv_put [OF assms(1,3,4,2)] assms(5) by (simp add: accept_def)
next
  case (LFinBegin i)
  from assms(5) [unfolded LFinBegin] show ?thesis
    by (rule step_FinBegin) (use assms(4) LFinBegin in \<open>auto simp: pool_inv_def accept_def\<close>)
next
  case (LFinEnd i)
  then show ?thesis using pool_inv_fin_end [OF assms(4,2)] assms(5) by (simp add: accept_def)
qed

lemma part_inv_put:
  assumes "owned s" "small s" "pool_inv inv pages s g" "unique_ids s" "part_inv pages s g" "pool_step P cfg workers (LPut k) s = Some s'"
  shows "part_inv pages s' g"
proof -
  note d = pool_invD [OF assms(3,4)]
  obtain c w bad where p: "k < length (taken s)" "colls s (job_owner (taken s ! k)) = Some c"
    "flush_page P cfg (taken s ! k) (world s) = (bad, w)"
    "s' = s\<lparr>taken := take k (taken s) @ drop (Suc k) (taken s), world := w,
       colls := (colls s)(job_owner (taken s ! k) \<mapsto> c\<lparr>failed := (failed c \<or> bad), inflight := inflight c - 1\<rparr>)\<rparr>"
    using assms(6,1) by (rule step_Put)
  let ?j = "taken s ! k" and ?c' = "c\<lparr>failed := (failed c \<or> bad), inflight := inflight c - 1\<rparr>"
  have j0: "?j \<in> set (jobs s)" using p(1) by simp
  then have j: "job_requestID ?j = requestID c" "1 \<le> job_seq ?j" "job_seq ?j \<le> seq c"
    using assms(1) p(2) unfolding owned_def by fastforce+
  have "in_int64 (int (job_seq ?j))" using j(3) assms(2) p(2) by (fastforce simp: in_int64_def small_def)
  note fl = flush_page_step [of cfg ?j "fst (world s)" "snd (world s)" bad "fst w" "snd w", OF _ d(1) this]
  have sub: "set (jobs s') \<subseteq> set (jobs s)" using p(4) by (auto dest: in_set_takeD in_set_dropD)
  have own: "data_part (pages (snd (world s)) (requestID e)) i e (jobs s) (g i)" if "colls s i = Some e" for i e
    using assms(5) that by (simp add: part_inv_def)
  have "data_part (pages (snd w) (requestID c)) (job_owner ?j) c (jobs s) (g (job_owner ?j))"
    using own [OF p(2)] data_part_stored [OF own [OF p(2)] j0 refl j(2,3)] fl(4) p(3) j(1) by auto
  then have mine: "data_part (pages (snd w) (requestID c)) (job_owner ?j) ?c' (jobs s') (g (job_owner ?j))"
    by (rule data_part_mono) (use sub in auto)
  have other: "data_part (pages (snd w) (requestID e)) i e (jobs s') (g i)" if "colls s i = Some e" "i \<noteq> job_owner ?j" for i e
  proof -
    have "pages (snd w) (requestID e) = pages (snd (world s)) (requestID e)"
      using fl(2) p(3) d(6) [OF that(1) p(2) that(2)] j(1) by simp
    then show ?thesis using own [OF that(1)] by (auto elim!: data_part_mono intro: subsetD [OF sub])
  qed
  show ?thesis using mine other p(4) unfolding part_inv_def by auto
qed

lemma part_inv_fin_end:
  assumes "pool_inv inv pages s g" "unique_ids s" "part_inv pages s g" "pool_step P cfg workers (LFinEnd i) s = Some s'"
  shows "part_inv pages s' g"
proof -
  note d = pool_invD [OF assms(1,2)]
  obtain c cb r w where e: "colls s i = Some c" "Finalize_rest P c (world s) = (r, w)"
    "s' = s\<lparr>world := w, colls := (colls s)(i \<mapsto> after_callback cb c), phases := (phases s)(i := Ended),
        results := (results s)(i := results s i @ [r])\<rparr>"
    using assms(4) by (rule step_FinEnd)
  note fr = Finalize_rest_step(3) [of c "fst (world s)" "snd (world s)" r "fst w" "snd w", OF _ d(1)]
  show ?thesis unfolding part_inv_def
  proof (intro allI impI)
    fix k e' assume e': "colls s' k = Some e'"
    then obtain e0 where e0: "colls s k = Some e0" "requestID e' = requestID e0" "seq e' = seq e0" "tail e' = tail e0 \<or> tail e' = []"
      using e(1,3) by (auto simp: after_callback_def Write_end_def split: if_splits)
    have "data_part (pages (snd (world s)) (requestID e0)) k e0 (jobs s) (g k)" using assms(3) e0(1) by (simp add: part_inv_def)
    then show "data_part (pages (snd (world s')) (requestID e')) k e' (jobs s') (g k)"
      by (rule data_part_mono) (use fr e(2,3) e0 in auto)
  qed
qed

lemma part_inv_step:
  assumes "owned s" "unique_ids s" "small s" "pool_inv inv pages s g" "part_inv pages s g" "pool_step P cfg workers l s = Some s'"
  shows "part_inv pages s' (accept l s g)"
proof (cases l)
  case (LNew i rid b)
  note n = step_New [OF assms(6) [unfolded LNew]] and d = pool_invD [OF assms(4,2)]
  have "job_owner j \<noteq> i" if "j \<in> set (jobs s)" for j using assms(1) that n(1) unfolding owned_def by force
  then have "data_part (pages (snd (world s)) rid) i (NewCollector cfg rid b) (jobs s) (g i)"
    using d(2) [OF n(2)] d(3) [OF n(1)] by (auto simp: data_part_def)
  then show ?thesis using assms(5) n LNew by (auto simp: part_inv_def accept_def)
next
  case (LWrite i p)
  obtain c c' q' fired where w: "colls s i = Some c" "Write_begin cfg i p c (queue s) = (fired, c', q')"
    "s' = s\<lparr>queue := q', colls := (colls s)(i \<mapsto> c'), phases := (phases s)(i := if fired then InCallback else phases s i)\<rparr>"
    using assms(6) [unfolded LWrite] by (rule step_Write)
  have rid: "requestID c' = requestID c" "set q' \<subseteq> set (queue s) \<union> {j. job_owner j = i}"
    using w(2) by (cases rule: Write_begin_cases; auto)+
  have own: "data_part (pages (snd (world s)) (requestID e)) k e (jobs s) (g k)" if "colls s k = Some e" for k e
    using assms(5) that by (simp add: part_inv_def)
  have "1 \<le> job_seq j \<and> job_seq j \<le> seq c" if "j \<in> set (jobs s)" "job_owner j = i" for j
    using assms(1) that w(1) unfolding owned_def by fastforce
  note mine = data_part_write [OF w(2) own [OF w(1)] this]
  have "data_part (pages (snd (world s)) (requestID e)) k e (q' @ taken s) (g k)" if "colls s k = Some e" "k \<noteq> i" for k e
    using own [OF that(1)] by (rule data_part_mono) (use rid(2) that(2) in auto)
  then show ?thesis using mine w(1,3) rid(1) LWrite unfolding part_inv_def by (auto simp: accept_def)
next
  case LTake
  obtain j q where t: "queue s = j # q" "s' = s\<lparr>queue := q, taken := taken s @ [j]\<rparr>"
    using assms(6) [unfolded LTake] by (rule step_Take)
  then have "set (jobs s') = set (jobs s)" by auto
  then have "data_part (pages (snd (world s)) (requestID c)) i c (jobs s') (g i)" if "colls s i = Some c" for i c
    using assms(5) that by (auto simp: part_inv_def data_part_def)
  then show ?thesis using t LTake by (auto simp: part_inv_def accept_def)
next
  case (LPut k)
  then show ?thesis using part_inv_put [OF assms(1,3,4,2,5)] assms(6) by (simp add: accept_def)
next
  case (LFinBegin i)
  have "data_part st k (after_callback cb c) js wr" if "data_part st k c js wr" for st k c js wr cb
    using that by (rule data_part_mono) (auto simp: after_callback_def Write_end_def)
  with assms(6) [unfolded LFinBegin] show ?thesis
    by (elim step_FinBegin) (use assms(5) LFinBegin in \<open>auto simp: part_inv_def accept_def\<close>)
next
  case (LFinEnd i)
  then show ?thesis using part_inv_fin_end [OF assms(4,2,5)] assms(6) by (simp add: accept_def)
qed

lemma small_step: "pool_step P cfg workers l s = Some s' \<Longrightarrow> owned s \<Longrightarrow> small s' \<Longrightarrow> small s"
proof -
  assume st: "pool_step P cfg workers l s = Some s'" "owned s" "small s'"
  have "\<exists>c'. colls s' i = Some c' \<and> seq c \<le> seq c'" if "colls s i = Some c" for i c
  proof (cases l)
    case (LNew k rid b)
    then show ?thesis using step_New [OF st(1) [unfolded LNew]] that by auto
  next
    case (LWrite k p)
    obtain e e' q' fired where w: "colls s k = Some e" "Write_begin cfg k p e (queue s) = (fired, e', q')"
      "s' = s\<lparr>queue := q', colls := (colls s)(k \<mapsto> e'), phases := (phases s)(k := if fired then InCallback else phases s k)\<rparr>"
      using st(1) [unfolded LWrite] by (rule step_Write)
    have "seq e \<le> seq e'" using w(2) by (cases rule: Write_begin_cases) auto
    then show ?thesis using that w(1,3) by auto
  next
    case LTake
    from st(1) [unfolded LTake] show ?thesis by (rule step_Take) (use that in auto)
  next
    case (LPut k)
    from st(1) [unfolded LPut] st(2) show ?thesis by (rule step_Put) (use that in auto)
  next
    case (LFinBegin k)
    from st(1) [unfolded LFinBegin] show ?thesis by (rule step_FinBegin) (use that in auto)
  next
    case (LFinEnd k)
    from st(1) [unfolded LFinEnd] show ?thesis by (rule step_FinEnd) (use that in auto)
  qed
  then show "small s" using st(3) unfolding small_def by (meson le_less_trans)
qed

lemma reach_invariants:
  assumes "pool_reach P cfg workers (m0, s0) s g" "inv s0" "\<And>rid. pages s0 rid = Map.empty"
  shows "owned s \<and> counted s \<and> unique_ids s \<and> (small s \<longrightarrow> pool_inv inv pages s g)"
  using assms(1)
proof (induction rule: pool_reach.induct)
  case start
  then show ?case using assms(2,3)
    by (simp add: owned_def counted_def unique_ids_def pool_inv_def NewPool_def)
next
  case (step s g l s')
  then show ?case using owned_step counted_step unique_ids_step pool_inv_step small_step by metis
qed

text \<open>The payload a \<open>Finalize\<close> assembles when the collector has not failed by the end of the wait.\<close>

lemma Finalize_payload_inv:
  assumes "pool_inv inv pages s g" "unique_ids s" "counted s"
    and "colls s i = Some c" "\<not> failed c" "results s i = []" "inflight c = 0"
    and "ps_GetPages P (requestID c) (world s) = (Inr pgs, w)"
  shows "assemble pgs (tail c) = g i"
proof -
  note d = pool_invD [OF assms(1,2)]
  have "filter (\<lambda>j. job_owner j = i) (jobs s) = []" using assms(3,4,7) by (auto simp: counted_def)
  then have "\<And>j. j \<in> set (jobs s) \<Longrightarrow> job_owner j \<noteq> i" by (auto simp: filter_empty_conv)
  moreover have "map_of pgs = pages (snd (world s)) (requestID c) \<and> distinct (map fst pgs)"
    using get_pages_result [OF d(1), of "requestID c" "fst (world s)" pgs "fst w" "snd w"] assms(8) by simp
  ultimately show ?thesis using data_ok_assembled [OF d(4) [OF assms(4-6)]] by blast
qed

lemma Finalize_payload_part:
  assumes "part_inv pages s g" "inv (snd (world s))" "colls s i = Some c"
    and "Finalize_rest P c (world s) = ((Inr a, stats), w)"
  shows "\<exists>payload. subseq payload (g i) \<and> extract_assistant payload = Inr a"
proof -
  obtain pgs w1 where get: "ps_GetPages P (requestID c) (fst (world s), snd (world s)) = (Inr pgs, w1)"
    "extract_assistant (assemble pgs (tail c)) = Inr a"
    using assms(4) by (auto simp: Finalize_rest_def Let_def split: prod.splits sum.splits)
  have "data_part (pages (snd (world s)) (requestID c)) i c (jobs s) (g i)" using assms(1,3) by (simp add: part_inv_def)
  then have "subseq (assemble pgs (tail c)) (g i)"
    using get_pages_result [OF assms(2), of "requestID c" "fst (world s)" pgs "fst w1" "snd w1"] get(1)
      data_part_assembled [of _ i c "jobs s" "g i" pgs] by simp
  then show ?thesis using get(2) by blast
qed

lemma Finalize_payload:
  assumes "pool_reach P cfg workers (m0, s0) s g" "inv s0" "\<And>rid. pages s0 rid = Map.empty" "small s"
    and "colls s i = Some c" "\<not> failed c" "results s i = []" "inflight c = 0"
    and "ps_GetPages P (requestID c) (world s) = (Inr pgs, w)"
  shows "assemble pgs (tail c) = g i"
  using reach_invariants [OF assms(1-3)] assms(4) Finalize_payload_inv [OF _ _ _ assms(5-9)] by blast

end

section \<open>Page numbers stay small\<close>

definition seq_le :: "nat \<Rightarrow> 's pool \<Rightarrow> bool" where
  "seq_le k s \<longleftrightarrow> (\<forall>i c. colls s i = Some c \<longrightarrow> seq c \<le> k)"

lemma pool_step_seq:
  assumes "pool_step P cfg n pl s = Some s'" "owned s" "seq_le k s"
  shows "seq_le (Suc k) s'"
proof (cases pl)
  case (LNew i rid b)
  from step_New [OF assms(1) [unfolded LNew]] assms(3) show ?thesis by (auto simp: seq_le_def NewCollector_def intro: le_SucI)
next
  case (LWrite i p)
  from assms(1) [unfolded LWrite] show ?thesis
  proof (rule step_Write)
    fix c c' q' fired
    assume w: "colls s i = Some c" "Write_begin cfg i p c (queue s) = (fired, c', q')"
      "s' = s\<lparr>queue := q', colls := (colls s)(i \<mapsto> c'), phases := (phases s)(i := if fired then InCallback else phases s i)\<rparr>"
    have "seq c' \<le> Suc (seq c)" using w(2) by (cases rule: Write_begin_cases) auto
    then show ?thesis using w(1,3) assms(3) by (force simp: seq_le_def intro: le_SucI)
  qed
next
  case LTake
  from assms(1) [unfolded LTake] show ?thesis by (rule step_Take) (use assms(3) in \<open>auto simp: seq_le_def intro: le_SucI\<close>)
next
  case (LPut j)
  from assms(1) [unfolded LPut] assms(2) show ?thesis
    by (rule step_Put) (use assms(3) in \<open>auto simp: seq_le_def intro: le_SucI\<close>)
next
  case (LFinBegin i)
  from assms(1) [unfolded LFinBegin] show ?thesis
    by (rule step_FinBegin) (use assms(3) in \<open>auto simp: seq_le_def intro: le_SucI\<close>)
next
  case (LFinEnd i)
  from assms(1) [unfolded LFinEnd] show ?thesis
    by (rule step_FinEnd) (use assms(3) in \<open>auto simp: seq_le_def intro: le_SucI\<close>)
qed

lemma pool_run_seq:
  "pool_run P cfg n ls s = Some s' \<Longrightarrow> owned s \<Longrightarrow> seq_le k s \<Longrightarrow> seq_le (k + length ls) s'"
proof (induction ls arbitrary: s k)
  case (Cons l ls)
  then obtain s1 where s1: "pool_step P cfg n l s = Some s1" "pool_run P cfg n ls s1 = Some s'" by (auto split: option.splits)
  from Cons.IH [OF s1(2) owned_step [OF Cons.prems(2) s1(1)] pool_step_seq [OF s1(1) Cons.prems(2,3)]] show ?case by simp
qed simp

lemma seq_le_small: "seq_le k s \<Longrightarrow> k < 2 ^ 63 \<Longrightarrow> small s"
  unfolding small_def seq_le_def by (meson le_less_trans)

section \<open>Progress\<close>

lemma drain_jobs:
  assumes "owned s" "counted s" "0 < workers"
  shows "\<exists>ls s'. set ls \<subseteq> insert LTake (range LPut) \<and> pool_run P cfg workers ls s = Some s' \<and>
    jobs s' = [] \<and> counted s'"
  using assms(1,2)
proof (induction "2 * length (queue s) + length (taken s)" arbitrary: s rule: less_induct)
  case less
  have go: ?case if st: "pool_step P cfg workers l s = Some s'" and l: "l \<in> insert LTake (range LPut)"
    and m: "2 * length (queue s') + length (taken s') < 2 * length (queue s) + length (taken s)" for l s'
  proof -
    have "owned s'" "counted s'" using owned_step counted_step st less.prems by blast+
    from less.hyps [OF m this] obtain ls s'' where "set ls \<subseteq> insert LTake (range LPut)"
      "pool_run P cfg workers ls s' = Some s''" "jobs s'' = []" "counted s''" by blast
    then show ?thesis using st l by (intro exI [of _ "l # ls"] exI [of _ s'']) simp
  qed
  show ?case
  proof (cases "taken s")
    case (Cons j js)
    show ?thesis
    proof (rule go)
      show "pool_step P cfg workers (LPut 0) s = Some (put_step P cfg 0 s)" using Cons by simp
      show "2 * length (queue (put_step P cfg 0 s)) + length (taken (put_step P cfg 0 s)) < 2 * length (queue s) + length (taken s)"
        using Cons by (simp add: put_step_def Let_def set_coll_def split: prod.splits)
    qed simp
  next
    case taken: Nil
    show ?thesis
    proof (cases "queue s")
      case Nil
      then show ?thesis using taken less.prems by (intro exI [of _ "[]"] exI [of _ s]) simp
    next
      case (Cons j q)
      show ?thesis
      proof (rule go)
        show "pool_step P cfg workers LTake s = Some (s\<lparr>queue := q, taken := taken s @ [j]\<rparr>)"
          using Cons taken assms(3) by simp
      qed (use Cons in simp_all)
    qed
  qed
qed

section \<open>Watching for the sentinel\<close>

definition done_line :: "bytes \<Rightarrow> bool" where
  "done_line l \<longleftrightarrow> TrimSpace (TrimSuffix l [cr]) = ''data: [DONE]''"

text \<open>The terminated lines of a text.\<close>

fun full_lines :: "bytes \<Rightarrow> bytes list" where
  "full_lines [] = []"
| "full_lines (c # s) =
     (if c = nl then [] # full_lines s
      else (case full_lines s of [] \<Rightarrow> [] | l # ls \<Rightarrow> (c # l) # ls))"

lemma full_lines_None: "nl \<notin> set s \<Longrightarrow> full_lines s = []"
  by (induction s) auto

lemma full_lines_line: "nl \<notin> set l \<Longrightarrow> full_lines (l @ nl # s) = l # full_lines s"
  by (induction l) auto

lemma watch_lines_hit: "fst (watch_lines buf) \<longleftrightarrow> list_ex done_line (full_lines buf)"
proof (induction buf rule: watch_lines.induct)
  case (1 buf)
  show ?case
  proof (cases "IndexByte buf nl")
    case None
    then show ?thesis by (subst watch_lines.simps) (simp add: full_lines_None del: IndexByte_None, simp add: full_lines_None)
  next
    case (Some i)
    from IndexByte_split [OF Some] have b: "full_lines buf = take i buf # full_lines (drop (Suc i) buf)"
      by (metis full_lines_line)
    show ?thesis using "1.IH" [OF Some refl refl] Some b
      by (subst watch_lines.simps) (auto simp: Let_def done_line_def [of "take i buf"])
  qed
qed

text \<open>The line that is not terminated yet.\<close>

definition open_line :: "bytes \<Rightarrow> bytes" where
  "open_line s = rev (takeWhile (\<lambda>c. c \<noteq> nl) (rev s))"

lemma open_line_append: "open_line (a @ b) = (if nl \<in> set b then open_line b else open_line a @ b)"
  by (auto simp: open_line_def takeWhile_append)

lemma open_line_fixed: "nl \<notin> set s \<Longrightarrow> open_line s = s"
proof -
  assume "nl \<notin> set s"
  then have all: "takeWhile (\<lambda>c. c \<noteq> nl) (rev s) = rev s" by (auto simp: takeWhile_eq_all_conv)
  show ?thesis unfolding open_line_def all by simp
qed

lemma open_line_nl: "open_line (nl # s) = open_line s"
  using open_line_append [of "[nl]" s] by (auto simp: open_line_fixed open_line_def [of "[nl]"])

lemma open_line_open: "open_line (open_line a @ b) = open_line (a @ b)"
proof -
  have "nl \<notin> set (open_line a)" by (auto simp: open_line_def dest: set_takeWhileD)
  then show ?thesis by (simp add: open_line_append open_line_fixed)
qed

lemma watch_lines_append:
  assumes "watch_lines a = (False, rest)"
  shows "watch_lines (a @ b) = watch_lines (rest @ b)" "rest = open_line a"
proof -
  have "watch_lines (a @ b) = watch_lines (rest @ b) \<and> rest = open_line a"
    using assms
  proof (induction a arbitrary: rest rule: watch_lines.induct)
    case (1 buf)
    show ?case
    proof (cases "IndexByte buf nl")
      case None
      then have "open_line buf = buf" by (simp add: open_line_fixed)
      then show ?thesis using "1.prems" None by (subst (asm) watch_lines.simps) (simp del: IndexByte_None)
    next
      case (Some i)
      note sp = IndexByte_split [OF Some] and lt = IndexByte_Some [OF Some]
      have nd: "TrimSpace (TrimSuffix (take i buf) [cr]) \<noteq> ''data: [DONE]''"
        and r: "watch_lines (drop (i + 1) buf) = (False, rest)"
        using "1.prems" Some by (subst (asm) watch_lines.simps, auto simp: Let_def split: if_splits)+
      have "IndexByte (buf @ b) nl = Some i"
        using IndexByte_append [of nl "take i buf" "drop (Suc i) buf @ b"] sp lt
        by (metis append.assoc append_Cons length_take min.absorb2 less_imp_le)
      then have "watch_lines (buf @ b) = watch_lines (drop (i + 1) buf @ b)"
        using nd lt by (subst watch_lines.simps) (simp add: Let_def)
      moreover have "open_line buf = open_line (drop (i + 1) buf)"
        using sp open_line_append [of "take i buf" "nl # drop (Suc i) buf"] by (simp add: open_line_nl)
      ultimately show ?thesis using "1.IH" [OF Some refl refl nd r] by simp
    qed
  qed
  then show "watch_lines (a @ b) = watch_lines (rest @ b)" "rest = open_line a" by blast+
qed

lemma watch_lines_hit_append: "fst (watch_lines a) \<Longrightarrow> fst (watch_lines (a @ b))"
proof -
  have pre: "\<exists>ls. full_lines (a @ b) = full_lines a @ ls" for a b
    by (induction a) (auto split: list.splits)
  assume "fst (watch_lines a)"
  then show ?thesis using pre [of a b] by (auto simp: watch_lines_hit)
qed

lemma watch_sticky: "sawDone c \<Longrightarrow> sawDone (fold (\<lambda>p c. snd (watchDone p c)) ps c)"
  by (induction ps arbitrary: c) (auto simp: watchDone_def)

lemma watch_chunks:
  assumes "onDone c" "\<not> sawDone c" "\<not> fst (watch_lines (scanBuf c))"
    and "\<forall>n \<le> length ps. length (open_line (scanBuf c @ concat (take n ps))) \<le> scan_cap"
  shows "sawDone (fold (\<lambda>p c. snd (watchDone p c)) ps c) \<longleftrightarrow> fst (watch_lines (scanBuf c @ concat ps))"
  using assms
proof (induction ps arbitrary: c)
  case (Cons p ps)
  obtain hit rest where w: "watch_lines (scanBuf c @ p) = (hit, rest)" by (cases "watch_lines (scanBuf c @ p)")
  show ?case
  proof (cases hit)
    case True
    then have "sawDone (snd (watchDone p c))" using w Cons.prems(1,2) by (simp add: watchDone_def)
    moreover have "fst (watch_lines ((scanBuf c @ p) @ concat ps))"
      by (rule watch_lines_hit_append) (simp add: w True)
    ultimately show ?thesis by (simp add: watch_sticky)
  next
    case False
    with w have w': "watch_lines (scanBuf c @ p) = (False, rest)" by simp
    note ap = watch_lines_append [OF w']
    have len: "length (open_line (scanBuf c @ p @ concat (take n ps))) \<le> scan_cap" if "n \<le> length ps" for n
      using Cons.prems(4) [rule_format, of "Suc n"] that by simp
    then have "length rest \<le> scan_cap" using ap(2) len [of 0] by simp
    then have c': "snd (watchDone p c) = c\<lparr>scanBuf := rest\<rparr>"
      using w' Cons.prems by (simp add: watchDone_def)
    have "\<not> fst (watch_lines rest)" using ap(1) [of "[]"] w' by (metis append_Nil2 fst_conv)
    moreover have "\<forall>n \<le> length ps. length (open_line (rest @ concat (take n ps))) \<le> scan_cap"
      using len by (simp add: ap(2) open_line_open)
    ultimately show ?thesis using Cons.IH [of "c\<lparr>scanBuf := rest\<rparr>"] Cons.prems(1,2) c' ap(1) [of "concat ps"] by simp
  qed
qed simp

text \<open>A long stream of short lines.\<close>

lemma full_lines_append: "full_lines ((a @ [nl]) @ b) = full_lines (a @ [nl]) @ full_lines b"
proof (induction a)
  case (Cons c a)
  have "full_lines (a @ [nl]) \<noteq> []" by (induction a) (auto split: list.splits)
  with Cons show ?case by (auto split: list.splits)
qed simp

lemma many_lines_hit: "list_ex f (full_lines b) \<Longrightarrow> list_ex f (full_lines (concat (replicate m (l @ [nl])) @ b))"
proof (induction m)
  case (Suc m)
  then show ?case using full_lines_append [of l "concat (replicate m (l @ [nl])) @ b"] by simp
qed simp

lemma open_line_many: "length (open_line (concat (take n (replicate m (l @ [nl]) @ ps)))) \<le> length (concat ps)"
proof -
  have many: "open_line (concat (replicate k (l @ [nl]))) = []" for k
    by (induction k) (auto simp: open_line_append open_line_nl, simp add: open_line_def)
  have short: "length (open_line s) \<le> length s" for s
    using length_takeWhile_le [of "\<lambda>c. c \<noteq> nl" "rev s"] by (simp add: open_line_def)
  have "length (concat (take k ps)) \<le> length (concat ps)" for k
    by (metis append_take_drop_id concat_append le_add1 length_append)
  then show ?thesis
    using short by (auto simp: open_line_append many take_replicate min_def intro: le_trans)
qed

text \<open>The request a step belongs to.\<close>

fun target :: "label \<Rightarrow> 's pool \<Rightarrow> nat option" where
  "target (LNew i rid b) s = Some i"
| "target (LWrite i p) s = Some i"
| "target LTake s = None"
| "target (LPut k) s = Some (job_owner (taken s ! k))"
| "target (LFinBegin i) s = Some i"
| "target (LFinEnd i) s = Some i"

text \<open>What a successful extraction says of the payload.\<close>

lemma extract_complete:
  assumes "extract_assistant payload = Inr a"
  shows "list_ex is_done (events payload) \<and> AssistantFromSSE payload = (True, Inr a) \<and> Canonicalize a = Inr a"
proof -
  have r: "AssistantFromSSE payload = (True, Inr a)"
    using assms by (auto simp: extract_assistant_def split: prod.splits sum.splits openai_error.splits if_splits)
  moreover have "Canonicalize a = Inr a"
    using r assistant_value_wf [OF acc_ok_stream [of payload]] Canonicalize_render(1)
    by (auto simp: AssistantFromSSE_unfold canonical_ok [OF acc_ok_stream] split: if_splits)
  ultimately show ?thesis by (simp add: AssistantFromSSE_unfold)
qed

section \<open>Properties\<close>

text \<open>
  The payload is complete: in every reachable state of the pool, with any number of
  concurrent requests and workers and any interleaving, when a collector's first
  \<open>Finalize\<close> reaches the end of its wait and no page of the collector failed, it reads back, in
  order, exactly the bytes its writes accepted. (Fewer than \<open>2 ^ 63\<close> pages, UUIDs distinct.)
\<close>

lemma Finalize_complete_payload:
  assumes "redis_client c strs hashes" "page_fields hashes s0" "\<And>rid. db_pages hashes s0 rid = Map.empty"
    and "pool_reach (redis_pages c) cfg workers (m0, s0) s g" "small s"
    and "colls s i = Some col" "\<not> failed col" "results s i = []" "inflight col = 0"
    and "GetPages c (requestID col) (world s) = (Inr pgs, w)"
  shows "fst (Finalize_rest (redis_pages c) col (world s)) =
    (extract_assistant (g i), \<lparr>Pages = seq col, Bytes = length (g i)\<rparr>)"
proof -
  have get: "ps_GetPages (redis_pages c) (requestID col) (world s) = (Inr pgs, w)"
    using assms(10) by (simp add: redis_pages_def)
  have "assemble pgs (tail col) = g i"
    by (rule temp_page_store.Finalize_payload [OF redis_client.redis_page_store [OF assms(1)] assms(4,2,3,5-9) get])
  then show ?thesis using get by (simp add: Finalize_rest_def Let_def)
qed

text \<open>
  The wait in \<open>Finalize\<close> cannot be stuck: from every reachable state, with at least one
  worker, steps of the workers alone empty the queue and bring every \<open>inflight\<close> to zero,
  whatever the store answers.
\<close>

lemma workers_drain:
  assumes "pool_reach P cfg workers w0 s g" "0 < workers"
  shows "\<exists>ls s'. set ls \<subseteq> insert LTake (range LPut) \<and> pool_run P cfg workers ls s = Some s' \<and>
    (\<forall>i c. colls s' i = Some c \<longrightarrow> inflight c = 0)"
proof -
  have "owned s \<and> counted s" using assms(1)
  proof (induction rule: pool_reach.induct)
    case start
    show ?case by (simp add: owned_def counted_def NewPool_def)
  next
    case (step s g l s')
    then show ?case using owned_step counted_step by blast
  qed
  then obtain ls s' where "set ls \<subseteq> insert LTake (range LPut)" "pool_run P cfg workers ls s = Some s'"
    "jobs s' = []" "counted s'" using drain_jobs [OF _ _ assms(2)] by blast
  then show ?thesis unfolding counted_def by auto
qed

text \<open>
  C20. The sentinel is detected independently of how the upstream's bytes are cut into writes, however
  long the stream: as long as no write leaves an unterminated line of more than 1 MiB
  behind (which the code drops), \<open>sawDone\<close> is set exactly when some terminated line of
  all bytes written is the sentinel.
\<close>

theorem watchDone_chunking:
  assumes "\<forall>n \<le> length ps. length (open_line (concat (take n ps))) \<le> scan_cap"
  shows "sawDone (fold (\<lambda>p c. snd (watchDone p c)) ps (NewCollector cfg rid True)) \<longleftrightarrow>
    list_ex done_line (full_lines (concat ps))"
  using watch_chunks [of "NewCollector cfg rid True" ps] assms
  by (simp add: NewCollector_def watch_lines_hit)

theorem watchDone_chunking_witness:
  "sawDone (fold (\<lambda>p c. snd (watchDone p c)) (replicate 200000 (''data: x'' @ [nl]) @ [''data: [DO'', ''NE]'' @ [cr], [nl]])
      (NewCollector \<lparr>PageSize = 8, TTL = 60, MaxPendingPages = 3\<rparr> ''r'' True))"
proof -
  let ?closing = "[''data: [DO'', ''NE]'' @ [cr], [nl]]" and ?many = "replicate 200000 (''data: x'' @ [nl])"
  have "length (concat ?closing) \<le> scan_cap" by (simp add: scan_cap_def)
  then have "\<forall>n \<le> length (?many @ ?closing). length (open_line (concat (take n (?many @ ?closing)))) \<le> scan_cap"
    using open_line_many [of _ 200000 "''data: x''" ?closing] le_trans by blast
  moreover have "list_ex done_line (full_lines (concat ?closing))" by code_simp
  then have "list_ex done_line (full_lines (concat (?many @ ?closing)))"
    unfolding concat_append by (rule many_lines_hit)
  ultimately show ?thesis using watchDone_chunking [of "?many @ ?closing"] by blast
qed

text \<open>The pages of one request after a worker failed to store one of them.\<close>

lemma put_lost:
  assumes "temp_page_store P sinv pages" "pool_reach P cfg workers (m0, s0) s g" "sinv s0" "\<And>rid. pages s0 rid = Map.empty" "small s"
    and "colls s i = Some col" "\<not> failed col" "results s i = []" "inflight col = 1" "k < length (taken s)" "job_owner (taken s ! k) = i"
    and "flush_page P cfg (taken s ! k) (world s) = (True, w)"
    and "pages (snd w) (requestID col) (int (job_seq (taken s ! k))) = None"
    and "ps_GetPages P (requestID col) w = (Inr pgs, w')"
  shows "\<exists>before after. g i = before @ job_data (taken s ! k) @ after \<and> assemble pgs (tail col) = before @ after"
proof -
  let ?j = "taken s ! k"
  have inv: "owned s" "counted s" "unique_ids s" "pool_inv sinv pages s g"
    using temp_page_store.reach_invariants [OF assms(1-4)] assms(5) by blast+
  note d = temp_page_store.pool_invD [OF assms(1) inv(4,3)]
  have j0: "?j \<in> set (jobs s)" using assms(10) by simp
  then have j: "job_requestID ?j = requestID col" "1 \<le> job_seq ?j" "job_seq ?j \<le> seq col"
    using inv(1) assms(6,11) unfolding owned_def by fastforce+
  have in64: "in_int64 (int (job_seq ?j))" using j(3) assms(5,6) by (fastforce simp: in_int64_def small_def)
  note fl = temp_page_store.flush_page_step [OF assms(1), of cfg ?j "fst (world s)" "snd (world s)" True "fst w" "snd w", OF _ d(1) in64]
  have same: "pages (snd w) (requestID col) = pages (snd (world s)) (requestID col)"
    using fl(4) assms(12,13) j(1) by auto
  have "length (filter (\<lambda>j. job_owner j = i) (jobs s)) = 1" using inv(2) assms(6,9) by (simp add: counted_def)
  then obtain x where x: "filter (\<lambda>j. job_owner j = i) (jobs s) = [x]"
    by (metis One_nat_def length_0_conv length_Suc_conv)
  have mem: "j' \<in> set [x]" if "j' \<in> set (jobs s)" "job_owner j' = i" for j'
    using that unfolding x [symmetric] by simp
  have only: "j' = ?j" if "j' \<in> set (jobs s)" "job_owner j' = i" for j'
    using mem [OF that] mem [OF j0 assms(11)] by simp
  have get: "map_of pgs = pages (snd w) (requestID col)" "distinct (map fst pgs)"
    using temp_page_store.get_pages_result [OF assms(1) fl(1), of "requestID col" "fst w" pgs "fst w'" "snd w'"] assms(12,14) by auto
  show ?thesis
    by (rule data_ok_gap [OF d(4) [OF assms(6-8)] only j0 assms(11) j(2,3)])
      (use get same assms(13) in simp_all)
qed

text \<open>
  C31. A page that fails while \<open>Finalize\<close> waits goes unnoticed, because \<open>failed\<close> is only tested before the
  wait: in every reachable state in which a first \<open>Finalize\<close> waits for a last page, when the worker's
  write of that page fails and leaves it unstored and the following read succeeds, the collector has
  failed and the \<open>Finalize\<close> nevertheless returns the extraction from the accepted bytes
  without that page, cut out of the middle of the stream.
\<close>

theorem lost_page_accepted:
  assumes "redis_client c strs hashes" "page_fields hashes s0" "\<And>rid. db_pages hashes s0 rid = Map.empty"
    and "pool_reach (redis_pages c) cfg workers (m0, s0) s g" "small s"
    and "colls s i = Some col" "\<not> failed col" "results s i = []" "phases s i = Waiting cb" "inflight col = 1"
    and "k < length (taken s)" "job_owner (taken s ! k) = i"
    and "flush_page (redis_pages c) cfg (taken s ! k) (world s) = (True, w)"
    and "db_pages hashes (snd w) (requestID col) (int (job_seq (taken s ! k))) = None"
    and "GetPages c (requestID col) w = (Inr pgs, w')"
  shows "\<exists>s' col' before after. pool_run (redis_pages c) cfg workers [LPut k, LFinEnd i] s = Some s' \<and>
    colls s' i = Some col' \<and> failed col' \<and> g i = before @ job_data (taken s ! k) @ after \<and>
    map fst (results s' i) = [extract_assistant (before @ after)]"
proof -
  have get: "ps_GetPages (redis_pages c) (requestID col) w = (Inr pgs, w')" using assms(15) by (simp add: redis_pages_def)
  obtain before after where ba: "g i = before @ job_data (taken s ! k) @ after" "assemble pgs (tail col) = before @ after"
    using put_lost [OF redis_client.redis_page_store [OF assms(1)] assms(4,2,3,5-8,10-14) get] by blast
  define s1 where "s1 = put_step (redis_pages c) cfg k s"
  have s1: "colls s1 i = Some (col\<lparr>failed := True, inflight := 0\<rparr>)" "phases s1 i = Waiting cb" "results s1 i = []" "world s1 = w"
    using assms(6,8,9,10,12,13) by (simp_all add: s1_def put_step_def Let_def set_coll_def fail_def)
  have "fst (fst (Finalize_rest (redis_pages c) (col\<lparr>failed := True, inflight := 0\<rparr>) w)) = extract_assistant (before @ after)"
    using get ba(2) by (simp add: Finalize_rest_def Let_def)
  then have "\<exists>s'. pool_step (redis_pages c) cfg workers (LFinEnd i) s1 = Some s' \<and> (\<exists>col'. colls s' i = Some col' \<and> failed col') \<and>
      map fst (results s' i) = [extract_assistant (before @ after)]"
    using s1 by (auto simp: fin_end_step_def pool_defs split: prod.splits)
  moreover have "pool_step (redis_pages c) cfg workers (LPut k) s = Some s1" using assms(11) by (simp add: s1_def)
  ultimately show ?thesis using ba(1) by fastforce
qed

text \<open>
  One request, two workers and three pages: the pages of A and [DONE] are stored, \<open>Finalize\<close> waits, and
  the worker that holds the page of B fails.
\<close>

definition lossy_cfg :: PoolConfig where
  "lossy_cfg = \<lparr>PageSize = 10, TTL = 60, MaxPendingPages = 4\<rparr>"

definition lossy_labels :: "label list" where
  "lossy_labels =
     [LNew 0 ''r'' True, LWrite 0 (encode_event [text_chunk ''A'']), LWrite 0 (encode_event [text_chunk ''B'']),
      LTake, LTake, LPut 0, LWrite 0 (encode_event [''[DONE]'']), LTake, LPut 1, LFinBegin 0]"

definition lossy_start :: "mem_db pool" where
  "lossy_start = NewPool (New, \<lparr>db_strs = [], db_hashes = [], db_faults = [False, False, True]\<rparr>)"

lemma lossy_run:
  "case pool_run (redis_pages mem_redis) lossy_cfg 2 lossy_labels lossy_start of
     None \<Rightarrow> False
   | Some s \<Rightarrow> phases s 0 = Waiting True \<and> results s 0 = [] \<and>
       map job_owner (taken s) = [0] \<and> map job_data (taken s) = [encode_event [text_chunk ''B'']] \<and>
       (case colls s 0 of None \<Rightarrow> False
        | Some c \<Rightarrow> \<not> failed c \<and> inflight c = 1 \<and> seq c = 3 \<and>
            (case flush_page (redis_pages mem_redis) lossy_cfg (taken s ! 0) (world s) of (bad, w) \<Rightarrow>
               bad \<and> map_of (db_hash (snd w) (TempKey (requestID c))) (PageField (int (job_seq (taken s ! 0)))) = None \<and>
               \<not> isl (fst (GetPages mem_redis (requestID c) w))))"
  by code_simp

theorem lost_page_accepted_witness:
  "\<exists>s s' col' before after. pool_run (redis_pages mem_redis) lossy_cfg 2 lossy_labels lossy_start = Some s \<and>
    pool_run (redis_pages mem_redis) lossy_cfg 2 [LPut 0, LFinEnd 0] s = Some s' \<and> colls s' 0 = Some col' \<and> failed col' \<and>
    accepted (redis_pages mem_redis) lossy_cfg 2 lossy_labels lossy_start (\<lambda>_. []) 0 = before @ encode_event [text_chunk ''B''] @ after \<and>
    map fst (results s' 0) = [extract_assistant (before @ after)]"
proof -
  let ?P = "redis_pages mem_redis" and ?d = "\<lparr>db_strs = [], db_hashes = [], db_faults = [False, False, True]\<rparr>"
  obtain s col w where s: "pool_run ?P lossy_cfg 2 lossy_labels lossy_start = Some s" "colls s 0 = Some col" "\<not> failed col"
      "results s 0 = []" "phases s 0 = Waiting True" "inflight col = 1" "map job_owner (taken s) = [0]"
      "flush_page ?P lossy_cfg (taken s ! 0) (world s) = (True, w)"
      "map_of (db_hash (snd w) (TempKey (requestID col))) (PageField (int (job_seq (taken s ! 0)))) = None"
      "\<not> isl (fst (GetPages mem_redis (requestID col) w))" "map job_data (taken s) = [encode_event [text_chunk ''B'']]"
    using lossy_run by (auto split: option.splits prod.splits)
  obtain pgs w' where get: "GetPages mem_redis (requestID col) w = (Inr pgs, w')"
    using s(10) by (cases "GetPages mem_redis (requestID col) w"; cases "fst (GetPages mem_redis (requestID col) w)") auto
  have j: "0 < length (taken s)" "job_owner (taken s ! 0) = 0" "job_data (taken s ! 0) = encode_event [text_chunk ''B'']"
    using s(7,11) by (auto simp: map_eq_Cons_conv)
  have start: "pool_reach ?P lossy_cfg 2 (New, ?d) lossy_start (\<lambda>_. [])" unfolding lossy_start_def by (rule pool_reach.start)
  have "seq_le (0 + length lossy_labels) s"
    using s(1) by (rule pool_run_seq) (simp_all add: lossy_start_def NewPool_def owned_def seq_le_def)
  then have small: "small s" by (rule seq_le_small) (simp add: lossy_labels_def)
  have empty: "page_fields mem_hashes ?d" "db_pages mem_hashes ?d rid = Map.empty" for rid
    by (simp_all add: page_fields_def db_pages_def mem_hashes_def db_hash_def fun_eq_iff)
  have lost: "db_pages mem_hashes (snd w) (requestID col) (int (job_seq (taken s ! 0))) = None"
    using s(9) by (simp add: db_pages_def mem_hashes_def)
  note ends = lost_page_accepted [OF mem.redis_client_axioms empty reach_run [OF start s(1)] small s(2-6) j(1,2) s(8) lost get]
  show ?thesis by (rule exI [of _ s]) (use s(1) ends [unfolded j(3)] in \<open>simp only: simp_thms\<close>)
qed

text \<open>
  C32. A second \<open>Finalize\<close> after the one at [DONE] cannot succeed once the pages were
  deleted: \<open>Write\<close> has dropped the tail and nothing is left to assemble, so the result is \<open>ErrCacheFailed\<close> for a
  failed collector, otherwise the error of reading the pages or, when they can be
  read, \<open>ErrNoAssistantMessage\<close>.
\<close>

theorem finalize_retry_fails:
  assumes "redis_client c strs hashes" "page_fields hashes s" "db_pages hashes s (requestID col) = Map.empty" "sealed col"
  shows "fst (fst (Finalize_now (redis_pages c) (Write_end col) (m, s))) =
    Inl (if failed col then ErrCacheFailed
         else (case fst (GetPages c (requestID col) (m, s)) of Inl e \<Rightarrow> ReadTempPages e | Inr pgs \<Rightarrow> ErrNoAssistantMessage))"
proof -
  have e: "tail (Write_end col) = []" "requestID (Write_end col) = requestID col" "failed (Write_end col) = failed col"
    using assms(4) by (simp_all add: Write_end_def)
  obtain r w where get: "ps_GetPages (redis_pages c) (requestID col) (m, s) = (r, fst w, snd w)" "GetPages c (requestID col) (m, s) = (r, w)"
    by (cases "GetPages c (requestID col) (m, s)") (simp add: redis_pages_def)
  have "assemble pgs [] = []" if "r = Inr pgs" for pgs
  proof -
    have "map_of pgs = Map.empty"
      using temp_page_store.get_pages_result [OF redis_client.redis_page_store [OF assms(1)] assms(2)] get(1) that assms(3) by metis
    then have "pgs = []" by (cases pgs) (auto simp: fun_eq_iff split: if_splits)
    then show ?thesis by (simp add: assemble_def)
  qed
  moreover have "extract_assistant [] = Inl ErrNoAssistantMessage" by code_simp
  ultimately show ?thesis using get e
    by (auto simp: Finalize_now_def Finalize_begin_def Finalize_rest_def Let_def split: sum.splits)
qed

theorem finalize_retry_fails_witness:
  "fst (fst (Finalize_now (redis_pages mem_redis)
     (Write_end ((NewCollector \<lparr>PageSize = 8, TTL = 60, MaxPendingPages = 3\<rparr> ''r'' True)\<lparr>tail := ''x'', sealed := True\<rparr>))
     (New, \<lparr>db_strs = [], db_hashes = [], db_faults = []\<rparr>))) = Inl ErrNoAssistantMessage"
proof -
  let ?d = "\<lparr>db_strs = [], db_hashes = [], db_faults = []\<rparr>"
  let ?c = "(NewCollector \<lparr>PageSize = 8, TTL = 60, MaxPendingPages = 3\<rparr> ''r'' True)\<lparr>tail := ''x'', sealed := True\<rparr>"
  have g: "\<exists>pgs w. GetPages mem_redis (requestID ?c) (New, ?d) = (Inr pgs, w)"
    by (simp add: GetPages_def mem_redis_def faulty_def)
  have "page_fields mem_hashes ?d" "db_pages mem_hashes ?d (requestID ?c) = Map.empty"
    by (simp_all add: page_fields_def db_pages_def mem_hashes_def db_hash_def fun_eq_iff)
  from finalize_retry_fails [OF mem.redis_client_axioms this, of New] g show ?thesis by auto
qed

text \<open>
  The two readings of the sentinel differ: a line with leading white space is the sentinel
  for \<open>watchDone\<close> but no data line for the scanner, and a data line without the
  space after the colon is the sentinel for the scanner but not for \<open>watchDone\<close>.
\<close>

lemma sentinel_readings_differ:
  "fst (watch_lines ('' data: [DONE]'' @ [nl])) \<and> \<not> list_ex is_done (events ('' data: [DONE]'' @ [nl])) \<and>
   \<not> fst (watch_lines (''data:[DONE]'' @ [nl])) \<and> list_ex is_done (events (''data:[DONE]'' @ [nl]))"
  by code_simp

end
