(* ===== verification/GoNum.thy ===== *)
theory GoNum
  imports Decode
begin

text \<open>
  Number parsing of the Go standard library as the configuration uses it: \<open>strconv.ParseFloat\<close> on
  digits with at most one point, \<open>time.ParseDuration\<close>, and the arithmetic of \<open>float64\<close> on
  non-negative values that both need. A double is a mantissa and a binary exponent; every operation
  rounds the exact result to nearest, ties to even. \<open>uint64\<close> sums are taken modulo \<open>2 ^ 64\<close>.
\<close>

section \<open>Doubles\<close>

datatype double = Fin nat int | Infinite

fun bit_len :: "nat \<Rightarrow> nat" where
  "bit_len n = (if n = 0 then 0 else Suc (bit_len (n div 2)))"

declare bit_len.simps [simp del]

definition round_div :: "nat \<Rightarrow> nat \<Rightarrow> nat" where
  "round_div a b = (let q = a div b; r = a mod b in if b < 2 * r \<or> (2 * r = b \<and> odd q) then Suc q else q)"

text \<open>The quotient \<open>n / d\<close> scaled by a power of two, as a fraction again.\<close>

definition scaled :: "nat \<Rightarrow> nat \<Rightarrow> int \<Rightarrow> nat \<times> nat" where
  "scaled n d e = (if 0 \<le> e then (n, d * 2 ^ nat e) else (n * 2 ^ nat (- e), d))"

definition log2_div :: "nat \<Rightarrow> nat \<Rightarrow> int" where
  "log2_div n d =
     (let k = int (bit_len n) - int (bit_len d) in case scaled n d k of (a, b) \<Rightarrow> if b \<le> a then k else k - 1)"

text \<open>The double nearest to \<open>n / d\<close>: 53 bits, the least exponent -1074, overflow from \<open>2 ^ 1024\<close> on.\<close>

definition nearest :: "nat \<Rightarrow> nat \<Rightarrow> double" where
  "nearest n d =
     (if n = 0 then Fin 0 0
      else (let e = max (log2_div n d - 52) (- 1074);
                m = (case scaled n d e of (a, b) \<Rightarrow> round_div a b)
            in if 971 < e \<or> (e = 971 \<and> 2 ^ 53 \<le> m) then Infinite else Fin m e))"

text \<open>The value of a finite double as a fraction, and its integer part.\<close>

definition fraction :: "nat \<Rightarrow> int \<Rightarrow> nat \<times> nat" where
  "fraction m e = (if 0 \<le> e then (m * 2 ^ nat e, 1) else (m, 2 ^ nat (- e)))"

definition trunc :: "nat \<Rightarrow> int \<Rightarrow> nat" where
  "trunc m e = (case fraction m e of (a, b) \<Rightarrow> a div b)"

fun dbl_mul :: "double \<Rightarrow> double \<Rightarrow> double" where
  "dbl_mul (Fin m e) (Fin m' e') = (case fraction (m * m') (e + e') of (a, b) \<Rightarrow> nearest a b)"
| "dbl_mul x y = Infinite"

text \<open>Division by a positive number, perhaps infinite.\<close>

fun dbl_div :: "double \<Rightarrow> double \<Rightarrow> double" where
  "dbl_div (Fin m e) (Fin m' e') =
     (case (fraction m e, fraction m' e') of ((a, b), (a', b')) \<Rightarrow> nearest (a * b') (b * a'))"
| "dbl_div (Fin m e) Infinite = Fin 0 0"
| "dbl_div Infinite y = Infinite"

section \<open>strconv.ParseFloat\<close>

text \<open>On digits and points only: one point at most, one digit at least; \<open>None\<close> also when out of range.\<close>

definition ParseFloat :: "bytes \<Rightarrow> double option" where
  "ParseFloat s =
     (let ip = takeWhile is_digit s; rest = dropWhile is_digit s;
          fp = (case rest of [] \<Rightarrow> [] | _ # t \<Rightarrow> t)
      in if ip @ fp = [] \<or> \<not> list_all is_digit fp \<or> (rest \<noteq> [] \<and> hd rest \<noteq> CHR ''.'') then None
         else (case nearest (nat (dec_val (ip @ fp))) (10 ^ length fp) of Infinite \<Rightarrow> None | Fin m e \<Rightarrow> Some (Fin m e)))"

section \<open>time.ParseDuration\<close>

definition digit_val :: "byte \<Rightarrow> nat" where
  "digit_val c = of_char c - 48"

fun leadingInt :: "nat \<Rightarrow> bytes \<Rightarrow> (nat \<times> bytes) option" where
  "leadingInt x [] = Some (x, [])"
| "leadingInt x (c # s) =
     (if \<not> is_digit c then Some (x, c # s)
      else if x > 2 ^ 63 div 10 then None
      else (let y = x * 10 + digit_val c in if y > 2 ^ 63 then None else leadingInt y s))"

fun leadingFraction :: "bool \<Rightarrow> nat \<Rightarrow> double \<Rightarrow> bytes \<Rightarrow> nat \<times> double \<times> bytes" where
  "leadingFraction ov x scale [] = (x, scale, [])"
| "leadingFraction ov x scale (c # s) =
     (if \<not> is_digit c then (x, scale, c # s)
      else if ov \<or> x > (2 ^ 63 - 1) div 10 then leadingFraction True x scale s
      else (let y = x * 10 + digit_val c in
            if y > 2 ^ 63 then leadingFraction True x scale s
            else leadingFraction False y (dbl_mul scale (Fin 10 0)) s))"

definition unitMap :: "bytes \<Rightarrow> nat option" where
  "unitMap =
     map_of [(''ns'', 1), (''us'', 1000), ([CHR 0xC2, CHR 0xB5, CHR ''s''], 1000), ([CHR 0xCE, CHR 0xBC, CHR ''s''], 1000),
       (''ms'', 1000000), (''s'', 1000000000), (''m'', 60000000000), (''h'', 3600000000000)]"

definition num_byte :: "byte \<Rightarrow> bool" where
  "num_byte c \<longleftrightarrow> c = CHR ''.'' \<or> is_digit c"

text \<open>The optional fraction after the integer part: value, scale, rest, and whether digits were there.\<close>

definition dur_fraction :: "bytes \<Rightarrow> nat \<times> double \<times> bytes \<times> bool" where
  "dur_fraction s =
     (case s of
        c # t \<Rightarrow> if c = CHR ''.'' then (case leadingFraction False 0 (Fin 1 0) t of (f, scale, r) \<Rightarrow> (f, scale, r, length r \<noteq> length t))
                 else (0, Fin 1 0, s, False)
      | [] \<Rightarrow> (0, Fin 1 0, s, False))"

text \<open>\<open>uint64(float64(f) * (float64(unit) / scale))\<close>.\<close>

definition frac_units :: "nat \<Rightarrow> nat \<Rightarrow> double \<Rightarrow> nat" where
  "frac_units f unit scale =
     (case dbl_mul (nearest f 1) (dbl_div (nearest unit 1) scale) of Fin m e \<Rightarrow> trunc m e | Infinite \<Rightarrow> 0)"

text \<open>One term, e.g. 1.5h: its nanoseconds and the rest of the string.\<close>

definition dur_term :: "bytes \<Rightarrow> (nat \<times> bytes) option" where
  "dur_term s =
     (if s = [] \<or> \<not> num_byte (hd s) then None
      else (case leadingInt 0 s of None \<Rightarrow> None
        | Some (v, s1) \<Rightarrow>
           (case dur_fraction s1 of (f, scale, s2, post) \<Rightarrow>
              if length s1 = length s \<and> \<not> post then None
              else (let u = takeWhile (Not \<circ> num_byte) s2; s3 = dropWhile (Not \<circ> num_byte) s2 in
                    case (if u = [] then None else unitMap u) of None \<Rightarrow> None
                    | Some unit \<Rightarrow>
                        if v > 2 ^ 63 div unit then None
                        else (let v2 = v * unit + (if 0 < f then frac_units f unit scale else 0) in
                              if 0 < f \<and> v2 > 2 ^ 63 then None else Some (v2, s3))))))"

lemma leadingInt_rest: "leadingInt x s = Some (v, r) \<Longrightarrow> length r \<le> length s"
  by (induction x s rule: leadingInt.induct) (auto simp: Let_def split: if_splits)

lemma leadingFraction_rest: "leadingFraction ov x sc s = (f, sc', r) \<Longrightarrow> length r \<le> length s"
  by (induction ov x sc s rule: leadingFraction.induct) (auto simp: Let_def split: if_splits)

lemma dur_fraction_rest: "dur_fraction s = (f, sc, r, p) \<Longrightarrow> length r \<le> length s"
  by (auto simp: dur_fraction_def dest: leadingFraction_rest split: list.splits if_splits prod.splits)

lemma dur_term_rest: "dur_term s = Some (v, r) \<Longrightarrow> length r < length s"
proof -
  assume a: "dur_term s = Some (v, r)"
  then obtain n s1 f sc s2 p where l: "leadingInt 0 s = Some (n, s1)" "dur_fraction s1 = (f, sc, s2, p)"
    and u: "takeWhile (Not \<circ> num_byte) s2 \<noteq> []" "r = dropWhile (Not \<circ> num_byte) s2"
    by (auto simp: dur_term_def Let_def split: if_splits option.splits prod.splits)
  have "length s2 = length (takeWhile (Not \<circ> num_byte) s2) + length r"
    using u(2) by (metis length_append takeWhile_dropWhile_id)
  then have "length r < length s2" using u(1) by simp
  then show ?thesis using leadingInt_rest [OF l(1)] dur_fraction_rest [OF l(2)] by simp
qed

function dur_loop :: "nat \<Rightarrow> bytes \<Rightarrow> nat option" where
  "dur_loop d s =
     (if s = [] then Some d
      else (case dur_term s of None \<Rightarrow> None
            | Some (v, r) \<Rightarrow> (let d1 = (d + v) mod 2 ^ 64 in if d1 > 2 ^ 63 then None else dur_loop d1 r)))"
  by pat_completeness auto
termination
  by (relation "measure (\<lambda>(d, s). length s)") (auto dest: dur_term_rest)

declare dur_loop.simps [simp del]

definition ParseDuration :: "bytes \<Rightarrow> int option" where
  "ParseDuration orig =
     (case split_sign orig of (neg, s) \<Rightarrow>
        if s = ''0'' then Some 0
        else if s = [] then None
        else (case dur_loop 0 s of None \<Rightarrow> None
              | Some d \<Rightarrow> if neg then Some (- int d) else if d > 2 ^ 63 - 1 then None else Some (int d)))"

end
