(* ===== verification/Config.thy ===== *)
theory Config
  imports GoNum
begin

text \<open>
  Package \<open>internal/config\<close> (config.go): the configuration record, its defaults, the decoding of
  durations and byte sizes from YAML scalars, \<open>Validate\<close> and \<open>Load\<close>. Durations and byte sizes are Go
  \<open>int64\<close> values, kept as integers with the wrap-around written out. A YAML scalar is the
  tag and the value of its node; the YAML library's filling of the record and \<open>url.Parse\<close>, whose
  treatment of bracketed hosts depends on the Go release, are arguments. Error texts are not kept.
\<close>

section \<open>Machine integers\<close>

definition wrap64 :: "int \<Rightarrow> int" where
  "wrap64 n = (n + 2 ^ 63) mod 2 ^ 64 - 2 ^ 63"

lemma wrap64_id: "in_int64 n \<Longrightarrow> wrap64 n = n"
  by (simp add: wrap64_def in_int64_def)

section \<open>The configuration\<close>

record Redis =
  Addr :: bytes
  DB :: int
  Timeout :: int

record ResponseCache =
  rc_PageSize :: int
  rc_TTL :: int
  Workers :: int
  rc_MaxPendingPages :: int

record Config =
  Listen :: bytes
  BaseURL :: bytes
  cfg_Redis :: Redis
  Session_TTL :: int
  cfg_ResponseCache :: ResponseCache
  MaxRequestBody :: int
  Level :: bytes

definition Second :: int where "Second = 1000000000"
definition Minute :: int where "Minute = 60 * Second"
definition Hour :: int where "Hour = 60 * Minute"

definition Default :: Config where
  "Default =
     \<lparr>Listen = '':8080'', BaseURL = [],
      cfg_Redis = \<lparr>Addr = ''127.0.0.1:6379'', DB = 0, Timeout = 2 * Second\<rparr>,
      Session_TTL = 168 * Hour,
      cfg_ResponseCache = \<lparr>rc_PageSize = 4 * 2 ^ 20, rc_TTL = 30 * Minute, Workers = 4, rc_MaxPendingPages = 8\<rparr>,
      MaxRequestBody = 32 * 2 ^ 20,
      Level = ''info''\<rparr>"

text \<open>A node tagged !!int is a number of seconds; the product is computed in 64 bits.\<close>

definition duration_of_int_node :: "bytes \<Rightarrow> int option" where
  "duration_of_int_node value = (case Atoi value of None \<Rightarrow> None | Some secs \<Rightarrow> Some (wrap64 (secs * Second)))"

definition Duration_UnmarshalYAML :: "bytes \<Rightarrow> bytes \<Rightarrow> int option" where
  "Duration_UnmarshalYAML tag value =
     (if tag = ''!!int'' then duration_of_int_node value else ParseDuration (TrimSpace value))"

text \<open>
  \<open>strings.ToUpper\<close>: besides the ASCII letters only U+0131 and U+017F have an ASCII upper case;
  every other rune stays outside ASCII, where no suffix lies, and is left as it is here.
\<close>

definition upper_rune :: "nat \<Rightarrow> nat" where
  "upper_rune r = (if 97 \<le> r \<and> r \<le> 122 then r - 32 else if r = 0x131 then 0x49 else if r = 0x17F then 0x53 else r)"

definition ToUpper :: "bytes \<Rightarrow> bytes" where
  "ToUpper s = utf8 (map upper_rune (runes s))"

text \<open>The binary logarithm of \<open>mult\<close>.\<close>

definition size_suffix :: "bytes \<Rightarrow> nat option" where
  "size_suffix =
     map_of [([], 0), (''B'', 0), (''K'', 10), (''KB'', 10), (''KIB'', 10), (''M'', 20), (''MB'', 20), (''MIB'', 20),
       (''G'', 30), (''GB'', 30), (''GIB'', 30), (''T'', 40), (''TB'', 40), (''TIB'', 40)]"

text \<open>
  The conversion \<open>int64(f * mult)\<close> truncates; what it yields out of range depends on the machine and
  is the argument \<open>oob\<close>. The product with a power of two is exact.
\<close>

definition ByteSize_UnmarshalYAML :: "int \<Rightarrow> bytes \<Rightarrow> bytes \<Rightarrow> int option" where
  "ByteSize_UnmarshalYAML oob tag value =
     (if tag = ''!!int'' then Atoi value
      else (let s = ToUpper (TrimSpace value);
                numStr = takeWhile num_byte s; suffix = TrimSpace (dropWhile num_byte s)
            in if numStr = [] then None
               else (case size_suffix suffix of None \<Rightarrow> None
                 | Some k \<Rightarrow>
                    (case ParseFloat numStr of
                       Some (Fin m e) \<Rightarrow> Some (let x = trunc m (e + int k) in if x < 2 ^ 63 then int x else oob)
                     | _ \<Rightarrow> None))))"

datatype config_error = ReadFailed | ParseFailed | BaseURLRequired | BaseURLInvalid | AddrRequired | TimeoutPositive
  | SessionTTLPositive | PageSizePositive | CacheTTLPositive | WorkersPositive | MaxPendingPositive | MaxBodyPositive

text \<open>The checks of \<open>Validate\<close> after those on the upstream URL, in order; \<open>None\<close> when all hold.\<close>

definition validate_ranges :: "Config \<Rightarrow> config_error option" where
  "validate_ranges c =
     (if TrimSpace (Addr (cfg_Redis c)) = [] then Some AddrRequired
      else if Timeout (cfg_Redis c) \<le> 0 then Some TimeoutPositive
      else if Session_TTL c \<le> 0 then Some SessionTTLPositive
      else if rc_PageSize (cfg_ResponseCache c) \<le> 0 then Some PageSizePositive
      else if rc_TTL (cfg_ResponseCache c) \<le> 0 then Some CacheTTLPositive
      else if Workers (cfg_ResponseCache c) \<le> 0 then Some WorkersPositive
      else if rc_MaxPendingPages (cfg_ResponseCache c) \<le> 0 then Some MaxPendingPositive
      else if MaxRequestBody c \<le> 0 then Some MaxBodyPositive
      else None)"

text \<open>\<open>parse\<close> is \<open>url.Parse\<close>: the scheme and the host, or an error.\<close>

definition Validate :: "(bytes \<Rightarrow> (bytes \<times> bytes) option) \<Rightarrow> Config \<Rightarrow> config_error option" where
  "Validate parse c =
     (if TrimSpace (BaseURL c) = [] then Some BaseURLRequired
      else (case parse (BaseURL c) of None \<Rightarrow> Some BaseURLInvalid
        | Some (scheme, host) \<Rightarrow>
            if (scheme \<noteq> ''http'' \<and> scheme \<noteq> ''https'') \<or> host = [] then Some BaseURLInvalid
            else validate_ranges c))"

text \<open>\<open>file\<close> is what \<open>os.ReadFile\<close> returned and \<open>decode\<close> is \<open>yaml.Unmarshal\<close> into a given record.\<close>

definition Load ::
  "(bytes \<Rightarrow> (bytes \<times> bytes) option) \<Rightarrow> (bytes \<Rightarrow> Config \<Rightarrow> Config option) \<Rightarrow> bytes option \<Rightarrow> config_error + Config" where
  "Load parse decode file =
     (case file of None \<Rightarrow> Inl ReadFailed
      | Some raw \<Rightarrow> (case decode raw Default of None \<Rightarrow> Inl ParseFailed
          | Some cfg \<Rightarrow> (case Validate parse cfg of Some e \<Rightarrow> Inl e | None \<Rightarrow> Inr cfg)))"

section \<open>Lemmas\<close>

lemma Load_accepts:
  assumes "Load parse decode file = Inr cfg"
  shows "Validate parse cfg = None"
  using assms by (auto simp: Load_def split: option.splits)

lemma Validate_accepts:
  "Validate parse c = None \<longleftrightarrow>
     TrimSpace (BaseURL c) \<noteq> [] \<and> (\<exists>scheme host. parse (BaseURL c) = Some (scheme, host) \<and> scheme \<in> {''http'', ''https''} \<and> host \<noteq> []) \<and>
     TrimSpace (Addr (cfg_Redis c)) \<noteq> [] \<and> 0 < Timeout (cfg_Redis c) \<and> 0 < Session_TTL c \<and> 0 < rc_PageSize (cfg_ResponseCache c) \<and>
     0 < rc_TTL (cfg_ResponseCache c) \<and> 0 < Workers (cfg_ResponseCache c) \<and> 0 < rc_MaxPendingPages (cfg_ResponseCache c) \<and> 0 < MaxRequestBody c"
  by (auto simp: Validate_def validate_ranges_def not_le split: option.splits if_splits)

text \<open>Digits followed by a unit or a suffix.\<close>

lemma of_char_digit: "is_digit c \<Longrightarrow> of_char c = 48 + int (digit_val c)"
proof -
  assume "is_digit c"
  then have "48 \<le> (of_char c :: nat)" by (simp add: is_digit_def less_eq_char_def)
  then have "(of_char c :: nat) = 48 + digit_val c" by (simp add: digit_val_def)
  then show ?thesis by (metis of_nat_add of_nat_numeral of_nat_of_char)
qed

definition nat_val :: "nat \<Rightarrow> bytes \<Rightarrow> nat" where
  "nat_val x ds = fold (\<lambda>c n. n * 10 + digit_val c) ds x"

lemma nat_val_simps [simp]: "nat_val x [] = x" "nat_val x (c # ds) = nat_val (x * 10 + digit_val c) ds"
  by (simp_all add: nat_val_def)

lemma nat_val_dec: "list_all is_digit ds \<Longrightarrow> fold (\<lambda>c n. n * 10 + (of_char c - 48)) ds (int x) = int (nat_val x ds)"
proof (induction ds arbitrary: x)
  case (Cons c ds)
  then have e: "int x * 10 + (of_char c - 48) = int (x * 10 + digit_val c)" by (simp add: of_char_digit)
  show ?case unfolding fold_Cons comp_apply e nat_val_simps by (rule Cons.IH) (use Cons.prems in simp)
qed simp

lemma dec_val_nat: "list_all is_digit ds \<Longrightarrow> dec_val ds = int (nat_val 0 ds)"
  using nat_val_dec [of ds 0] by (simp add: dec_val_def)

lemma nat_val_mono: "x \<le> nat_val x ds"
proof (induction ds arbitrary: x)
  case (Cons c ds)
  have "x \<le> x * 10 + digit_val c" by simp
  also have "\<dots> \<le> nat_val (x * 10 + digit_val c) ds" by (rule Cons.IH)
  finally show ?case by simp
qed simp

lemma leadingInt_digits:
  assumes "list_all is_digit ds" "s = [] \<or> \<not> is_digit (hd s)" "x \<le> 2 ^ 63"
  shows "leadingInt x (ds @ s) = (if nat_val x ds \<le> 2 ^ 63 then Some (nat_val x ds, s) else None)"
  using assms(1,3)
proof (induction ds arbitrary: x)
  case Nil
  then show ?case using assms(2) by (cases s) auto
next
  case (Cons c ds)
  let ?y = "x * 10 + digit_val c"
  have big: "nat_val ?y ds > 2 ^ 63" if "x > 2 ^ 63 div 10 \<or> ?y > 2 ^ 63"
    using that nat_val_mono [of ?y ds] by auto
  show ?case
  proof (cases "x > 2 ^ 63 div 10 \<or> ?y > 2 ^ 63")
    case True
    then show ?thesis using big Cons.prems(1) by (auto simp: Let_def)
  next
    case False
    then show ?thesis using Cons.IH [of ?y] Cons.prems(1) by (simp add: Let_def)
  qed
qed

lemma unit_facts:
  assumes "unitMap u = Some unit"
  shows "0 < unit" "u \<noteq> []" "list_all (Not \<circ> num_byte) u" "32 < (of_char (last u) :: nat) \<and> (of_char (last u) :: nat) < 128"
  using assms by (auto simp: unitMap_def num_byte_def is_digit_def less_eq_char_def split: if_splits)

lemma dur_term_digits:
  assumes "list_all is_digit ds" "ds \<noteq> []" "unitMap u = Some unit"
  shows "dur_term (ds @ u) = (if nat_val 0 ds * unit \<le> 2 ^ 63 then Some (nat_val 0 ds * unit, []) else None)"
proof -
  note u = unit_facts [OF assms(3)]
  obtain c t where ct: "u = c # t" using u(2) by (cases u) auto
  have c: "\<not> is_digit c" "c \<noteq> CHR ''.''" using u(3) ct by (auto simp: num_byte_def)
  have l: "leadingInt 0 (ds @ u) = (if nat_val 0 ds \<le> 2 ^ 63 then Some (nat_val 0 ds, u) else None)"
    by (rule leadingInt_digits [OF assms(1)]) (use c ct in auto)
  have f: "dur_fraction u = (0, Fin 1 0, u, False)" using c ct by (simp add: dur_fraction_def)
  have w: "takeWhile (Not \<circ> num_byte) u = u" "dropWhile (Not \<circ> num_byte) u = []"
    using u(3) by (auto simp: list_all_iff takeWhile_eq_all_conv dropWhile_eq_Nil_conv)
  have "num_byte (hd (ds @ u))" using assms(1,2) by (cases ds) (auto simp: num_byte_def)
  moreover have "nat_val 0 ds > 2 ^ 63 div unit \<longleftrightarrow> nat_val 0 ds * unit > 2 ^ 63"
    using u(1) by (metis div_less_iff_less_mult)
  moreover have "nat_val 0 ds \<le> 2 ^ 63" if "nat_val 0 ds * unit \<le> 2 ^ 63"
    by (rule le_trans [OF _ that]) (use u(1) in simp)
  ultimately show ?thesis by (auto simp: dur_term_def Let_def l f w u(2) assms(2,3))
qed

text \<open>Small integers are exact doubles, and so are their products with powers of two.\<close>

lemma bit_len_bounds: "n < 2 ^ bit_len n" "0 < n \<Longrightarrow> 2 ^ bit_len n \<le> 2 * n"
proof (induction n rule: bit_len.induct)
  case (1 n)
  {
    case 1
    show ?case
    proof (cases "n = 0")
      case False
      with "1.IH"(1) have "n div 2 < 2 ^ bit_len (n div 2)" by simp
      then have "n < 2 * 2 ^ bit_len (n div 2)" by linarith
      then show ?thesis using False by (subst bit_len.simps) simp
    qed (simp add: bit_len.simps)
  next
    case 2
    show ?case
    proof (cases "n div 2 = 0")
      case True
      then have "n = 1" using 2 by linarith
      then show ?thesis by (simp add: bit_len.simps)
    next
      case False
      with "1.IH"(2) 2 have "2 ^ bit_len (n div 2) \<le> 2 * (n div 2)" by simp
      then have "2 * 2 ^ bit_len (n div 2) \<le> 2 * n" by linarith
      then show ?thesis using 2 by (subst bit_len.simps) simp
    qed
  }
qed

lemma nearest_small:
  assumes "0 < n" "n < 2 ^ 53"
  shows "nearest n 1 = Fin (n * 2 ^ (53 - bit_len n)) (int (bit_len n) - 53)"
proof -
  note b = bit_len_bounds [of n]
  have "(2 :: nat) ^ bit_len n < 2 ^ 54" using b(2) [OF assms(1)] assms(2) by simp
  then have le: "bit_len n \<le> 53" using power_less_imp_less_exp [of "2 :: nat" "bit_len n" 54] by simp
  have pos: "0 < bit_len n" using assms(1) by (subst bit_len.simps) simp
  have one: "bit_len (Suc 0) = 1" by (simp add: bit_len.simps)
  have "(2 :: nat) ^ (bit_len n - 1) \<le> n" using b(2) [OF assms(1)] pos by (cases "bit_len n") auto
  then have lg: "log2_div n 1 = int (bit_len n) - 1"
    using pos by (simp add: log2_div_def one scaled_def Let_def nat_diff_distrib')
  have "nat (53 - int (bit_len n)) = 53 - bit_len n" using le by simp
  moreover have "round_div x 1 = x" for x by (simp add: round_div_def)
  ultimately have "(case scaled n 1 (int (bit_len n) - 53) of (a, b) \<Rightarrow> round_div a b) = n * 2 ^ (53 - bit_len n)"
    using le by (cases "bit_len n = 53") (auto simp: scaled_def)
  then show ?thesis using assms(1) le lg by (simp add: nearest_def Let_def max_def)
qed

lemma trunc_shift: "trunc (n * 2 ^ a) (int k - int a) = n * 2 ^ k"
proof (cases "a \<le> k")
  case True
  then have "nat (int k - int a) = k - a" by simp
  moreover have "(2 :: nat) ^ k = 2 ^ a * 2 ^ (k - a)" using True by (simp flip: power_add)
  ultimately show ?thesis using True by (simp add: trunc_def fraction_def)
next
  case False
  then have "nat (int a - int k) = a - k" by simp
  moreover have "(2 :: nat) ^ a = 2 ^ k * 2 ^ (a - k)" using False by (simp flip: power_add)
  ultimately show ?thesis using False by (simp add: trunc_def fraction_def)
qed

lemma trunc_nearest:
  assumes "n < 2 ^ 53"
  obtains m e where "nearest n 1 = Fin m e" "trunc m (e + int k) = n * 2 ^ k"
proof (cases "n = 0")
  case True
  then show thesis using that [of 0 0] by (simp add: nearest_def trunc_def fraction_def)
next
  case False
  have "bit_len n \<le> 53"
  proof -
    have "(2 :: nat) ^ bit_len n < 2 ^ 54" using bit_len_bounds(2) [of n] False assms by simp
    then show ?thesis using power_less_imp_less_exp [of "2 :: nat" "bit_len n" 54] by simp
  qed
  then have e: "int (bit_len n) - 53 + int k = int k - int (53 - bit_len n)" by simp
  have t: "trunc (n * 2 ^ (53 - bit_len n)) (int (bit_len n) - 53 + int k) = n * 2 ^ k" unfolding e by (rule trunc_shift)
  show thesis by (rule that [OF nearest_small t]) (use False assms in auto)
qed

lemma ParseFloat_digits:
  assumes "list_all is_digit ds" "ds \<noteq> []"
  shows "ParseFloat ds = (case nearest (nat_val 0 ds) 1 of Infinite \<Rightarrow> None | Fin m e \<Rightarrow> Some (Fin m e))"
proof -
  have w: "takeWhile is_digit ds = ds" "dropWhile is_digit ds = []"
    using assms(1) by (auto simp: list_all_iff takeWhile_eq_all_conv dropWhile_eq_Nil_conv)
  show ?thesis using assms by (simp add: ParseFloat_def Let_def dec_val_nat w)
qed

text \<open>ASCII text in upper case.\<close>

definition upper_byte :: "byte \<Rightarrow> byte" where
  "upper_byte c = char_of (upper_rune (of_char c))"

lemma ToUpper_ascii:
  assumes "\<forall>c \<in> set s. (of_char c :: nat) < 128"
  shows "ToUpper s = map upper_byte s"
proof -
  have "utf8 (map of_char s) = s" using assms by (induction s) (simp_all add: encode_rune_ascii)
  moreover have "\<forall>r \<in> set (map of_char s). is_scalar r" using assms by (fastforce simp: is_scalar_def is_surrogate_def)
  ultimately have "runes s = map of_char s" using runes_utf8 by metis
  then show ?thesis using assms unfolding ToUpper_def
    by (simp, induction s) (auto simp: encode_rune_ascii upper_byte_def upper_rune_def)
qed

definition ascii_letter :: "byte \<Rightarrow> bool" where
  "ascii_letter c \<longleftrightarrow> (65 \<le> (of_char c :: nat) \<and> (of_char c :: nat) \<le> 90) \<or> (97 \<le> (of_char c :: nat) \<and> (of_char c :: nat) \<le> 122)"

lemma printable_not_space:
  assumes "32 < (of_char c :: nat)" "(of_char c :: nat) < 128"
  shows "c \<notin> set space_lead_bytes" "c \<notin> set space_last_bytes"
  using assms by (auto simp: space_lead_bytes_def space_last_bytes_def space_seqs_def)

lemma printable:
  "is_digit c \<Longrightarrow> 32 < (of_char c :: nat) \<and> (of_char c :: nat) < 128" "ascii_letter c \<Longrightarrow> 32 < (of_char c :: nat) \<and> (of_char c :: nat) < 128"
  by (auto simp: is_digit_def ascii_letter_def less_eq_char_def)

lemma TrimSpace_printable: "\<forall>c \<in> set s. 32 < (of_char c :: nat) \<and> (of_char c :: nat) < 128 \<Longrightarrow> TrimSpace s = s"
proof (cases "s = []")
  case False
  assume "\<forall>c \<in> set s. 32 < (of_char c :: nat) \<and> (of_char c :: nat) < 128"
  with False have "32 < (of_char (hd s) :: nat) \<and> (of_char (hd s) :: nat) < 128" "32 < (of_char (last s) :: nat) \<and> (of_char (last s) :: nat) < 128"
    by auto
  then show ?thesis using printable_not_space by (intro TrimSpace_id) blast+
qed (simp add: TrimSpace_def trim_front.simps)

lemma upper_byte_digit: "is_digit c \<Longrightarrow> upper_byte c = c"
  by (auto simp: upper_byte_def upper_rune_def is_digit_def less_eq_char_def)

lemma upper_byte_letter: "ascii_letter c \<Longrightarrow> ascii_letter (upper_byte c)"
  by (auto simp: upper_byte_def upper_rune_def ascii_letter_def)

lemma letter_not_num: "ascii_letter c \<Longrightarrow> \<not> num_byte c"
  by (auto simp: ascii_letter_def num_byte_def is_digit_def less_eq_char_def)

section \<open>Properties\<close>

lemma wrap64_range: "in_int64 (wrap64 x)" "wrap64 x mod 2 ^ 64 = x mod 2 ^ 64"
proof -
  show "in_int64 (wrap64 x)"
    using pos_mod_bound [of "2 ^ 64" "x + 2 ^ 63"] pos_mod_sign [of "2 ^ 64" "x + 2 ^ 63"]
    by (simp add: wrap64_def in_int64_def)
  show "wrap64 x mod 2 ^ 64 = x mod 2 ^ 64" unfolding wrap64_def by (metis add_diff_cancel_right' mod_diff_left_eq)
qed



text \<open>
  C34. A duration string of one whole number, written with decimal digits only, and one unit is decoded
  exactly or, when the product does not fit 63 bits, rejected: it never wraps around, in contrast to
  a plain number of seconds. (Fractions and sums of several terms are not covered.)
\<close>

theorem duration_string_exact:
  assumes "list_all is_digit ds" "ds \<noteq> []" "unitMap u = Some unit" "tag \<noteq> ''!!int''"
  shows "Duration_UnmarshalYAML tag (ds @ u) = (if dec_val ds * int unit < 2 ^ 63 then Some (dec_val ds * int unit) else None)"
proof -
  note uf = unit_facts [OF assms(3)]
  have s: "split_sign (ds @ u) = (False, ds @ u)" using assms(1,2) by (cases ds) (auto simp: not_digit)
  have "\<not> list_all is_digit (ds @ u)" using uf by (cases u) (auto simp: num_byte_def)
  moreover have "list_all is_digit ''0''" by (simp add: is_digit_def)
  ultimately have z: "ds @ u \<noteq> ''0''" by metis
  define N where "N = nat_val 0 ds * unit"
  have v: "int N = dec_val ds * int unit" by (simp add: N_def dec_val_nat [OF assms(1)])
  have lt: "N < 2 ^ 63 \<longleftrightarrow> dec_val ds * int unit < 2 ^ 63" unfolding v [symmetric] by simp
  have "dur_loop 0 (ds @ u) = (if N \<le> 2 ^ 63 then Some N else None)"
    using assms(2) dur_term_digits [OF assms(1-3), folded N_def] by (subst dur_loop.simps) (simp add: Let_def dur_loop.simps)
  then have "ParseDuration (ds @ u) = (if N < 2 ^ 63 then Some (int N) else None)"
    using s z assms(2) by (auto simp: ParseDuration_def)
  moreover have "TrimSpace (ds @ u) = ds @ u"
  proof (rule TrimSpace_id)
    show "hd (ds @ u) \<notin> set space_lead_bytes" using assms(1,2) printable(1) printable_not_space(1) by (cases ds) auto
    show "last (ds @ u) \<notin> set space_last_bytes" using uf(2,4) printable_not_space(2) by simp
  qed
  ultimately show ?thesis unfolding lt [symmetric] v [symmetric] using assms(4) by (simp add: Duration_UnmarshalYAML_def)
qed

theorem duration_string_exact_witness:
  "Duration_UnmarshalYAML ''!!str'' (''168'' @ ''h'') =
     (if dec_val ''168'' * int 3600000000000 < 2 ^ 63 then Some (dec_val ''168'' * int 3600000000000) else None)"
  by (rule duration_string_exact) (simp_all add: is_digit_def less_eq_char_def unitMap_def)

text \<open>
  C35. A byte size of an integer below \<open>2 ^ 53\<close> and a suffix, in any spelling of upper and lower
  case, is decoded exactly although it is computed in floating point, as long as it fits 64 bits.
\<close>

theorem byte_size_exact:
  assumes "list_all is_digit ds" "ds \<noteq> []" "list_all ascii_letter sfx" "size_suffix (map upper_byte sfx) = Some k"
    and "dec_val ds < 2 ^ 53" "dec_val ds * 2 ^ k < 2 ^ 63" "tag \<noteq> ''!!int''"
  shows "ByteSize_UnmarshalYAML oob tag (ds @ sfx) = Some (dec_val ds * 2 ^ k)"
proof -
  let ?n = "nat_val 0 ds" and ?u = "map upper_byte sfx"
  have pr: "\<forall>c \<in> set (ds @ sfx). 32 < (of_char c :: nat) \<and> (of_char c :: nat) < 128"
    using assms(1,3) printable by (auto simp: list_all_iff)
  have "map upper_byte ds = ds" using assms(1) by (auto simp: list_all_iff upper_byte_digit intro: map_idI)
  then have up: "ToUpper (TrimSpace (ds @ sfx)) = ds @ ?u"
    using TrimSpace_printable [OF pr] ToUpper_ascii [of "ds @ sfx"] pr by simp
  have nb: "\<forall>c \<in> set ?u. \<not> num_byte c" "\<forall>c \<in> set ds. num_byte c"
    using assms(1,3) upper_byte_letter letter_not_num by (auto simp: list_all_iff num_byte_def)
  then have w: "takeWhile num_byte (ds @ ?u) = ds" "dropWhile num_byte (ds @ ?u) = ?u"
    by (auto simp: takeWhile_append dropWhile_append takeWhile_eq_Nil_iff dropWhile_eq_self_iff) (cases sfx; auto)+
  have "TrimSpace ?u = ?u" using assms(3) upper_byte_letter printable by (intro TrimSpace_printable) (auto simp: list_all_iff)
  moreover have v: "dec_val ds = int ?n" by (rule dec_val_nat [OF assms(1)])
  then have "?n < 2 ^ 53" using assms(5) by (metis of_nat_less_iff of_nat_numeral of_nat_power)
  then obtain m e where me: "nearest ?n 1 = Fin m e" "trunc m (e + int k) = ?n * 2 ^ k" by (rule trunc_nearest)
  moreover have iv: "int (?n * 2 ^ k) = dec_val ds * 2 ^ k" by (simp add: v)
  then have "?n * 2 ^ k < 2 ^ 63" using assms(6) by (metis of_nat_less_iff of_nat_numeral of_nat_power)
  ultimately show ?thesis
    using assms(2,4,7) up w me ParseFloat_digits [OF assms(1,2)] iv by (simp add: ByteSize_UnmarshalYAML_def Let_def)
qed

theorem byte_size_exact_witness: "ByteSize_UnmarshalYAML 0 ''!!str'' (''4'' @ ''MiB'') = Some (dec_val ''4'' * 2 ^ 20)"
  by (rule byte_size_exact) (code_simp+)

end
