(* ===== verification/Proxy.thy ===== *)
theory Proxy
  imports Session Collector Config
begin

text \<open>
  Package \<open>internal/proxy\<close> (handler.go): routing, the request side (reading, resolving, injecting
  the header, restoring the body), the treatment of the upstream's response, and the finalization
  that writes the session mapping. \<open>httputil.ReverseProxy\<close> and the HTTP server drive
  the handler: the model gives the handler's reaction to each of their calls. A finalize
  goroutine is a \<open>task\<close> that \<open>finish\<close> starts; what \<open>Collector.Finalize\<close> returned to it is
  the argument \<open>out\<close> (theory Collector says what that is). UUIDs are arguments.
\<close>

section \<open>Requests\<close>

text \<open>
  A request as the server hands it over: header keys are in canonical form, and the body is
  the bytes that can still be read and whether reading then fails. \<open>GetBody\<close> holds what the
  function of that name returns, if there is one.
\<close>

type_synonym header = "(bytes \<times> bytes list) list"

record Request =
  Method :: bytes
  Path :: bytes
  Header :: header
  Body :: bytes
  BodyError :: bool
  ContentLength :: int
  GetBody :: "bytes option"

definition Header_Get :: "header \<Rightarrow> bytes \<Rightarrow> bytes" where
  "Header_Get h k = (case map_of h k of Some (v # _) \<Rightarrow> v | _ \<Rightarrow> [])"

definition Header_Set :: "bytes \<Rightarrow> bytes \<Rightarrow> header \<Rightarrow> header" where
  "Header_Set k v h = AList.update k [v] h"

definition clientIdentity :: "header \<Rightarrow> bytes" where
  "clientIdentity h =
     HashBytes
       (if Header_Get h ''Authorization'' \<noteq> [] then Header_Get h ''Authorization''
        else if Header_Get h ''X-Api-Key'' \<noteq> [] then Header_Get h ''X-Api-Key''
        else if Header_Get h ''Api-Key'' \<noteq> [] then Header_Get h ''Api-Key''
        else ''anonymous'')"

text \<open>
  \<open>readBody\<close>: \<open>io.ReadAll\<close> on an \<open>io.LimitReader\<close>, whose limit \<open>max+1\<close> is a 64-bit sum. A limit that
  is not positive yields no bytes. \<open>None\<close> is the read error; the flag is \<open>tooLarge\<close>. What was
  read is gone from the body of the request.
\<close>

definition readBody :: "Request \<Rightarrow> int \<Rightarrow> (bytes \<times> bool) option \<times> Request" where
  "readBody r maxBytes =
     (let limit = nat (wrap64 (maxBytes + 1)); b = take limit (Body r) in
      (if BodyError r \<and> length (Body r) < limit then None
       else if int (length b) > maxBytes then Some ([], True)
       else Some (b, False),
       r\<lparr>Body := drop limit (Body r)\<rparr>))"

section \<open>Request-local state\<close>

record reqState =
  st_requestID :: bytes
  clientHash :: bytes
  sessionID :: bytes
  source :: Source
  historyHash :: bytes
  canonMsgs :: "bytes list"
  participate :: bool
  has_collector :: bool
  jsonBuf :: "bytes option"
  jsonTrunc :: bool
  eof :: bool
  earlyFinalized :: bool
  finished :: bool

definition new_reqState :: "bytes \<Rightarrow> reqState" where
  "new_reqState rid =
     \<lparr>st_requestID = rid, clientHash = [], sessionID = [], source = SourceNew, historyHash = [], canonMsgs = [],
      participate = False, has_collector = False, jsonBuf = None, jsonTrunc = False, eof = False,
      earlyFinalized = False, finished = False\<rparr>"

section \<open>The request side\<close>

definition prepare ::
  "'s SessionStore \<Rightarrow> bytes \<Rightarrow> Request \<Rightarrow> bytes \<Rightarrow> reqState \<Rightarrow> Metrics \<times> 's \<Rightarrow> (Request \<times> reqState) \<times> Metrics \<times> 's" where
  "prepare S fresh r body st w =
     (case ParseChatRequest body of
        None \<Rightarrow> ((r, st), w)
      | Some msgs \<Rightarrow>
          if msgs = [] then ((r, st), w)
          else (case seq_results (map Canonicalize msgs) of
                  Inl e \<Rightarrow> ((r, st), w)
                | Inr canon \<Rightarrow>
                    (let ch = clientIdentity (Header r) in
                     case Resolve S fresh ch canon (Header_Get (Header r) ''X-Opencode-Session'') w of (dec, w') \<Rightarrow>
                       ((r\<lparr>Header := Header_Set ''X-Opencode-Session'' (SessionID dec) (Header r)\<rparr>,
                         st\<lparr>canonMsgs := canon, clientHash := ch, sessionID := SessionID dec,
                            source := dec_Source dec, historyHash := dec_HistoryHash dec, participate := True\<rparr>), w'))))"

text \<open>
  The replies the gateway makes up itself. \<open>http.Error\<close> sets a plain-text content type and ends
  the body with a line feed.
\<close>

record http_reply =
  rp_Status :: int
  rp_ContentType :: bytes
  rp_Body :: bytes

definition readFailed :: http_reply where
  "readFailed =
     \<lparr>rp_Status = 400, rp_ContentType = ''text/plain; charset=utf-8'',
      rp_Body = ''{\"error\":{\"message\":\"failed to read request body\",\"type\":\"opgate_error\",\"code\":\"body_read_failed\"}}'' @ [nl]\<rparr>"

definition bodyTooLarge :: http_reply where
  "bodyTooLarge =
     \<lparr>rp_Status = 413, rp_ContentType = ''application/json'',
      rp_Body = ''{\"error\":{\"message\":\"request body too large\",\"type\":\"opgate_error\",\"code\":\"body_too_large\"}}''\<rparr>"

definition errorHandler :: http_reply where
  "errorHandler =
     \<lparr>rp_Status = 502, rp_ContentType = ''application/json'',
      rp_Body = ''{\"error\":{\"message\":\"upstream request failed\",\"type\":\"opgate_error\",\"code\":\"bad_gateway\"}}''\<rparr>"

text \<open>What the server sees: the reverse proxy runs on a request, or an error is answered.\<close>

datatype reply =
    Proxy Request "reqState option"
  | Reply http_reply

definition count_request :: "bytes \<Rightarrow> Metrics \<Rightarrow> Metrics" where
  "count_request kind m = m\<lparr>Requests := inc_label kind (Requests m)\<rparr>"

definition is_chat :: "Request \<Rightarrow> bool" where
  "is_chat r \<longleftrightarrow> Method r = ''POST'' \<and> HasSuffix (Path r) ''/chat/completions''"

text \<open>The body is put back for the reverse proxy.\<close>

definition restore_body :: "bytes \<Rightarrow> Request \<Rightarrow> Request" where
  "restore_body body r =
     r\<lparr>Body := body, BodyError := False, GetBody := Some body, ContentLength := int (length body),
       Header := Header_Set ''Content-Length'' (nat_dec (length body)) (Header r)\<rparr>"

definition ServeHTTP ::
  "'s SessionStore \<Rightarrow> Config \<Rightarrow> bytes \<Rightarrow> bytes \<Rightarrow> Request \<Rightarrow> Metrics \<times> 's \<Rightarrow> reply \<times> Metrics \<times> 's" where
  "ServeHTTP S cfg rid fresh r w =
     (case w of (m, s) \<Rightarrow>
        if \<not> is_chat r then (Proxy r None, count_request ''passthrough'' m, s)
        else (let m1 = count_request ''chat'' m in
          case readBody r (MaxRequestBody cfg) of
            (None, r0) \<Rightarrow> (Reply readFailed, m1, s)
          | (Some (body, tooLarge), r0) \<Rightarrow>
              if tooLarge then (Reply bodyTooLarge, m1, s)
              else (case prepare S fresh r0 body (new_reqState rid) (m1, s) of ((r1, st), w') \<Rightarrow>
                (Proxy (restore_body body r1) (Some st), w'))))"

section \<open>The response side\<close>

datatype body_kind = PlainBody | StreamBody | JsonBody

definition modifyResponse :: "int \<Rightarrow> bytes \<Rightarrow> reqState option \<Rightarrow> body_kind \<times> reqState option" where
  "modifyResponse status ct st =
     (case st of None \<Rightarrow> (PlainBody, None)
      | Some t \<Rightarrow>
          if \<not> participate t then (PlainBody, st)
          else if status < 200 \<or> status > 299 then (PlainBody, st)
          else if HasPrefix ct ''text/event-stream'' then (StreamBody, Some (t\<lparr>has_collector := True\<rparr>))
          else if Contains ct ''json'' then (JsonBody, Some (t\<lparr>jsonBuf := Some []\<rparr>))
          else (PlainBody, st))"

datatype task = FinalizeStream | FinalizeJSON | FinalizeStreamOnClose

text \<open>\<open>finish\<close>: the flag \<open>finished\<close> is the \<open>sync.Once\<close>.\<close>

definition finish :: "reqState \<Rightarrow> Metrics \<Rightarrow> task list \<times> reqState \<times> Metrics" where
  "finish st m =
     (if finished st then ([], st, m)
      else (let st1 = st\<lparr>finished := True\<rparr> in
        if earlyFinalized st then ([], st1, m)
        else if eof st then
          (if has_collector st then [FinalizeStream] else if jsonBuf st \<noteq> None then [FinalizeJSON] else [], st1,
           m\<lparr>StreamCompleted := Suc (StreamCompleted m), StreamDuration := Suc (StreamDuration m)\<rparr>)
        else if has_collector st then ([FinalizeStreamOnClose], st1, m)
        else ([], st1, m\<lparr>StreamAborted := Suc (StreamAborted m)\<rparr>)))"

definition jsonBufferLimit :: nat where "jsonBufferLimit = 67108864"

text \<open>One call of \<open>jsonBody.Read\<close> that got the bytes \<open>p\<close>, with or without end of file.\<close>

definition json_take :: "bytes \<Rightarrow> reqState \<Rightarrow> reqState" where
  "json_take p st =
     (case jsonBuf st of None \<Rightarrow> st
      | Some b \<Rightarrow>
          if p = [] then st
          else if length b + length p \<le> jsonBufferLimit then st\<lparr>jsonBuf := Some (b @ p)\<rparr>
          else st\<lparr>jsonTrunc := True, jsonBuf := None\<rparr>)"

definition at_eof :: "bool \<Rightarrow> reqState \<Rightarrow> Metrics \<Rightarrow> task list \<times> reqState \<times> Metrics" where
  "at_eof isEOF st m = (if isEOF then finish (st\<lparr>eof := True\<rparr>) m else ([], st, m))"

definition jsonBody_Read :: "bytes \<Rightarrow> bool \<Rightarrow> reqState \<Rightarrow> Metrics \<Rightarrow> task list \<times> reqState \<times> Metrics" where
  "jsonBody_Read p isEOF st m = at_eof isEOF (json_take p st) m"

text \<open>
  \<open>streamBody.Read\<close>: the bytes go to the collector first; when its call-back is due it runs
  before the end of file is looked at (\<open>at_eof\<close>).
\<close>

definition stream_take :: "PoolConfig \<Rightarrow> nat \<Rightarrow> bytes \<Rightarrow> Collector \<Rightarrow> pageJob list \<Rightarrow> bool \<times> Collector \<times> pageJob list" where
  "stream_take pcfg me p c q = (if p = [] then (False, c, q) else Write_begin pcfg me p c q)"

definition body_Close :: "reqState \<Rightarrow> Metrics \<Rightarrow> task list \<times> reqState \<times> Metrics" where
  "body_Close st m = finish st m"

section \<open>Finalization\<close>

definition putMapping :: "'s SessionStore \<Rightarrow> Config \<Rightarrow> reqState \<Rightarrow> bytes \<Rightarrow> Metrics \<times> 's \<Rightarrow> Metrics \<times> 's" where
  "putMapping S cfg st assistant w =
     (let stateHash = HashBytes (FullState (canonMsgs st) assistant) in
      case ss_PutSession S (clientHash st) stateHash (sessionID st) (Session_TTL cfg) w of (r, m, s) \<Rightarrow>
        (case r of
           Inl e \<Rightarrow> (m\<lparr>SessionMappingError := Suc (SessionMappingError m), FinalizeError := Suc (FinalizeError m)\<rparr>, s)
         | Inr _ \<Rightarrow> (m\<lparr>SessionMappingCreated := Suc (SessionMappingCreated m), FinalizeSuccess := Suc (FinalizeSuccess m)\<rparr>, s)))"

text \<open>The observations every path makes after \<open>Finalize\<close> returned.\<close>

definition observe_finalize :: "Stats \<Rightarrow> Metrics \<Rightarrow> Metrics" where
  "observe_finalize stats m =
     m\<lparr>FinalizeDuration := Suc (FinalizeDuration m), ResponseBytes := Bytes stats # ResponseBytes m,
       PageCount := Pages stats # PageCount m\<rparr>"

definition count_completed :: "Metrics \<Rightarrow> Metrics" where
  "count_completed m = m\<lparr>StreamCompleted := Suc (StreamCompleted m), StreamDuration := Suc (StreamDuration m)\<rparr>"

definition finalizeStream :: "'s SessionStore \<Rightarrow> Config \<Rightarrow> reqState \<Rightarrow> outcome \<Rightarrow> Metrics \<times> 's \<Rightarrow> Metrics \<times> 's" where
  "finalizeStream S cfg st out w =
     (if earlyFinalized st then w
      else (case (out, w) of ((r, stats), (m, s)) \<Rightarrow>
        let m1 = observe_finalize stats m in
        (case r of
           Inl e \<Rightarrow> (m1\<lparr>FinalizeError := Suc (FinalizeError m1)\<rparr>, s)
         | Inr assistant \<Rightarrow> putMapping S cfg st assistant (m1, s))))"

definition finalizeStreamOnClose :: "'s SessionStore \<Rightarrow> Config \<Rightarrow> reqState \<Rightarrow> outcome \<Rightarrow> Metrics \<times> 's \<Rightarrow> Metrics \<times> 's" where
  "finalizeStreamOnClose S cfg st out w =
     (if earlyFinalized st then w
      else (case (out, w) of ((r, stats), (m, s)) \<Rightarrow>
        let m1 = observe_finalize stats m in
        (case r of
           Inl e \<Rightarrow> (m1\<lparr>StreamAborted := Suc (StreamAborted m1), FinalizeError := Suc (FinalizeError m1)\<rparr>, s)
         | Inr assistant \<Rightarrow> putMapping S cfg st assistant (count_completed m1, s))))"

definition finalizeAtDone ::
  "'s SessionStore \<Rightarrow> Config \<Rightarrow> reqState \<Rightarrow> outcome \<Rightarrow> Metrics \<times> 's \<Rightarrow> reqState \<times> Metrics \<times> 's" where
  "finalizeAtDone S cfg st out w =
     (case (out, w) of ((r, stats), (m, s)) \<Rightarrow>
        let m1 = observe_finalize stats m in
        (case r of
           Inl e \<Rightarrow> (st, m1\<lparr>FinalizeError := Suc (FinalizeError m1)\<rparr>, s)
         | Inr assistant \<Rightarrow>
             (st\<lparr>earlyFinalized := True\<rparr>, putMapping S cfg st assistant (count_completed m1, s))))"

definition finalizeJSON :: "'s SessionStore \<Rightarrow> Config \<Rightarrow> reqState \<Rightarrow> Metrics \<times> 's \<Rightarrow> Metrics \<times> 's" where
  "finalizeJSON S cfg st w =
     (case w of (m, s) \<Rightarrow>
        let bad = (\<lambda>m. (m\<lparr>FinalizeError := Suc (FinalizeError m)\<rparr>, s)) in
        (case jsonBuf st of
           None \<Rightarrow> bad m
         | Some body \<Rightarrow>
             if jsonTrunc st then bad m
             else (let m1 = m\<lparr>ResponseBytes := length body # ResponseBytes m\<rparr> in
               case ParseCompletionResponse body of
                 Inl e \<Rightarrow> bad m1
               | Inr message \<Rightarrow>
                   (case AssistantFromMessage message of
                      Inl e \<Rightarrow> bad m1
                    | Inr assistant \<Rightarrow> putMapping S cfg st assistant (m1, s)))))"

text \<open>\<open>abortCollector\<close>, which no code of the gateway calls.\<close>

definition abortCollector :: "'s TempPageStore \<Rightarrow> Collector \<Rightarrow> Metrics \<times> 's \<Rightarrow> Collector \<times> Metrics \<times> 's" where
  "abortCollector P c w = Abort P c w"

section \<open>Lemmas\<close>

lemma Header_Get_Set [simp]:
  "Header_Get (Header_Set k v h) k' = (if k' = k then v else Header_Get h k')"
  by (simp add: Header_Get_def Header_Set_def update_conv')

lemma Header_Set_other: "k' \<noteq> k \<Longrightarrow> map_of (Header_Set k v h) k' = map_of h k'"
  by (simp add: Header_Set_def update_conv')

lemma ex4_mono: "\<exists>a b c d. P a b c d \<Longrightarrow> (\<And>a b c d. P a b c d \<Longrightarrow> Q a b c d) \<Longrightarrow> \<exists>a b c d. Q a b c d"
  by blast

lemma readBody_ok:
  assumes "0 \<le> mx" "mx < 2 ^ 63 - 1"
  shows "fst (readBody r mx) =
    (if int (length (Body r)) > mx then Some ([], True) else if BodyError r then None else Some (Body r, False))"
proof -
  have "wrap64 (mx + 1) = mx + 1" using assms by (intro wrap64_id) (simp add: in_int64_def)
  then show ?thesis using assms by (auto simp: readBody_def Let_def)
qed

text \<open>\<open>prepare\<close> does not look at what is left of the body.\<close>

lemma prepare_consumed:
  "prepare S fresh (r\<lparr>Body := b\<rparr>) body st w = (case prepare S fresh r body st w of ((r1, st'), w') \<Rightarrow> ((r1\<lparr>Body := b\<rparr>, st'), w'))"
  by (simp add: prepare_def Let_def split: option.splits sum.splits prod.splits)

lemma restore_body_simps [simp]:
  "restore_body body (r\<lparr>Body := b\<rparr>) = restore_body body r"
  "Method (restore_body body r) = Method r" "Path (restore_body body r) = Path r" "Body (restore_body body r) = body"
  "GetBody (restore_body body r) = Some body" "ContentLength (restore_body body r) = int (length body)"
  "BodyError (restore_body body r) = False"
  "k \<noteq> ''Content-Length'' \<Longrightarrow> map_of (Header (restore_body body r)) k = map_of (Header r) k"
  by (simp_all add: restore_body_def Header_Set_other)

lemma ServeHTTP_unfold:
  "ServeHTTP S cfg rid fresh r (m, s) =
     (if \<not> is_chat r then (Proxy r None, count_request ''passthrough'' m, s)
      else (case fst (readBody r (MaxRequestBody cfg)) of
          None \<Rightarrow> (Reply readFailed, count_request ''chat'' m, s)
        | Some (body, tooLarge) \<Rightarrow>
            if tooLarge then (Reply bodyTooLarge, count_request ''chat'' m, s)
            else (case prepare S fresh r body (new_reqState rid) (count_request ''chat'' m, s) of ((r1, st), w') \<Rightarrow>
              (Proxy (restore_body body r1) (Some st), w'))))"
proof -
  have "\<exists>b. snd (readBody r (MaxRequestBody cfg)) = r\<lparr>Body := b\<rparr>" by (auto simp: readBody_def Let_def)
  then obtain res b where "readBody r (MaxRequestBody cfg) = (res, r\<lparr>Body := b\<rparr>)" by (metis prod.collapse)
  then show ?thesis by (auto simp: ServeHTTP_def Let_def prepare_consumed split: option.splits prod.splits)
qed

text \<open>What \<open>prepare\<close> may change of the request and of the state.\<close>

lemma prepare_frame:
  assumes "prepare S fresh r body st w = ((r', st'), w')"
  shows "Method r' = Method r \<and> Path r' = Path r"
    and "k \<noteq> ''X-Opencode-Session'' \<Longrightarrow> map_of (Header r') k = map_of (Header r) k"
    and "\<not> participate st' \<Longrightarrow> \<not> participate st \<Longrightarrow> r' = r \<and> w' = w"
    and "participate st' \<Longrightarrow> \<not> participate st \<Longrightarrow> map_of (Header r') ''X-Opencode-Session'' = Some [sessionID st']"
  using assms
  by (auto simp: prepare_def Let_def Header_Set_other Header_Set_def update_conv'
      split: option.splits if_splits sum.splits prod.splits)

lemma prepare_participates:
  assumes "ParseChatRequest body = Some msgs" "msgs \<noteq> []"
  obtains canon dec m' s' where "map Canonicalize msgs = map Inr canon"
    "Resolve S fresh (clientIdentity (Header r)) canon (Header_Get (Header r) ''X-Opencode-Session'') (m, s) = (dec, m', s')"
    "prepare S fresh r body st (m, s) =
       ((r\<lparr>Header := Header_Set ''X-Opencode-Session'' (SessionID dec) (Header r)\<rparr>,
         st\<lparr>canonMsgs := canon, clientHash := clientIdentity (Header r), sessionID := SessionID dec,
            source := dec_Source dec, historyHash := dec_HistoryHash dec, participate := True\<rparr>), m', s')"
proof -
  have "list_all (\<lambda>x. \<exists>c. Canonicalize x = Inr c) msgs"
    using parsed_messages_canonical [OF assms(1)] by (auto simp: list_all_iff)
  then obtain canon where c: "map Canonicalize msgs = map Inr canon"
  proof (induction msgs arbitrary: thesis)
    case (Cons x xs)
    then obtain c where "Canonicalize x = Inr c" "list_all (\<lambda>x. \<exists>c. Canonicalize x = Inr c) xs" by auto
    with Cons.IH obtain cs where "map Canonicalize xs = map Inr cs" by auto
    then show ?case using Cons.prems(1) [of "c # cs"] \<open>Canonicalize x = Inr c\<close> by simp
  qed simp
  then have sr: "seq_results (map Canonicalize msgs) = Inr canon" by (simp add: seq_results_Inr_iff)
  obtain dec m' s' where r: "Resolve S fresh (clientIdentity (Header r)) canon (Header_Get (Header r) ''X-Opencode-Session'') (m, s) = (dec, m', s')"
    by (cases "Resolve S fresh (clientIdentity (Header r)) canon (Header_Get (Header r) ''X-Opencode-Session'') (m, s)") auto
  show thesis by (rule that [OF c r]) (simp add: prepare_def assms sr Let_def r)
qed

lemma clientIdentity_no_colon: "no_colon (clientIdentity h)"
proof -
  have "set (HashBytes d) \<subseteq> set ''0123456789abcdef''" for d unfolding HashBytes_def by (rule set_hex_encode)
  moreover have "CHR '':'' \<notin> set ''0123456789abcdef''" by simp
  ultimately have "CHR '':'' \<notin> set (HashBytes d)" for d by blast
  then show ?thesis by (simp add: no_colon_def clientIdentity_def)
qed

lemma ServeHTTP_chat:
  assumes "is_chat r" "fst (readBody r (MaxRequestBody cfg)) = Some (body, False)"
  obtains r1 st m' s' where "prepare S fresh r body (new_reqState rid) (count_request ''chat'' m, s) = ((r1, st), m', s')"
    "ServeHTTP S cfg rid fresh r (m, s) =
      (Proxy (restore_body body r1) (Some st), m', s')"
proof -
  obtain r1 st m' s' where p: "prepare S fresh r body (new_reqState rid) (count_request ''chat'' m, s) = ((r1, st), m', s')"
    by (cases "prepare S fresh r body (new_reqState rid) (count_request ''chat'' m, s)") auto
  show thesis by (rule that [OF p]) (simp add: ServeHTTP_unfold assms p)
qed

lemma ServeHTTP_ProxyD:
  assumes "ServeHTTP S cfg rid fresh r (m, s) = (Proxy r' (Some st), m', s')"
  obtains body r1 where "is_chat r" "fst (readBody r (MaxRequestBody cfg)) = Some (body, False)"
    "prepare S fresh r body (new_reqState rid) (count_request ''chat'' m, s) = ((r1, st), m', s')"
    "r' = restore_body body r1"
  using assms by (auto simp: ServeHTTP_unfold split: if_splits option.splits prod.splits)

lemma new_reqState_idle [simp]: "\<not> participate (new_reqState rid)"
  by (simp add: new_reqState_def)

lemma prepare_identity:
  "prepare S fresh r body st w = ((r', st'), w') \<Longrightarrow> \<not> participate st \<Longrightarrow> participate st' \<Longrightarrow>
    clientHash st' = clientIdentity (Header r)"
  by (auto simp: prepare_def Let_def split: option.splits if_splits sum.splits prod.splits)

lemma session_header_of_state:
  assumes "ServeHTTP S cfg rid fresh r (m, s) = (Proxy r' (Some st), m', s')" "participate st"
  shows "map_of (Header r') ''X-Opencode-Session'' = Some [sessionID st]"
proof -
  obtain body r1 where b: "prepare S fresh r body (new_reqState rid) (count_request ''chat'' m, s) = ((r1, st), m', s')"
    "r' = restore_body body r1"
    using assms(1) by (rule ServeHTTP_ProxyD)
  show ?thesis using prepare_frame(4) [OF b(1) assms(2)] b(2) by simp
qed

text \<open>A Redis operation does not touch the counter of mapping errors, so that counter tells.\<close>

lemma observe_mapping_error [simp]: "SessionMappingError (observe op r m) = SessionMappingError m"
  by (simp add: observe_def SessionStoreErrorInc_def Let_def split: sum.splits redis_error.splits)

lemma PutSession_mapping_error:
  "ss_PutSession (redis_sessions c) ch sh x ttl (m, s) = (r, m', s') \<Longrightarrow> SessionMappingError m' = SessionMappingError m"
  by (auto simp: redis_sessions_def PutSession_def split: prod.splits)

lemma putMapping_written:
  assumes "putMapping (redis_sessions c) cfg st a (m, s) = (m', s')" "SessionMappingError m' = SessionMappingError m"
  shows "\<exists>mp. ss_PutSession (redis_sessions c) (clientHash st) (HashBytes (FullState (canonMsgs st) a)) (sessionID st)
    (Session_TTL cfg) (m, s) = (Inr (), mp, s')"
  using assms PutSession_mapping_error [of c]
  by (fastforce simp: putMapping_def Let_def split: prod.splits sum.splits)

text \<open>A response was finalized with the message \<open>a\<close>, on any of the four paths.\<close>

definition finalized :: "'s SessionStore \<Rightarrow> Config \<Rightarrow> reqState \<Rightarrow> bytes \<Rightarrow> Metrics \<times> 's \<Rightarrow> Metrics \<times> 's \<Rightarrow> bool" where
  "finalized S cfg st a w w' \<longleftrightarrow>
     (\<exists>stats. snd (finalizeAtDone S cfg st (Inr a, stats) w) = w') \<or>
     (\<not> earlyFinalized st \<and> (\<exists>stats. finalizeStream S cfg st (Inr a, stats) w = w')) \<or>
     (\<not> earlyFinalized st \<and> (\<exists>stats. finalizeStreamOnClose S cfg st (Inr a, stats) w = w')) \<or>
     (finalizeJSON S cfg st w = w' \<and>
       (\<exists>body msg. jsonBuf st = Some body \<and> \<not> jsonTrunc st \<and> ParseCompletionResponse body = Inr msg \<and> AssistantFromMessage msg = Inr a))"

lemma finalized_mapping:
  assumes "finalized S cfg st a (m, s) w'"
  shows "\<exists>mx. SessionMappingError mx = SessionMappingError m \<and> putMapping S cfg st a (mx, s) = w'"
proof -
  have "(\<exists>stats. w' = putMapping S cfg st a (count_completed (observe_finalize stats m), s)) \<or>
      (\<exists>stats. w' = putMapping S cfg st a (observe_finalize stats m, s)) \<or>
      (\<exists>body :: bytes. w' = putMapping S cfg st a (m\<lparr>ResponseBytes := length body # ResponseBytes m\<rparr>, s))"
    using assms unfolding finalized_def
    by (elim disjE) (auto simp: finalizeAtDone_def finalizeStream_def finalizeStreamOnClose_def finalizeJSON_def Let_def)
  then consider stats where "w' = putMapping S cfg st a (count_completed (observe_finalize stats m), s)"
    | stats where "w' = putMapping S cfg st a (observe_finalize stats m, s)"
    | body :: bytes where "w' = putMapping S cfg st a (m\<lparr>ResponseBytes := length body # ResponseBytes m\<rparr>, s)" by blast
  then show ?thesis
  proof cases
    case (1 stats)
    then show ?thesis by (intro exI [of _ "count_completed (observe_finalize stats m)"]) (simp add: count_completed_def observe_finalize_def)
  next
    case (2 stats)
    then show ?thesis by (intro exI [of _ "observe_finalize stats m"]) (simp add: observe_finalize_def)
  next
    case (3 body)
    then show ?thesis by (intro exI [of _ "m\<lparr>ResponseBytes := length body # ResponseBytes m\<rparr>"]) simp
  qed
qed

lemma finalized_put:
  assumes "finalized (redis_sessions c) cfg st a (m, s) (m', s')" "SessionMappingError m' = SessionMappingError m"
  shows "\<exists>mx mp. ss_PutSession (redis_sessions c) (clientHash st) (HashBytes (FullState (canonMsgs st) a)) (sessionID st)
    (Session_TTL cfg) (mx, s) = (Inr (), mp, s')"
  using finalized_mapping [OF assms(1)] putMapping_written [of c cfg st a _ s m' s'] assms(2) by metis

text \<open>
  A request that is not a chat completion is handed to the reverse proxy unchanged and without
  request state; the session store is not touched.
\<close>

lemma passthrough_unchanged:
  assumes "Method r \<noteq> ''POST'' \<or> \<not> HasSuffix (Path r) ''/chat/completions''"
  shows "ServeHTTP S cfg rid fresh r (m, s) = (Proxy r None, count_request ''passthrough'' m, s)"
  using assms by (auto simp: ServeHTTP_def is_chat_def)

section \<open>Properties\<close>

text \<open>
  C16. A chat request whose body can be read and is within a limit below \<open>2 ^ 63 - 1\<close> is always
  forwarded, whatever the store does, even when it fails: although reading it has consumed the body,
  the forwarded request has the exact body bytes, also from \<open>GetBody\<close> for a retry, a
  matching content length, and no header changed except X-Opencode-Session and Content-Length.
\<close>

theorem chat_forwarded_intact:
  assumes "is_chat r" "\<not> BodyError r" "int (length (Body r)) \<le> MaxRequestBody cfg" "MaxRequestBody cfg < 2 ^ 63 - 1"
  shows "Body (snd (readBody r (MaxRequestBody cfg))) = [] \<and>
    (\<exists>r' st m' s'. ServeHTTP S cfg rid fresh r (m, s) = (Proxy r' (Some st), m', s') \<and>
      Method r' = Method r \<and> Path r' = Path r \<and> Body r' = Body r \<and> \<not> BodyError r' \<and> GetBody r' = Some (Body r) \<and>
      ContentLength r' = int (length (Body r)) \<and> map_of (Header r') ''Content-Length'' = Some [nat_dec (length (Body r))] \<and>
      (\<forall>k. k \<notin> {''X-Opencode-Session'', ''Content-Length''} \<longrightarrow> map_of (Header r') k = map_of (Header r) k))"
proof -
  have nn: "0 \<le> MaxRequestBody cfg" using assms(3) by linarith
  then have b: "fst (readBody r (MaxRequestBody cfg)) = Some (Body r, False)"
    using assms(2-4) by (simp add: readBody_ok)
  have "wrap64 (MaxRequestBody cfg + 1) = MaxRequestBody cfg + 1" using nn assms(4) by (intro wrap64_id) (simp add: in_int64_def)
  then have gone: "Body (snd (readBody r (MaxRequestBody cfg))) = []" using assms(3) by (simp add: readBody_def Let_def)
  obtain r1 st m' s' where p: "prepare S fresh r (Body r) (new_reqState rid) (count_request ''chat'' m, s) = ((r1, st), m', s')"
    "ServeHTTP S cfg rid fresh r (m, s) = (Proxy (restore_body (Body r) r1) (Some st), m', s')"
    by (rule ServeHTTP_chat [OF assms(1) b])
  show ?thesis using gone p(2) prepare_frame(1) [OF p(1)] prepare_frame(2) [OF p(1)]
    by (auto simp: restore_body_def [of _ r1] Header_Set_def update_conv')
qed

theorem chat_forwarded_intact_witness:
  "\<exists>r' st m' s'. ServeHTTP (redis_sessions mem_redis) Default ''id'' ''u''
      \<lparr>Method = ''POST'', Path = ''/v1/chat/completions'', Header = [(''X-Api-Key'', [''k''])], Body = ''{}'', BodyError = False, ContentLength = 2, GetBody = None\<rparr>
      (New, \<lparr>db_strs = [], db_hashes = [], db_faults = [True]\<rparr>) = (Proxy r' (Some st), m', s') \<and>
    Body r' = ''{}'' \<and> GetBody r' = Some ''{}'' \<and> map_of (Header r') ''X-Api-Key'' = Some [''k'']"
proof -
  let ?r = "\<lparr>Method = ''POST'', Path = ''/v1/chat/completions'', Header = [(''X-Api-Key'', [''k''])], Body = ''{}'', BodyError = False, ContentLength = 2, GetBody = None\<rparr>"
  have c: "is_chat ?r" "\<not> BodyError ?r" "int (length (Body ?r)) \<le> MaxRequestBody Default" "MaxRequestBody Default < 2 ^ 63 - 1"
    by (simp_all add: Default_def is_chat_def HasSuffix_def)
  show ?thesis
    by (rule ex4_mono [OF conjunct2 [OF chat_forwarded_intact [OF c, of "redis_sessions mem_redis" "''id''" "''u''" New
        "\<lparr>db_strs = [], db_hashes = [], db_faults = [True]\<rparr>"]]]) simp
qed

text \<open>
  C17. A session the client supplies reaches the upstream unchanged; every other participating
  request is forwarded with exactly one session header, the session of its state.
\<close>

theorem session_header_forwarded:
  assumes "ServeHTTP S cfg rid fresh r (m, s) = (Proxy r' (Some st), m', s')" "participate st"
  shows "map_of (Header r') ''X-Opencode-Session'' = Some [sessionID st] \<and>
    (Header_Get (Header r) ''X-Opencode-Session'' \<noteq> [] \<longrightarrow>
      sessionID st = Header_Get (Header r) ''X-Opencode-Session'' \<and> source st = SourceClient \<and> s' = s)"
proof -
  obtain body r1 where b: "prepare S fresh r body (new_reqState rid) (count_request ''chat'' m, s) = ((r1, st), m', s')"
    "r' = restore_body body r1"
    using assms(1) by (rule ServeHTTP_ProxyD)
  have "map_of (Header r') ''X-Opencode-Session'' = Some [sessionID st]"
    using assms by (rule session_header_of_state)
  moreover have "sessionID st = cs \<and> source st = SourceClient \<and> s' = s"
    if "Header_Get (Header r) ''X-Opencode-Session'' = cs" "cs \<noteq> []" for cs
    using b(1) assms(2) that
    by (auto simp: prepare_def Let_def Resolve_def split: option.splits if_splits sum.splits prod.splits)
  ultimately show ?thesis by blast
qed

theorem session_header_forwarded_witness:
  "\<exists>r' st m' s'. ServeHTTP (redis_sessions mem_redis) Default ''id'' ''u''
      \<lparr>Method = ''POST'', Path = ''/chat/completions'', Header = [(''X-Opencode-Session'', [''mine''])],
       Body = ''{\"messages\":[1]}'', BodyError = False, ContentLength = 16, GetBody = None\<rparr>
      (New, \<lparr>db_strs = [], db_hashes = [], db_faults = []\<rparr>) = (Proxy r' (Some st), m', s') \<and>
    map_of (Header r') ''X-Opencode-Session'' = Some [''mine'']"
proof -
  let ?r = "\<lparr>Method = ''POST'', Path = ''/chat/completions'', Header = [(''X-Opencode-Session'', [''mine''])],
       Body = ''{\"messages\":[1]}'', BodyError = False, ContentLength = 16, GetBody = None\<rparr>"
  let ?S = "redis_sessions mem_redis" and ?d = "\<lparr>db_strs = [], db_hashes = [], db_faults = []\<rparr>"
  have c: "is_chat ?r" by (simp add: is_chat_def HasSuffix_def)
  have b: "fst (readBody ?r (MaxRequestBody Default)) = Some (Body ?r, False)"
    by (simp add: readBody_ok Default_def)
  obtain r1 st m' s' where p: "prepare ?S ''u'' ?r (Body ?r) (new_reqState ''id'') (count_request ''chat'' New, ?d) = ((r1, st), m', s')"
    and e: "ServeHTTP ?S Default ''id'' ''u'' ?r (New, ?d) =
      (Proxy (restore_body (Body ?r) r1) (Some st), m', s')"
    by (rule ServeHTTP_chat [OF c b])
  have ms: "ParseChatRequest (Body ?r) = Some [''1'']" "[''1''] \<noteq> []" by code_simp+
  obtain canon dec m2 s2 where "map Canonicalize [''1''] = map Inr canon"
    "Resolve ?S ''u'' (clientIdentity (Header ?r)) canon (Header_Get (Header ?r) ''X-Opencode-Session'') (count_request ''chat'' New, ?d) = (dec, m2, s2)"
    "prepare ?S ''u'' ?r (Body ?r) (new_reqState ''id'') (count_request ''chat'' New, ?d) =
       ((?r\<lparr>Header := Header_Set ''X-Opencode-Session'' (SessionID dec) (Header ?r)\<rparr>,
         (new_reqState ''id'')\<lparr>canonMsgs := canon, clientHash := clientIdentity (Header ?r), sessionID := SessionID dec,
            source := dec_Source dec, historyHash := dec_HistoryHash dec, participate := True\<rparr>), m2, s2)"
    by (rule prepare_participates [OF ms])
  then have "participate st" using p by auto
  from session_header_forwarded [OF e this] e show ?thesis by (auto simp: Header_Get_def)
qed

text \<open>
  C7. End to end, a conversation keeps its session. Turn 1 of a client was finalized, at [DONE], at the end
  of the stream, on close or from a JSON body, with the assistant message \<open>a\<close>, and the
  mapping was written. Turn 2 of the same client supplies no session of its own and sends the messages
  of turn 1, \<open>a\<close> in any equivalent JSON text and one more message; it comes at any later
  time, provided that the mapping of this history was neither overwritten (by an identical
  conversation of the same client) nor lost in between and that the lookup does not fail. Then the
  upstream receives in turn 2 the session header it received in turn 1.
\<close>

theorem conversation_keeps_session:
  assumes "redis_client c strs hashes"
    and "ServeHTTP (redis_sessions c) cfg rid1 fresh1 r1 (m0, s0) = (Proxy r1' (Some st1), m1, s1)" "participate st1"
    and "clientHash st = clientHash st1" "sessionID st = sessionID st1" "canonMsgs st = canonMsgs st1"
    and "finalized (redis_sessions c) cfg st a (m2, s2) (m3, s3)" "SessionMappingError m3 = SessionMappingError m2"
    and "db_mapping strs s4 (clientHash st1, HashBytes (FullState (canonMsgs st1) a)) =
      db_mapping strs s3 (clientHash st1, HashBytes (FullState (canonMsgs st1) a))"
    and "is_chat r2" "fst (readBody r2 (MaxRequestBody cfg)) = Some (body2, False)"
    and "clientIdentity (Header r2) = clientIdentity (Header r1)" "Header_Get (Header r2) ''X-Opencode-Session'' = []"
    and "ParseChatRequest body2 = Some msgs2" "map Canonicalize msgs2 = map Inr (canonMsgs st1 @ [a, u])"
    and "\<And>m. \<exists>v w. GetSession c (clientHash st1) (HashBytes (FullState (canonMsgs st1) a)) (m, s4) = (Inr v, w)"
  shows "\<exists>r2' st2 m5 s5. ServeHTTP (redis_sessions c) cfg rid2 fresh2 r2 (m4, s4) = (Proxy r2' (Some st2), m5, s5) \<and>
    source st2 = SourceResolved \<and>
    map_of (Header r2') ''X-Opencode-Session'' = map_of (Header r1') ''X-Opencode-Session''"
proof -
  let ?S = "redis_sessions c" and ?h = "HashBytes (FullState (canonMsgs st1) a)"
  note store = redis_client.redis_session_store [OF assms(1)]
  obtain body1 q1 where t1: "prepare ?S fresh1 r1 body1 (new_reqState rid1) (count_request ''chat'' m0, s0) = ((q1, st1), m1, s1)"
    using assms(2) by (rule ServeHTTP_ProxyD)
  have ch: "clientHash st1 = clientIdentity (Header r1)" using prepare_identity [OF t1] assms(3) by simp
  have nc: "no_colon (clientHash st1)" by (simp add: ch clientIdentity_no_colon)
  have hdr1: "map_of (Header r1') ''X-Opencode-Session'' = Some [sessionID st1]"
    using session_header_of_state [OF assms(2,3)] .
  obtain mx mp where "ss_PutSession ?S (clientHash st1) ?h (sessionID st1) (Session_TTL cfg) (mx, s2) = (Inr (), mp, s3)"
    using finalized_put [OF assms(7,8)] unfolding assms(4-6) by blast
  then have stored: "db_mapping strs s4 (clientHash st1, ?h) = Some (sessionID st1)"
    using session_store.put_ok [OF store _ nc nc] assms(9) by fastforce
  have ne: "msgs2 \<noteq> []" using assms(15) by auto
  obtain q2 st2 m5 s5 where p2: "prepare ?S fresh2 r2 body2 (new_reqState rid2) (count_request ''chat'' m4, s4) = ((q2, st2), m5, s5)"
    and e2: "ServeHTTP ?S cfg rid2 fresh2 r2 (m4, s4) = (Proxy (restore_body body2 q2) (Some st2), m5, s5)"
    by (rule ServeHTTP_chat [OF assms(10,11)])
  obtain canon dec m' s' where d: "map Canonicalize msgs2 = map Inr canon"
    "Resolve ?S fresh2 (clientIdentity (Header r2)) canon (Header_Get (Header r2) ''X-Opencode-Session'') (count_request ''chat'' m4, s4) = (dec, m', s')"
    "prepare ?S fresh2 r2 body2 (new_reqState rid2) (count_request ''chat'' m4, s4) =
       ((r2\<lparr>Header := Header_Set ''X-Opencode-Session'' (SessionID dec) (Header r2)\<rparr>,
         (new_reqState rid2)\<lparr>canonMsgs := canon, clientHash := clientIdentity (Header r2), sessionID := SessionID dec,
            source := dec_Source dec, historyHash := dec_HistoryHash dec, participate := True\<rparr>), m', s')"
    by (rule prepare_participates [OF assms(14) ne])
  then have st2: "sessionID st2 = SessionID dec" "source st2 = dec_Source dec" "participate st2" using p2 by auto
  have "canon = canonMsgs st1 @ [a, u]" using d(1) assms(15) by (metis inj_Inr inj_map_eq_map)
  with d(2) have res: "Resolve ?S fresh2 (clientHash st1) (canonMsgs st1 @ [a, u]) [] (count_request ''chat'' m4, s4) = (dec, m', s')"
    using assms(12,13) ch by simp
  obtain v w where "GetSession c (clientHash st1) ?h (count_request ''chat'' m4, s4) = (Inr v, w)" using assms(16) by blast
  then have "ss_GetSession ?S (clientHash st1) ?h (count_request ''chat'' m4, s4) = (Inr v, fst w, snd w)"
    by (simp add: redis_sessions_def)
  from session_store.Resolve_next_turn [OF store stored nc this res]
  have "SessionID dec = sessionID st1" "dec_Source dec = SourceResolved" by auto
  then show ?thesis using e2 hdr1 session_header_of_state [OF e2 st2(3)] st2 by auto
qed

theorem conversation_keeps_session_witness:
  "\<exists>r1' st1 m1 s1 st1' m3 s3 r2' st2 m4 s4.
    ServeHTTP (redis_sessions mem_redis) Default ''id1'' ''u1''
      \<lparr>Method = ''POST'', Path = ''/chat/completions'', Header = [], Body = ''{\"messages\":[1]}'', BodyError = False, ContentLength = 16, GetBody = None\<rparr>
      (New, \<lparr>db_strs = [], db_hashes = [], db_faults = []\<rparr>) = (Proxy r1' (Some st1), m1, s1) \<and>
    finalizeAtDone (redis_sessions mem_redis) Default st1 (Inr ''2'', \<lparr>Pages = 0, Bytes = 0\<rparr>) (m1, s1) = (st1', m3, s3) \<and>
    ServeHTTP (redis_sessions mem_redis) Default ''id2'' ''u2''
      \<lparr>Method = ''POST'', Path = ''/chat/completions'', Header = [], Body = ''{\"messages\":[1, 2, 3]}'', BodyError = False, ContentLength = 22, GetBody = None\<rparr>
      (m3, s3) = (Proxy r2' (Some st2), m4, s4) \<and> source st2 = SourceResolved \<and>
    map_of (Header r2') ''X-Opencode-Session'' = map_of (Header r1') ''X-Opencode-Session''"
proof -
  let ?S = "redis_sessions mem_redis" and ?d = "\<lparr>db_strs = [], db_hashes = [], db_faults = []\<rparr>" and ?m = "count_request ''chat'' New"
  let ?q = "\<lambda>b n. \<lparr>Method = ''POST'', Path = ''/chat/completions'', Header = [], Body = b, BodyError = False, ContentLength = n, GetBody = None\<rparr>"
  let ?r1 = "?q ''{\"messages\":[1]}'' 16" and ?r2 = "?q ''{\"messages\":[1, 2, 3]}'' 22"
  have chat: "is_chat (?q b n)" for b n by (simp add: is_chat_def HasSuffix_def)
  have body: "fst (readBody ?r1 (MaxRequestBody Default)) = Some (Body ?r1, False)"
    "fst (readBody ?r2 (MaxRequestBody Default)) = Some (Body ?r2, False)"
    by (simp_all add: readBody_ok Default_def)
  have ms: "ParseChatRequest (Body ?r1) = Some [''1'']" "ParseChatRequest (Body ?r2) = Some [''1'', ''2'', ''3'']"
    "map Canonicalize [''1''] = map Inr [''1'']" "map Canonicalize [''1'', ''2'', ''3''] = map Inr ([''1''] @ [''2'', ''3''])"
    by code_simp+
  obtain q1 st1 m1 s1 where p1: "prepare ?S ''u1'' ?r1 (Body ?r1) (new_reqState ''id1'') (?m, ?d) = ((q1, st1), m1, s1)"
    and e1: "ServeHTTP ?S Default ''id1'' ''u1'' ?r1 (New, ?d) =
      (Proxy (restore_body (Body ?r1) q1) (Some st1), m1, s1)"
    by (rule ServeHTTP_chat [OF chat body(1)])
  have "seq_results (map Canonicalize [''1'']) = Inr [''1'']" by (simp only: seq_results_Inr_iff ms)
  then have st1: "participate st1" "canonMsgs st1 = [''1'']" "s1 = ?d"
    using p1 by (auto simp: prepare_def ms(1)[simplified] Let_def Resolve_def Header_Get_def split: prod.splits)
  let ?h = "HashBytes (FullState (canonMsgs st1) ''2'')"
  obtain st1' m3 s3 where f: "finalizeAtDone ?S Default st1 (Inr ''2'', \<lparr>Pages = 0, Bytes = 0\<rparr>) (m1, s1) = (st1', m3, s3)"
    by (cases "finalizeAtDone ?S Default st1 (Inr ''2'', \<lparr>Pages = 0, Bytes = 0\<rparr>) (m1, s1)") auto
  then have s3: "s3 = ?d\<lparr>db_strs := [(SessionKey (clientHash st1) ?h, sessionID st1)]\<rparr>"
    and me: "SessionMappingError m3 = SessionMappingError m1"
    by (auto simp: finalizeAtDone_def putMapping_def Let_def redis_sessions_def PutSession_def plain_result_def mem_redis_def faulty_def st1(3)
        count_completed_def observe_finalize_def)
  have get: "\<exists>v w. GetSession mem_redis (clientHash st1) ?h (m, s3) = (Inr v, w)" for m
    by (simp add: GetSession_def mem_redis_def faulty_def s3)
  have idle: "Header_Get (Header ?r2) ''X-Opencode-Session'' = []" and same: "clientIdentity (Header ?r2) = clientIdentity (Header ?r1)"
    by (simp_all add: Header_Get_def)
  have fin: "finalized ?S Default st1 ''2'' (m1, s1) (m3, s3)" unfolding finalized_def using f by (metis snd_conv)
  have "map Canonicalize [''1'', ''2'', ''3''] = map Inr (canonMsgs st1 @ [''2'', ''3''])" using ms(4) by (simp only: st1(2))
  from conversation_keeps_session [OF mem.redis_client_axioms e1 st1(1) refl refl refl fin me refl chat body(2) same idle ms(2) this get,
      where ?rid2.0 = "''id2''" and ?fresh2.0 = "''u2''" and ?m4.0 = m3]
  show ?thesis using e1 f by (elim exE conjE) (intro exI conjI)
qed

text \<open>
  C18. The size limit: a chat request is answered with 413 exactly when its body is longer than the
  limit, whether or not reading the rest would have failed; the answer is a JSON error object and
  the store is not touched.
\<close>

theorem oversized_rejected:
  assumes "is_chat r" "0 \<le> MaxRequestBody cfg" "MaxRequestBody cfg < 2 ^ 63 - 1"
  shows "(fst (ServeHTTP S cfg rid fresh r (m, s)) = Reply bodyTooLarge \<longleftrightarrow> int (length (Body r)) > MaxRequestBody cfg) \<and>
    rp_Status bodyTooLarge = 413 \<and> json_unmarshal (rp_Body bodyTooLarge) \<noteq> None \<and>
    (int (length (Body r)) > MaxRequestBody cfg \<longrightarrow> snd (snd (ServeHTTP S cfg rid fresh r (m, s))) = s)"
proof -
  have "\<not> Option.is_none (json_unmarshal (rp_Body bodyTooLarge))" by code_simp
  then have j: "json_unmarshal (rp_Body bodyTooLarge) \<noteq> None" by (simp add: Option.is_none_def)
  have "readFailed \<noteq> bodyTooLarge" by (simp add: readFailed_def bodyTooLarge_def)
  then show ?thesis using assms j
    by (auto simp: ServeHTTP_unfold readBody_ok Let_def bodyTooLarge_def split: prod.splits)
qed

theorem oversized_rejected_witness:
  "fst (ServeHTTP (redis_sessions mem_redis) (Default\<lparr>MaxRequestBody := 3\<rparr>) ''id'' ''u''
      \<lparr>Method = ''POST'', Path = ''/chat/completions'', Header = [], Body = ''12345'', BodyError = True, ContentLength = 5, GetBody = None\<rparr>
      (New, \<lparr>db_strs = [], db_hashes = [], db_faults = []\<rparr>)) = Reply bodyTooLarge"
  using oversized_rejected [of "\<lparr>Method = ''POST'', Path = ''/chat/completions'', Header = [], Body = ''12345'', BodyError = True, ContentLength = 5, GetBody = None\<rparr>"
      "Default\<lparr>MaxRequestBody := 3\<rparr>" "redis_sessions mem_redis" "''id''" "''u''" New "\<lparr>db_strs = [], db_hashes = [], db_faults = []\<rparr>"]
  by (simp add: is_chat_def HasSuffix_def)

text \<open>
  C33. With the largest 64-bit limit the sum \<open>max+1\<close> wraps around and nothing is read: every chat
  request is forwarded with an empty body, whatever its body was. No session is resolved or
  injected and the store is not asked; a session header of the client's own is passed on
  like every other header except Content-Length.
\<close>

theorem max_int64_limit_drops_body:
  assumes "is_chat r" "MaxRequestBody cfg = 2 ^ 63 - 1"
  shows "\<exists>r' st. ServeHTTP S cfg rid fresh r (m, s) = (Proxy r' (Some st), count_request ''chat'' m, s) \<and> \<not> participate st \<and>
    Body r' = [] \<and> ContentLength r' = 0 \<and> (\<forall>k. k \<noteq> ''Content-Length'' \<longrightarrow> map_of (Header r') k = map_of (Header r) k)"
proof -
  have b: "fst (readBody r (MaxRequestBody cfg)) = Some ([], False)"
    by (simp add: readBody_def wrap64_def assms(2))
  have "ParseChatRequest [] = None" by code_simp
  then show ?thesis using assms(1) b by (simp add: ServeHTTP_unfold prepare_def new_reqState_def)
qed

theorem max_int64_limit_drops_body_witness:
  "\<exists>r' st. ServeHTTP (redis_sessions mem_redis) (Default\<lparr>MaxRequestBody := 9223372036854775807\<rparr>) ''id'' ''u''
      \<lparr>Method = ''POST'', Path = ''/chat/completions'', Header = [(''X-Opencode-Session'', [''mine''])],
       Body = ''{\"messages\":[1]}'', BodyError = False, ContentLength = 16, GetBody = None\<rparr>
      (New, \<lparr>db_strs = [], db_hashes = [], db_faults = []\<rparr>) =
        (Proxy r' (Some st), count_request ''chat'' New, \<lparr>db_strs = [], db_hashes = [], db_faults = []\<rparr>) \<and>
    \<not> participate st \<and> Body r' = [] \<and> map_of (Header r') ''X-Opencode-Session'' = Some [''mine'']"
proof -
  let ?r = "\<lparr>Method = ''POST'', Path = ''/chat/completions'', Header = [(''X-Opencode-Session'', [''mine''])],
       Body = ''{\"messages\":[1]}'', BodyError = False, ContentLength = 16, GetBody = None\<rparr>"
  have c: "is_chat ?r" "MaxRequestBody (Default\<lparr>MaxRequestBody := 9223372036854775807\<rparr>) = 2 ^ 63 - 1"
    by (simp_all add: is_chat_def HasSuffix_def)
  show ?thesis using max_int64_limit_drops_body [OF c, of "redis_sessions mem_redis" "''id''" "''u''" New
      "\<lparr>db_strs = [], db_hashes = [], db_faults = []\<rparr>"] by fastforce
qed

end
