(* ===== verification/Gateway.thy ===== *)
theory Gateway
  imports Proxy
begin

text \<open>
  The whole gateway as one transition system: any number of requests, the goroutines that copy their
  responses, the call-back at [DONE], the detached finalize goroutines and the page workers,
  interleaved in any order over one store. A step is one call the HTTP server or the reverse proxy
  makes on the handler (a request, a failed upstream round trip, a response, a read, an end of file, a close), one half of a \<open>Finalize\<close> (before and after its wait) together with the
  handler's code after it, or one step of a page worker. Each copy goroutine is sequential: while it
  is inside the call-back it neither reads nor closes. A request is named by a number, which
  is also the address of its collector.
\<close>

section \<open>State\<close>

text \<open>The fields of \<open>Handler\<close> that stay fixed, with the configuration of its pool.\<close>

record 's Handler =
  h_sessions :: "'s SessionStore"
  h_pages :: "'s TempPageStore"
  h_cfg :: Config
  h_pool :: PoolConfig
  h_workers :: nat

text \<open>
  \<open>forwarded\<close> holds the requests that wait for a response, \<open>open_reqs\<close> those whose response body
  is wrapped, \<open>tasks\<close> the goroutines that were started and \<open>running\<close> those that wait in
  \<open>Finalize\<close>. Three components are histories: the bytes read from each response body, the bytes its
  collector accepted, and the assistant messages given to \<open>putMapping\<close>.
\<close>

record 's gateway =
  gw_pool :: "'s pool"
  forwarded :: "nat \<Rightarrow> reqState option"
  open_reqs :: "nat \<Rightarrow> reqState option"
  tasks :: "(nat \<times> task) list"
  running :: "(nat \<times> task) list"
  received :: "nat \<Rightarrow> bytes"
  acc :: "nat \<Rightarrow> bytes"
  mapped :: "(nat \<times> bytes) list"

definition NewHandler :: "Metrics \<times> 's \<Rightarrow> 's gateway" where
  "NewHandler w =
     \<lparr>gw_pool = NewPool w, forwarded = (\<lambda>_. None), open_reqs = (\<lambda>_. None), tasks = [], running = [],
      received = (\<lambda>_. []), acc = (\<lambda>_. []), mapped = []\<rparr>"

section \<open>Steps\<close>

datatype glabel =
    GRequest nat bytes bytes Request
  | GUpstreamError nat
  | GResponse nat int bytes
  | GRead nat bytes
  | GEof nat
  | GClose nat
  | GDone nat
  | GDoneEnd nat
  | GTask nat task
  | GTaskEnd nat task
  | GTake
  | GPut nat

definition pool_do :: "'s Handler \<Rightarrow> label \<Rightarrow> 's gateway \<Rightarrow> 's gateway option" where
  "pool_do h l g =
     map_option (\<lambda>p. g\<lparr>gw_pool := p, acc := accept l (gw_pool g) (acc g)\<rparr>)
       (pool_step (h_pages h) (h_pool h) (h_workers h) l (gw_pool g))"

definition put_world :: "Metrics \<times> 's \<Rightarrow> 's gateway \<Rightarrow> 's gateway" where
  "put_world w g = g\<lparr>gw_pool := (gw_pool g)\<lparr>world := w\<rparr>\<rparr>"

definition set_req :: "nat \<Rightarrow> reqState \<Rightarrow> 's gateway \<Rightarrow> 's gateway" where
  "set_req i st g = g\<lparr>open_reqs := (open_reqs g)(i \<mapsto> st)\<rparr>"

definition log_map :: "nat \<Rightarrow> 'e + bytes \<Rightarrow> 's gateway \<Rightarrow> 's gateway" where
  "log_map i r g = (case r of Inl e \<Rightarrow> g | Inr a \<Rightarrow> g\<lparr>mapped := mapped g @ [(i, a)]\<rparr>)"

text \<open>The copy goroutine is not inside the call-back.\<close>

definition copying :: "nat \<Rightarrow> 's gateway \<Rightarrow> bool" where
  "copying i g \<longleftrightarrow> phases (gw_pool g) i \<noteq> InCallback \<and> phases (gw_pool g) i \<noteq> Waiting True"

text \<open>\<open>finish\<close> may start a goroutine.\<close>

definition end_body :: "nat \<Rightarrow> task list \<times> reqState \<times> Metrics \<Rightarrow> 's gateway \<Rightarrow> 's gateway" where
  "end_body i res g =
     (case res of (ts, st, m) \<Rightarrow>
        (set_req i st (put_world (m, snd (world (gw_pool g))) g))\<lparr>tasks := tasks g @ map (Pair i) ts\<rparr>)"

text \<open>The handler's code after \<open>Finalize\<close> returned, in the call-back and in the goroutines.\<close>

definition run_done :: "'s Handler \<Rightarrow> nat \<Rightarrow> reqState \<Rightarrow> 's gateway \<Rightarrow> 's gateway" where
  "run_done h i st g =
     (let out = last (results (gw_pool g) i) in
      case finalizeAtDone (h_sessions h) (h_cfg h) st out (world (gw_pool g)) of (st', w) \<Rightarrow>
        log_map i (fst out) (set_req i st' (put_world w g)))"

definition run_stream :: "'s Handler \<Rightarrow> nat \<Rightarrow> task \<Rightarrow> reqState \<Rightarrow> 's gateway \<Rightarrow> 's gateway" where
  "run_stream h i t st g =
     (let out = last (results (gw_pool g) i);
          fin = (if t = FinalizeStream then finalizeStream else finalizeStreamOnClose)
      in log_map i (fst out) (put_world (fin (h_sessions h) (h_cfg h) st out (world (gw_pool g))) g))"

text \<open>What \<open>finalizeJSON\<close> maps, if anything.\<close>

definition json_assistant :: "reqState \<Rightarrow> unit + bytes" where
  "json_assistant st =
     (case jsonBuf st of None \<Rightarrow> Inl ()
      | Some body \<Rightarrow>
          if jsonTrunc st then Inl ()
          else (case ParseCompletionResponse body of Inl e \<Rightarrow> Inl ()
                | Inr message \<Rightarrow> (case AssistantFromMessage message of Inl e \<Rightarrow> Inl () | Inr a \<Rightarrow> Inr a)))"

definition run_json :: "'s Handler \<Rightarrow> nat \<Rightarrow> reqState \<Rightarrow> 's gateway \<Rightarrow> 's gateway" where
  "run_json h i st g =
     log_map i (json_assistant st) (put_world (finalizeJSON (h_sessions h) (h_cfg h) st (world (gw_pool g))) g)"

definition read_step :: "'s Handler \<Rightarrow> nat \<Rightarrow> bytes \<Rightarrow> reqState \<Rightarrow> 's gateway \<Rightarrow> 's gateway option" where
  "read_step h i p st g =
     (let g1 = g\<lparr>received := (received g)(i := received g i @ p)\<rparr> in
      if has_collector st then (if p = [] then Some g1 else pool_do h (LWrite i p) g1)
      else Some (set_req i (json_take p st) g1))"

definition response_step :: "'s Handler \<Rightarrow> nat \<Rightarrow> int \<Rightarrow> bytes \<Rightarrow> reqState \<Rightarrow> 's gateway \<Rightarrow> 's gateway option" where
  "response_step h i status ct st g =
     (let g1 = g\<lparr>forwarded := (forwarded g)(i := None)\<rparr> in
      case modifyResponse status ct (Some st) of
        (StreamBody, Some t) \<Rightarrow> map_option (set_req i t) (pool_do h (LNew i (st_requestID t) True) g1)
      | (JsonBody, Some t) \<Rightarrow> Some (set_req i t g1)
      | _ \<Rightarrow> Some g1)"

definition request_step :: "'s Handler \<Rightarrow> nat \<Rightarrow> bytes \<Rightarrow> bytes \<Rightarrow> Request \<Rightarrow> 's gateway \<Rightarrow> 's gateway" where
  "request_step h i rid fresh r g =
     (case ServeHTTP (h_sessions h) (h_cfg h) rid fresh r (world (gw_pool g)) of (rep, w) \<Rightarrow>
        (case rep of
           Proxy r' (Some st) \<Rightarrow> (put_world w g)\<lparr>forwarded := (forwarded g)(i \<mapsto> st)\<rparr>
         | _ \<Rightarrow> put_world w g))"

definition task_step :: "'s Handler \<Rightarrow> nat \<Rightarrow> task \<Rightarrow> reqState \<Rightarrow> 's gateway \<Rightarrow> 's gateway option" where
  "task_step h i t st g =
     (let g1 = g\<lparr>tasks := remove1 (i, t) (tasks g)\<rparr> in
      if t = FinalizeJSON then Some (run_json h i st g1)
      else if earlyFinalized st then Some g1
      else map_option (\<lambda>g2. if phases (gw_pool g2) i = Ended then run_stream h i t st g2
                            else g2\<lparr>running := (i, t) # running g2\<rparr>)
             (pool_do h (LFinBegin i) g1))"

text \<open>A step of request \<open>i\<close>'s copy goroutine or of a goroutine started for it, given its state.\<close>

fun open_step :: "'s Handler \<Rightarrow> glabel \<Rightarrow> reqState \<Rightarrow> 's gateway \<Rightarrow> 's gateway option" where
  "open_step h (GRead i p) st g = (if finished st \<or> \<not> copying i g then None else read_step h i p st g)"
| "open_step h (GEof i) st g =
     (if finished st \<or> \<not> copying i g then None
      else Some (end_body i (at_eof True st (fst (world (gw_pool g)))) g))"
| "open_step h (GClose i) st g =
     (if \<not> copying i g then None else Some (end_body i (body_Close st (fst (world (gw_pool g)))) g))"
| "open_step h (GDone i) st g =
     (if phases (gw_pool g) i \<noteq> InCallback then None
      else map_option (\<lambda>g'. if phases (gw_pool g') i = Ended then run_done h i st g' else g') (pool_do h (LFinBegin i) g))"
| "open_step h (GDoneEnd i) st g =
     (if phases (gw_pool g) i \<noteq> Waiting True then None else map_option (run_done h i st) (pool_do h (LFinEnd i) g))"
| "open_step h (GTask i t) st g = (if (i, t) \<notin> set (tasks g) then None else task_step h i t st g)"
| "open_step h (GTaskEnd i t) st g =
     (if (i, t) \<notin> set (running g) \<or> phases (gw_pool g) i \<noteq> Waiting False then None
      else map_option (run_stream h i t st) (pool_do h (LFinEnd i) (g\<lparr>running := remove1 (i, t) (running g)\<rparr>)))"
| "open_step h l st g = None"

fun gtarget :: "glabel \<Rightarrow> nat" where
  "gtarget (GRead i p) = i"
| "gtarget (GEof i) = i"
| "gtarget (GClose i) = i"
| "gtarget (GDone i) = i"
| "gtarget (GDoneEnd i) = i"
| "gtarget (GTask i t) = i"
| "gtarget (GTaskEnd i t) = i"
| "gtarget (GRequest i rid fresh r) = i"
| "gtarget (GResponse i status ct) = i"
| "gtarget (GUpstreamError i) = i"
| "gtarget l = 0"

fun gw_step :: "'s Handler \<Rightarrow> glabel \<Rightarrow> 's gateway \<Rightarrow> 's gateway option" where
  "gw_step h (GRequest i rid fresh r) g =
     (if forwarded g i \<noteq> None \<or> open_reqs g i \<noteq> None then None else Some (request_step h i rid fresh r g))"
| "gw_step h (GUpstreamError i) g =
     (if forwarded g i = None then None else Some (g\<lparr>forwarded := (forwarded g)(i := None)\<rparr>))"
| "gw_step h (GResponse i status ct) g =
     (case forwarded g i of None \<Rightarrow> None | Some st \<Rightarrow> response_step h i status ct st g)"
| "gw_step h GTake g = pool_do h LTake g"
| "gw_step h (GPut k) g = pool_do h (LPut k) g"
| "gw_step h l g = (case open_reqs g (gtarget l) of None \<Rightarrow> None | Some st \<Rightarrow> open_step h l st g)"

fun gw_run :: "'s Handler \<Rightarrow> glabel list \<Rightarrow> 's gateway \<Rightarrow> 's gateway option" where
  "gw_run h [] g = Some g"
| "gw_run h (l # ls) g = (case gw_step h l g of None \<Rightarrow> None | Some g' \<Rightarrow> gw_run h ls g')"

inductive gw_reach :: "'s Handler \<Rightarrow> Metrics \<times> 's \<Rightarrow> 's gateway \<Rightarrow> bool"
  for h w0
where
  start: "gw_reach h w0 (NewHandler w0)"
| step: "gw_reach h w0 g \<Longrightarrow> gw_step h l g = Some g' \<Longrightarrow> gw_reach h w0 g'"

lemma gw_reach_run: "gw_reach h w0 g \<Longrightarrow> gw_run h ls g = Some g' \<Longrightarrow> gw_reach h w0 g'"
  by (induction ls arbitrary: g) (auto intro: gw_reach.step split: option.splits)

section \<open>The life of one request\<close>

definition mine :: "nat \<Rightarrow> (nat \<times> 'a) list \<Rightarrow> 'a list" where
  "mine i xs = map snd (filter (\<lambda>x. fst x = i) xs)"

lemma mine_simps [simp]:
  "mine i [] = []" "mine i (xs @ ys) = mine i xs @ mine i ys"
  "mine i ((j, x) # xs) = (if j = i then x # mine i xs else mine i xs)"
  "mine i (map (Pair j) us) = (if j = i then us else [])"
  by (auto simp: mine_def filter_map comp_def)

lemma mine_remove1: "mine i (remove1 (j, x) xs) = (if j = i then remove1 x (mine i xs) else mine i xs)"
proof (induction xs)
  case (Cons y ys)
  then show ?case by (cases y) auto
qed simp

lemma mine_member: "x \<in> set (mine i xs) \<longleftrightarrow> (i, x) \<in> set xs"
  by (force simp: mine_def)

text \<open>
  What the steps of a request depend on and change: its state, its goroutines, its mappings, where
  its copy goroutine is, whether its collector is sealed, and the bytes received. The
  invariant: a request is mapped at most once; while a goroutine is pending nothing is mapped; a
  mapping made at [DONE] seals the collector, so that no second call-back happens, and keeps
  \<open>finish\<close> from starting a goroutine; a goroutine waits in \<open>Finalize\<close> exactly while the phase says
  so; a buffered JSON body is the whole body received.
\<close>

definition idle_state :: "reqState \<Rightarrow> bool" where
  "idle_state st \<longleftrightarrow> \<not> finished st \<and> \<not> earlyFinalized st \<and> \<not> has_collector st \<and> jsonBuf st = None \<and> \<not> jsonTrunc st \<and> \<not> eof st"

definition in_callback :: "phase \<Rightarrow> bool" where
  "in_callback ph \<longleftrightarrow> ph = InCallback \<or> ph = Waiting True"

definition life :: "reqState option \<Rightarrow> reqState option \<Rightarrow> task list \<Rightarrow> task list \<Rightarrow> bytes list \<Rightarrow> phase \<Rightarrow> bool option \<Rightarrow> bytes \<Rightarrow> bool" where
  "life fwd opn ts rs ms ph seal recv \<longleftrightarrow>
     (case fwd of None \<Rightarrow> True | Some st \<Rightarrow> idle_state st \<and> opn = None) \<and>
     (case opn of
        None \<Rightarrow> ts = [] \<and> rs = [] \<and> ms = [] \<and> ph = Streaming \<and> seal = None \<and> recv = []
      | Some st \<Rightarrow>
          length ts + length rs + length ms \<le> 1 \<and>
          (ts @ rs \<noteq> [] \<longrightarrow> finished st \<and> \<not> earlyFinalized st) \<and>
          (\<not> finished st \<and> \<not> earlyFinalized st \<longrightarrow> ms = []) \<and>
          (in_callback ph \<longrightarrow> \<not> finished st \<and> \<not> earlyFinalized st) \<and>
          (earlyFinalized st \<or> in_callback ph \<longrightarrow> seal = Some True) \<and>
          (has_collector st \<longleftrightarrow> seal \<noteq> None) \<and>
          (FinalizeJSON \<in> set (ts @ rs) \<longrightarrow> eof st \<and> \<not> has_collector st) \<and>
          (\<forall>t \<in> set ts. t = FinalizeJSON \<or> has_collector st) \<and> (rs \<noteq> [] \<longleftrightarrow> ph = Waiting False) \<and> (rs \<noteq> [] \<longrightarrow> has_collector st) \<and>
          (\<forall>b. \<not> has_collector st \<longrightarrow> jsonBuf st = Some b \<longrightarrow> b = recv) \<and>
          (\<forall>a \<in> set ms. if has_collector st then \<exists>payload. extract_assistant payload = Inr a
             else eof st \<and> (\<exists>msg. ParseCompletionResponse recv = Inr msg \<and> AssistantFromMessage msg = Inr a)))"

definition life_of :: "'s gateway \<Rightarrow> nat \<Rightarrow> bool" where
  "life_of g i = life (forwarded g i) (open_reqs g i) (mine i (tasks g)) (mine i (running g)) (mine i (mapped g))
     (phases (gw_pool g) i) (map_option sealed (colls (gw_pool g) i)) (received g i)"

lemma life_of_new: "life_of (NewHandler w) i"
  by (simp add: life_of_def life_def NewHandler_def NewPool_def)

lemmas gw_defs = put_world_def set_req_def log_map_def

text \<open>Steps of the pool on behalf of other requests, and of the workers, do not matter to a request.\<close>

lemma Write_begin_seal:
  "Write_begin cfg i p c q = (fired, c', q') \<Longrightarrow> (if fired then \<not> sealed c \<and> sealed c' else sealed c' = sealed c)"
  by (auto simp: Write_begin_def Let_def watchDone_def submit_def fail_def split: if_splits prod.splits)

lemma after_callback_sealed [simp]: "sealed (after_callback cb c) = sealed c"
  by (simp add: after_callback_def Write_end_def)

lemma pool_do_other:
  assumes "pool_do h l g = Some g'"
  shows "forwarded g' = forwarded g \<and> open_reqs g' = open_reqs g \<and> tasks g' = tasks g \<and> running g' = running g \<and>
    received g' = received g \<and> mapped g' = mapped g"
    and "owned (gw_pool g) \<Longrightarrow> owned (gw_pool g')"
  using assms owned_step by (auto simp: pool_do_def)

lemma pool_frame:
  assumes "pool_step P cfg n l s = Some s'" "owned s" "target l s \<noteq> Some j \<or> (\<exists>k. l = LPut k)"
  shows "phases s' j = phases s j \<and> map_option sealed (colls s' j) = map_option sealed (colls s j)"
proof (cases l)
  case (LPut k)
  from assms(1) [unfolded LPut] assms(2) show ?thesis by (rule step_Put) auto
next
  case (LNew i rid b)
  from step_New [OF assms(1) [unfolded LNew]] assms(3) LNew show ?thesis by auto
next
  case (LWrite i p)
  from assms(1) [unfolded LWrite] show ?thesis by (rule step_Write) (use assms(3) LWrite in auto)
next
  case LTake
  from assms(1) [unfolded LTake] show ?thesis by (rule step_Take) auto
next
  case (LFinBegin i)
  from assms(1) [unfolded LFinBegin] show ?thesis by (rule step_FinBegin) (use assms(3) LFinBegin in auto)
next
  case (LFinEnd i)
  from assms(1) [unfolded LFinEnd] show ?thesis by (rule step_FinEnd) (use assms(3) LFinEnd in auto)
qed

lemma pool_do_frame:
  assumes "pool_do h l g = Some g'" "owned (gw_pool g)" "target l (gw_pool g) \<noteq> Some j \<or> (\<exists>k. l = LPut k)"
  shows "life_of g' j = life_of g j"
proof -
  obtain s' where "pool_step (h_pages h) (h_pool h) (h_workers h) l (gw_pool g) = Some s'" "gw_pool g' = s'"
    using assms(1) by (auto simp: pool_do_def)
  with pool_frame [OF this(1) assms(2,3)] pool_do_other(1) [OF assms(1)] show ?thesis by (simp add: life_of_def)
qed

lemma put_world_frame [simp]: "life_of (put_world w g) i = life_of g i" "owned (gw_pool (put_world w g)) = owned (gw_pool g)"
  by (simp_all add: life_of_def put_world_def owned_def)

lemma set_req_frame [simp]: "i \<noteq> j \<Longrightarrow> life_of (set_req i st g) j = life_of g j" "gw_pool (set_req i st g) = gw_pool g"
  by (simp_all add: life_of_def set_req_def)

lemma log_map_frame [simp]: "i \<noteq> j \<Longrightarrow> life_of (log_map i r g) j = life_of g j" "gw_pool (log_map i r g) = gw_pool g"
  by (auto simp: life_of_def log_map_def split: sum.splits)

lemma run_frame [simp]:
  "i \<noteq> j \<Longrightarrow> life_of (run_done h i st g) j = life_of g j" "owned (gw_pool (run_done h i st g)) = owned (gw_pool g)"
  "i \<noteq> j \<Longrightarrow> life_of (run_stream h i t st g) j = life_of g j" "owned (gw_pool (run_stream h i t st g)) = owned (gw_pool g)"
  "i \<noteq> j \<Longrightarrow> life_of (run_json h i st g) j = life_of g j" "owned (gw_pool (run_json h i st g)) = owned (gw_pool g)"
  by (simp_all add: run_done_def run_stream_def run_json_def Let_def split: prod.splits)

lemma run_keeps [simp]:
  "tasks (run_done h i st g) = tasks g" "running (run_done h i st g) = running g"
  "tasks (run_stream h i t st g) = tasks g" "running (run_stream h i t st g) = running g"
  "tasks (run_json h i st g) = tasks g" "running (run_json h i st g) = running g"
  by (auto simp: run_done_def run_stream_def run_json_def Let_def gw_defs split: prod.splits sum.splits)

lemma end_body_frame [simp]:
  "i \<noteq> j \<Longrightarrow> life_of (end_body i res g) j = life_of g j" "owned (gw_pool (end_body i res g)) = owned (gw_pool g)"
  by (auto simp: end_body_def life_of_def set_req_def put_world_def owned_def split: prod.splits)

lemma field_frame [simp]:
  "i \<noteq> j \<Longrightarrow> life_of (g\<lparr>received := (received g)(i := b)\<rparr>) j = life_of g j"
  "i \<noteq> j \<Longrightarrow> life_of (g\<lparr>forwarded := (forwarded g)(i := f)\<rparr>) j = life_of g j"
  "i \<noteq> j \<Longrightarrow> life_of (g\<lparr>tasks := remove1 (i, t) (tasks g)\<rparr>) j = life_of g j"
  "i \<noteq> j \<Longrightarrow> life_of (g\<lparr>running := remove1 (i, t) (running g)\<rparr>) j = life_of g j"
  "i \<noteq> j \<Longrightarrow> life_of (g\<lparr>running := (i, t) # running g\<rparr>) j = life_of g j"
  by (simp_all add: life_of_def mine_remove1)

lemma open_step_other:
  assumes "open_step h l st g = Some g'" "owned (gw_pool g)"
  shows "owned (gw_pool g') \<and> (\<forall>j. j \<noteq> gtarget l \<longrightarrow> life_of g' j = life_of g j)"
proof (cases l)
  case (GRead i p)
  then show ?thesis using assms pool_do_other(2) pool_do_frame
    by (fastforce simp: read_step_def Let_def split: if_splits)
next
  case (GDone i)
  then obtain g1 where "pool_do h (LFinBegin i) g = Some g1" "g' = (if phases (gw_pool g1) i = Ended then run_done h i st g1 else g1)"
    using assms(1) by (cases "phases (gw_pool g) i = InCallback") auto
  with pool_do_other(2) [OF this(1) assms(2)] pool_do_frame [OF this(1) assms(2)] GDone show ?thesis by auto
next
  case (GDoneEnd i)
  then obtain g1 where "pool_do h (LFinEnd i) g = Some g1" "g' = run_done h i st g1"
    using assms(1) by (auto split: if_splits)
  with pool_do_other(2) [OF this(1) assms(2)] pool_do_frame [OF this(1) assms(2)] GDoneEnd show ?thesis by auto
next
  case (GTask i t)
  let ?g = "g\<lparr>tasks := remove1 (i, t) (tasks g)\<rparr>"
  consider "g' = run_json h i st ?g" | "g' = ?g"
    | g1 where "pool_do h (LFinBegin i) ?g = Some g1"
        "g' = (if phases (gw_pool g1) i = Ended then run_stream h i t st g1 else g1\<lparr>running := (i, t) # running g1\<rparr>)"
    using assms(1) GTask by (auto simp: task_step_def Let_def split: if_splits)
  then show ?thesis
  proof cases
    case 3
    have "owned (gw_pool ?g)" using assms(2) by simp
    with pool_do_other(2) [OF 3(1) this] pool_do_frame [OF 3(1) this] 3(2) GTask show ?thesis by auto
  qed (use assms(2) GTask in auto)
next
  case (GTaskEnd i t)
  let ?g = "g\<lparr>running := remove1 (i, t) (running g)\<rparr>"
  obtain g1 where g1: "pool_do h (LFinEnd i) ?g = Some g1" "g' = run_stream h i t st g1"
    using assms(1) GTaskEnd by (auto split: if_splits)
  have "owned (gw_pool ?g)" using assms(2) by simp
  with pool_do_other(2) [OF g1(1) this] pool_do_frame [OF g1(1) this] g1(2) GTaskEnd show ?thesis by auto
qed (use assms in \<open>auto split: if_splits\<close>)

lemma gw_step_other:
  assumes "gw_step h l g = Some g'" "owned (gw_pool g)"
  shows "owned (gw_pool g')" "j \<noteq> gtarget l \<or> l = GTake \<or> (\<exists>k. l = GPut k) \<Longrightarrow> life_of g' j = life_of g j"
proof -
  have "owned (gw_pool g') \<and> (j \<noteq> gtarget l \<or> l = GTake \<or> (\<exists>k. l = GPut k) \<longrightarrow> life_of g' j = life_of g j)"
  proof (cases "l = GTake \<or> (\<exists>k. l = GPut k)")
    case True
    then show ?thesis using assms pool_do_other(2) pool_do_frame by fastforce
  next
    case False
    show ?thesis
    proof (cases "\<exists>st. open_step h l st g = Some g'")
      case True
      then show ?thesis using open_step_other assms(2) False by blast
    next
      case no: False
      show ?thesis
      proof (cases l)
        case (GRequest i rid fresh r)
        then show ?thesis using assms
          by (auto simp: request_step_def life_of_def put_world_def owned_def split: if_splits prod.splits reply.splits option.splits)
      next
        case (GUpstreamError i)
        then show ?thesis using assms by (auto split: if_splits)
      next
        case (GResponse i status ct)
        then show ?thesis using assms pool_do_other(2) pool_do_frame
          by (fastforce simp: response_step_def Let_def split: option.splits prod.splits body_kind.splits)
      qed (use False no assms(1) in \<open>auto split: option.splits\<close>)
    qed
  qed
  then show "owned (gw_pool g')" "j \<noteq> gtarget l \<or> l = GTake \<or> (\<exists>k. l = GPut k) \<Longrightarrow> life_of g' j = life_of g j" by auto
qed

text \<open>What a step of the pool does for the request it belongs to.\<close>

lemma do_New:
  "pool_do h (LNew i rid b) g = Some g' \<Longrightarrow> phases (gw_pool g') i = phases (gw_pool g) i \<and> map_option sealed (colls (gw_pool g') i) = Some False"
  by (auto simp: pool_do_def set_coll_def NewCollector_def split: if_splits)

lemma do_Write:
  assumes "pool_do h (LWrite i p) g = Some g'"
  obtains b fired where "map_option sealed (colls (gw_pool g) i) = Some b" "map_option sealed (colls (gw_pool g') i) = Some (b \<or> fired)"
    "phases (gw_pool g') i = (if fired then InCallback else phases (gw_pool g) i)" "fired \<longrightarrow> \<not> b"
proof -
  obtain s' where s': "pool_step (h_pages h) (h_pool h) (h_workers h) (LWrite i p) (gw_pool g) = Some s'" "gw_pool g' = s'"
    using assms by (auto simp: pool_do_def)
  from s'(1) show thesis
  proof (rule step_Write)
    fix c c' q' fired
    assume "colls (gw_pool g) i = Some c" "Write_begin (h_pool h) i p c (queue (gw_pool g)) = (fired, c', q')"
      "s' = (gw_pool g)\<lparr>queue := q', colls := (colls (gw_pool g))(i \<mapsto> c'),
         phases := (phases (gw_pool g))(i := if fired then InCallback else phases (gw_pool g) i)\<rparr>"
    then show thesis using that [of "sealed c" fired] Write_begin_seal s'(2) by (fastforce split: if_splits)
  qed
qed

lemma do_FinBegin:
  "pool_do h (LFinBegin i) g = Some g' \<Longrightarrow> map_option sealed (colls (gw_pool g') i) = map_option sealed (colls (gw_pool g) i) \<and>
    (if phases (gw_pool g') i = Ended then isl (fst (last (results (gw_pool g') i))) \<and> results (gw_pool g') i \<noteq> []
     else phases (gw_pool g') i = Waiting (phases (gw_pool g) i = InCallback))"
  by (auto simp: pool_do_def fin_begin_step_def Finalize_begin_def pool_defs split: option.splits if_splits)

lemma Finalize_rest_source: "Finalize_rest P c w = ((Inr a, stats), w') \<Longrightarrow> \<exists>payload. extract_assistant payload = Inr a"
  by (auto simp: Finalize_rest_def Let_def split: prod.splits sum.splits)

lemma do_FinEnd:
  assumes "pool_do h (LFinEnd i) g = Some g'"
  shows "map_option sealed (colls (gw_pool g') i) = map_option sealed (colls (gw_pool g) i) \<and> phases (gw_pool g') i = Ended \<and> results (gw_pool g') i \<noteq> [] \<and>
    (\<forall>a. fst (last (results (gw_pool g') i)) = Inr a \<longrightarrow> (\<exists>payload. extract_assistant payload = Inr a))"
proof -
  obtain s' where s': "pool_step (h_pages h) (h_pool h) (h_workers h) (LFinEnd i) (gw_pool g) = Some s'" "gw_pool g' = s'"
    using assms by (auto simp: pool_do_def)
  obtain c cb r w where e: "colls (gw_pool g) i = Some c" "Finalize_rest (h_pages h) c (world (gw_pool g)) = (r, w)"
    "s' = (gw_pool g)\<lparr>world := w, colls := (colls (gw_pool g))(i \<mapsto> after_callback cb c), phases := (phases (gw_pool g))(i := Ended),
        results := (results (gw_pool g))(i := results (gw_pool g) i @ [r])\<rparr>"
    using s'(1) by (rule step_FinEnd)
  have "\<exists>payload. extract_assistant payload = Inr a" if "fst r = Inr a" for a
    using Finalize_rest_source [of "h_pages h" c "world (gw_pool g)" a "snd r" w] e(2) that by (metis prod.collapse)
  then show ?thesis using e(1,3) s'(2) by simp
qed

text \<open>The life of a request, event by event.\<close>

definition mapped_now :: "'e + bytes \<Rightarrow> bytes list" where
  "mapped_now r = (case r of Inl e \<Rightarrow> [] | Inr a \<Rightarrow> [a])"

lemma mine_log_map: "mine i (mapped (log_map i r g)) = mine i (mapped g) @ mapped_now r"
  by (auto simp: log_map_def mapped_now_def split: sum.splits)

lemma life_begin:
  assumes "life (Some st) None ts rs ms ph None recv" "modifyResponse status ct (Some st) = (kind, Some t)"
  shows "kind = StreamBody \<Longrightarrow> life None (Some t) ts rs ms ph (Some False) recv"
    and "kind = JsonBody \<Longrightarrow> life None (Some t) ts rs ms ph None recv"
    and "life None None ts rs ms ph None recv"
  using assms by (auto simp: life_def idle_state_def modifyResponse_def in_callback_def split: if_splits)

lemma life_write:
  assumes "life fwd (Some st) ts rs ms ph (Some b) recv" "\<not> finished st" "\<not> in_callback ph" "fired \<Longrightarrow> \<not> b"
  shows "life fwd (Some st) ts rs ms (if fired then InCallback else ph) (Some (b \<or> fired)) (recv @ p)"
  using assms by (auto simp: life_def in_callback_def split: option.splits)

lemma life_json:
  assumes "life fwd (Some st) ts rs ms ph None recv" "\<not> finished st"
  shows "life fwd (Some (json_take p st)) ts rs ms ph None (recv @ p)"
  using assms by (auto simp: life_def json_take_def split: option.splits)

lemma life_finish:
  assumes "life fwd (Some st) ts rs ms ph seal recv" "\<not> in_callback ph" "finish (if e then st\<lparr>eof := True\<rparr> else st) m = (us, st', m')" "e \<longrightarrow> \<not> finished st"
  shows "life fwd (Some st') (ts @ us) rs ms ph seal recv"
  using assms by (auto simp: life_def finish_def Let_def split: option.splits if_splits)

lemma life_wait: "life fwd (Some st) ts rs ms ph seal recv \<Longrightarrow> in_callback ph \<Longrightarrow> in_callback ph' \<Longrightarrow> life fwd (Some st) ts rs ms ph' seal recv"
  by (auto simp: life_def in_callback_def)

lemma life_done:
  assumes "life fwd (Some st) ts rs ms ph seal recv" "in_callback ph" "\<And>a. r = Inr a \<Longrightarrow> \<exists>payload. extract_assistant payload = Inr a"
  shows "life fwd (Some (if isl r then st else st\<lparr>earlyFinalized := True\<rparr>)) ts rs (ms @ mapped_now r) Ended seal recv"
  using assms by (auto simp: life_def in_callback_def mapped_now_def split: option.splits sum.splits)

lemma life_task:
  assumes "life fwd (Some st) ts rs ms ph seal recv" "t \<in> set ts" "t \<noteq> FinalizeJSON"
    and "\<And>a. r = Inr a \<Longrightarrow> \<exists>payload. extract_assistant payload = Inr a" "has_collector st"
  shows "life fwd (Some st) (remove1 t ts) rs (ms @ mapped_now r) Ended seal recv"
    and "life fwd (Some st) (remove1 t ts) (t # rs) ms (Waiting False) seal recv"
proof -
  have "length ts + length rs + length ms \<le> 1" using assms(1) by (simp add: life_def)
  moreover have "ts \<noteq> []" using assms(2) by auto
  ultimately have "length ts = Suc 0" "rs = []" "ms = []" by (cases ts; simp)+
  then have "ts = [t]" "rs = []" "ms = []" using assms(2) by (auto simp: length_Suc_conv)
  then show "life fwd (Some st) (remove1 t ts) rs (ms @ mapped_now r) Ended seal recv"
    and "life fwd (Some st) (remove1 t ts) (t # rs) ms (Waiting False) seal recv"
    using assms by (auto simp: life_def in_callback_def mapped_now_def split: option.splits sum.splits)
qed

lemma life_task_end:
  assumes "life fwd (Some st) ts rs ms ph seal recv" "t \<in> set rs"
    and "\<And>a. r = Inr a \<Longrightarrow> \<exists>payload. extract_assistant payload = Inr a" "has_collector st"
  shows "life fwd (Some st) ts (remove1 t rs) (ms @ mapped_now r) Ended seal recv"
proof -
  have "length ts + length rs + length ms \<le> 1" using assms(1) by (simp add: life_def)
  moreover have "rs \<noteq> []" using assms(2) by auto
  ultimately have "length rs = Suc 0" "ts = []" "ms = []" by (cases rs; simp)+
  then have "rs = [t]" "ts = []" "ms = []" using assms(2) by (auto simp: length_Suc_conv)
  then show ?thesis using assms by (auto simp: life_def in_callback_def mapped_now_def split: option.splits sum.splits)
qed

lemma json_assistant_source:
  "json_assistant st = Inr a \<Longrightarrow> \<exists>b msg. jsonBuf st = Some b \<and> ParseCompletionResponse b = Inr msg \<and> AssistantFromMessage msg = Inr a"
  by (auto simp: json_assistant_def split: option.splits if_splits sum.splits)

lemma life_json_task:
  assumes "life fwd (Some st) ts rs ms ph seal recv" "FinalizeJSON \<in> set ts"
  shows "life fwd (Some st) (remove1 FinalizeJSON ts) rs (ms @ mapped_now (json_assistant st)) ph seal recv"
proof -
  have "length ts + length rs + length ms \<le> 1" using assms(1) by (simp add: life_def)
  moreover have "ts \<noteq> []" using assms(2) by auto
  ultimately have "length ts = Suc 0" "rs = []" "ms = []" by (cases ts; simp)+
  then have "ts = [FinalizeJSON]" "rs = []" "ms = []" using assms(2) by (auto simp: length_Suc_conv)
  then show ?thesis using assms json_assistant_source [of st]
    by (fastforce simp: life_def mapped_now_def split: option.splits sum.splits)
qed

lemma finalizeAtDone_state:
  "fst (finalizeAtDone S cfg st out w) = (if isl (fst out) then st else st\<lparr>earlyFinalized := True\<rparr>)"
  by (auto simp: finalizeAtDone_def Let_def split: prod.splits sum.splits)

lemma run_done_view:
  "life_of (run_done h i st g) i = life (forwarded g i) (Some (if isl (fst (last (results (gw_pool g) i))) then st else st\<lparr>earlyFinalized := True\<rparr>))
     (mine i (tasks g)) (mine i (running g)) (mine i (mapped g) @ mapped_now (fst (last (results (gw_pool g) i))))
     (phases (gw_pool g) i) (map_option sealed (colls (gw_pool g) i)) (received g i)"
  using finalizeAtDone_state [of "h_sessions h" "h_cfg h" st "last (results (gw_pool g) i)" "world (gw_pool g)"]
  by (auto simp: run_done_def life_of_def Let_def gw_defs mapped_now_def split: prod.splits sum.splits)

lemma run_stream_view:
  "life_of (run_stream h i t st g) i = life (forwarded g i) (open_reqs g i)
     (mine i (tasks g)) (mine i (running g)) (mine i (mapped g) @ mapped_now (fst (last (results (gw_pool g) i))))
     (phases (gw_pool g) i) (map_option sealed (colls (gw_pool g) i)) (received g i)"
  by (auto simp: run_stream_def life_of_def Let_def gw_defs mapped_now_def split: sum.splits)

lemma run_json_view:
  "life_of (run_json h i st g) i = life (forwarded g i) (open_reqs g i)
     (mine i (tasks g)) (mine i (running g)) (mine i (mapped g) @ mapped_now (json_assistant st))
     (phases (gw_pool g) i) (map_option sealed (colls (gw_pool g) i)) (received g i)"
  by (auto simp: run_json_def life_of_def Let_def gw_defs mapped_now_def split: sum.splits)

lemma end_body_view:
  "life_of (end_body i (us, st, m) g) i = life (forwarded g i) (Some st) (mine i (tasks g) @ us) (mine i (running g)) (mine i (mapped g))
     (phases (gw_pool g) i) (map_option sealed (colls (gw_pool g) i)) (received g i)"
  by (simp add: end_body_def life_of_def set_req_def put_world_def)

lemma life_collector: "life fwd (Some st) ts rs ms ph seal recv \<Longrightarrow> has_collector st \<longleftrightarrow> seal \<noteq> None"
  by (simp add: life_def)

lemma copying_iff: "copying i g \<longleftrightarrow> \<not> in_callback (phases (gw_pool g) i)"
  by (auto simp: copying_def in_callback_def)

lemma isl_mapped_now: "isl r \<Longrightarrow> mapped_now r = []"
  by (auto simp: mapped_now_def split: sum.splits)

lemma life_read:
  assumes "read_step h i p st g = Some g'" "open_reqs g i = Some st" "\<not> finished st" "copying i g" "life_of g i"
  shows "life_of g' i"
proof (cases "has_collector st")
  case False
  then have "map_option sealed (colls (gw_pool g) i) = None" using assms(2,5) life_collector by (fastforce simp: life_of_def)
  then show ?thesis using assms False life_json [of "forwarded g i" st]
    by (auto simp: read_step_def Let_def set_req_def life_of_def)
next
  case True
  show ?thesis
  proof (cases "p = []")
    case True
    then show ?thesis using assms \<open>has_collector st\<close> by (auto simp: read_step_def Let_def life_of_def)
  next
    case False
    let ?g = "g\<lparr>received := (received g)(i := received g i @ p)\<rparr>"
    have d: "pool_do h (LWrite i p) ?g = Some g'" using assms(1) True False by (simp add: read_step_def Let_def)
    obtain b fired where w: "map_option sealed (colls (gw_pool ?g) i) = Some b" "map_option sealed (colls (gw_pool g') i) = Some (b \<or> fired)"
      "phases (gw_pool g') i = (if fired then InCallback else phases (gw_pool ?g) i)" "fired \<longrightarrow> \<not> b"
      using d by (rule do_Write)
    have "life (forwarded g i) (Some st) (mine i (tasks g)) (mine i (running g)) (mine i (mapped g)) (phases (gw_pool g) i) (Some b) (received g i)"
      using assms(2,5) w(1) [simplified] unfolding life_of_def by auto
    then have "life (forwarded g i) (Some st) (mine i (tasks g)) (mine i (running g)) (mine i (mapped g))
        (if fired then InCallback else phases (gw_pool g) i) (Some (b \<or> fired)) (received g i @ p)"
      using assms(3,4) w(4) by (intro life_write) (auto simp: copying_iff)
    then show ?thesis using w(3) pool_do_other(1) [OF d] assms(2) unfolding life_of_def w(2) by (cases fired) simp_all
  qed
qed

lemma life_task_step:
  assumes "task_step h i t st g = Some g'" "open_reqs g i = Some st" "(i, t) \<in> set (tasks g)" "life_of g i"
  shows "life_of g' i"
proof -
  let ?g = "g\<lparr>tasks := remove1 (i, t) (tasks g)\<rparr>"
  have v: "life (forwarded g i) (Some st) (mine i (tasks g)) (mine i (running g)) (mine i (mapped g))
      (phases (gw_pool g) i) (map_option sealed (colls (gw_pool g) i)) (received g i)"
    using assms(2,4) by (simp add: life_of_def)
  have t: "t \<in> set (mine i (tasks g))" using assms(3) by (simp add: mine_member)
  then have ne: "\<not> earlyFinalized st" using v by (auto simp: life_def)
  show ?thesis
  proof (cases "t = FinalizeJSON")
    case True
    then show ?thesis using assms(1,2) life_json_task [OF v] t
      by (auto simp: task_step_def Let_def run_json_view mine_remove1)
  next
    case False
    obtain g1 where d: "pool_do h (LFinBegin i) ?g = Some g1"
      and g': "g' = (if phases (gw_pool g1) i = Ended then run_stream h i t st g1 else g1\<lparr>running := (i, t) # running g1\<rparr>)"
      using assms(1) False ne by (auto simp: task_step_def Let_def)
    note o = pool_do_other(1) [OF d] and b = do_FinBegin [OF d]
    have "colls (gw_pool g) i \<noteq> None" using d by (auto simp: pool_do_def split: option.splits)
    then have hc: "has_collector st" using life_collector [OF v] by simp
    have nb: "phases (gw_pool g) i \<noteq> InCallback" using v t by (fastforce simp: life_def in_callback_def)
    note lt = life_task [OF v t False, of "Inl ()", simplified, OF hc]
    show ?thesis
    proof (cases "phases (gw_pool g1) i = Ended")
      case True
      then have "mapped_now (fst (last (results (gw_pool g1) i))) = []" using b by (simp add: isl_mapped_now)
      then show ?thesis using True g' o b assms(2) lt(1) by (simp add: run_stream_view mine_remove1 mapped_now_def)
    next
      case False
      then show ?thesis using g' o b assms(2) lt(2) nb by (simp add: life_of_def mine_remove1)
    qed
  qed
qed

lemma open_step_self:
  assumes "open_step h l st g = Some g'" "open_reqs g (gtarget l) = Some st" "life_of g (gtarget l)"
  shows "life_of g' (gtarget l)"
proof -
  define i where "i = gtarget l"
  have v: "life (forwarded g i) (Some st) (mine i (tasks g)) (mine i (running g)) (mine i (mapped g))
      (phases (gw_pool g) i) (map_option sealed (colls (gw_pool g) i)) (received g i)"
    using assms(2,3) by (simp add: life_of_def i_def)
  show ?thesis
  proof (cases l)
    case (GRead k p)
    then show ?thesis using assms life_read by (auto split: if_splits)
  next
    case (GEof k)
    obtain us st' m' where f: "finish (st\<lparr>eof := True\<rparr>) (fst (world (gw_pool g))) = (us, st', m')" by (cases "finish (st\<lparr>eof := True\<rparr>) (fst (world (gw_pool g)))")
    show ?thesis using assms(1) GEof f life_finish [OF v, of True] i_def
      by (auto simp: at_eof_def end_body_view copying_iff split: if_splits)
  next
    case (GClose k)
    obtain us st' m' where f: "finish st (fst (world (gw_pool g))) = (us, st', m')" by (cases "finish st (fst (world (gw_pool g)))")
    show ?thesis using assms(1) GClose f life_finish [OF v, of False] i_def
      by (auto simp: body_Close_def end_body_view copying_iff split: if_splits)
  next
    case (GDone k)
    then have k: "k = i" by (simp add: i_def)
    obtain g1 where d: "pool_do h (LFinBegin i) g = Some g1" "phases (gw_pool g) i = InCallback"
      and g': "g' = (if phases (gw_pool g1) i = Ended then run_done h i st g1 else g1)"
      using assms(1) GDone k by (cases "phases (gw_pool g) i = InCallback") auto
    note o = pool_do_other(1) [OF d(1)] and b = do_FinBegin [OF d(1)]
    have cb: "in_callback (phases (gw_pool g) i)" using d(2) by (simp add: in_callback_def)
    show ?thesis
    proof (cases "phases (gw_pool g1) i = Ended")
      case True
      then have "isl (fst (last (results (gw_pool g1) i)))" using b by simp
      then show ?thesis using True g' o b life_done [OF v cb, of "Inl ()"] i_def
        by (simp add: run_done_view isl_mapped_now)
    next
      case False
      then have "phases (gw_pool g1) i = Waiting True" using b d(2) by simp
      then show ?thesis using False g' o b life_wait [OF v cb, of "Waiting True"] assms(2) i_def
        by (simp add: life_of_def in_callback_def)
    qed
  next
    case (GDoneEnd k)
    then have k: "k = i" by (simp add: i_def)
    obtain g1 where d: "pool_do h (LFinEnd i) g = Some g1" "phases (gw_pool g) i = Waiting True" and g': "g' = run_done h i st g1"
      using assms(1) GDoneEnd k by (cases "phases (gw_pool g) i = Waiting True") auto
    note o = pool_do_other(1) [OF d(1)] and b = do_FinEnd [OF d(1)]
    have cb: "in_callback (phases (gw_pool g) i)" using d(2) by (simp add: in_callback_def)
    show ?thesis using g' o b life_done [OF v cb, of "fst (last (results (gw_pool g1) i))"] i_def by (simp add: run_done_view)
  next
    case (GTask k t)
    then show ?thesis using assms life_task_step by (auto split: if_splits)
  next
    case (GTaskEnd k t)
    then have k: "k = i" by (simp add: i_def)
    let ?g = "g\<lparr>running := remove1 (i, t) (running g)\<rparr>"
    obtain g1 where d: "pool_do h (LFinEnd i) ?g = Some g1" "t \<in> set (mine i (running g))" and g': "g' = run_stream h i t st g1"
      using assms(1) GTaskEnd k by (auto simp: mine_member split: if_splits)
    note o = pool_do_other(1) [OF d(1)] and b = do_FinEnd [OF d(1)]
    have "colls (gw_pool g) i \<noteq> None" using d(1) by (auto simp: pool_do_def split: option.splits)
    then have hc: "has_collector st" using life_collector [OF v] by simp
    show ?thesis
      using g' o b life_task_end [OF v d(2), of "fst (last (results (gw_pool g1) i))"] hc assms(2) i_def by (simp add: run_stream_view mine_remove1)
  qed (use assms(1) in auto)
qed

lemma life_request:
  assumes "gw_step h (GRequest i rid fresh r) g = Some g'" "life_of g i"
  shows "life_of g' i"
proof -
  obtain rep w where sv: "ServeHTTP (h_sessions h) (h_cfg h) rid fresh r (world (gw_pool g)) = (rep, w)"
    by (cases "ServeHTTP (h_sessions h) (h_cfg h) rid fresh r (world (gw_pool g))")
  have idle: "idle_state st" if "rep = Proxy r' (Some st)" for r' st
    using sv that
    by (cases "world (gw_pool g)", auto simp: ServeHTTP_unfold prepare_def new_reqState_def idle_state_def Let_def
        split: if_splits option.splits prod.splits sum.splits)
  have "forwarded g i = None" "open_reqs g i = None" "g' = request_step h i rid fresh r g"
    using assms(1) by (auto split: if_splits)
  then show ?thesis using assms(2) idle sv
    by (auto simp: request_step_def life_of_def put_world_def life_def split: reply.splits option.splits)
qed

lemma life_response:
  assumes "gw_step h (GResponse i status ct) g = Some g'" "life_of g i"
  shows "life_of g' i"
proof -
  obtain st where st: "forwarded g i = Some st" "response_step h i status ct st g = Some g'"
    using assms(1) by (auto split: option.splits)
  have "\<exists>kind t. modifyResponse status ct (Some st) = (kind, Some t)" by (simp add: modifyResponse_def)
  then obtain kind t where mr: "modifyResponse status ct (Some st) = (kind, Some t)" by blast
  let ?g = "g\<lparr>forwarded := (forwarded g)(i := None)\<rparr>"
  have o: "open_reqs g i = None" "colls (gw_pool g) i = None"
    using assms(2) st(1) by (auto simp: life_of_def life_def)
  then have v: "life (Some st) None (mine i (tasks g)) (mine i (running g)) (mine i (mapped g)) (phases (gw_pool g) i) None (received g i)"
    using assms(2) st(1) by (simp add: life_of_def)
  note lb = life_begin [OF v mr]
  show ?thesis
  proof (cases kind)
    case StreamBody
    then obtain g1 where d: "pool_do h (LNew i (st_requestID t) True) ?g = Some g1" "g' = set_req i t g1"
      using st(2) mr by (auto simp: response_step_def Let_def)
    from pool_do_other(1) [OF d(1)] do_New [OF d(1)] d(2) lb(1) [OF StreamBody]
    show ?thesis unfolding life_of_def by (auto simp: set_req_def)
  next
    case JsonBody
    then show ?thesis using st(2) mr lb(2) o by (auto simp: response_step_def Let_def life_of_def set_req_def)
  next
    case PlainBody
    then show ?thesis using st(2) mr lb(3) o by (auto simp: response_step_def Let_def life_of_def)
  qed
qed

lemma life_upstream_error:
  "gw_step h (GUpstreamError i) g = Some g' \<Longrightarrow> life_of g i \<Longrightarrow> life_of g' i"
  by (auto simp: life_of_def life_def split: if_splits)

lemma life_step:
  assumes "gw_step h l g = Some g'" "owned (gw_pool g)" "\<And>i. life_of g i"
  shows "life_of g' i"
proof (cases "i \<noteq> gtarget l \<or> l = GTake \<or> (\<exists>k. l = GPut k)")
  case True
  then show ?thesis using gw_step_other(2) [OF assms(1,2) True] assms(3) by simp
next
  case False
  then have i: "i = gtarget l" by simp
  show ?thesis
  proof (cases "\<exists>st. open_reqs g i = Some st \<and> open_step h l st g = Some g'")
    case True
    then show ?thesis using open_step_self [of h l _ g g'] assms(3) i by blast
  next
    case no: False
    then show ?thesis
      using assms(1,3) False i life_request [of h] life_response [of h] life_upstream_error [of h]
      by (cases l) (auto split: option.splits)
  qed
qed

lemma gw_reach_life:
  assumes "gw_reach h w0 g"
  shows "owned (gw_pool g) \<and> (\<forall>i. life_of g i)"
  using assms
proof (induction rule: gw_reach.induct)
  case start
  then show ?case by (simp add: life_of_new owned_def) (simp add: NewHandler_def NewPool_def)
next
  case (step g l g')
  then show ?case using life_step gw_step_other(1) by blast
qed

section \<open>The data of one request\<close>

text \<open>
  The handler's own operations on the store leave the pages alone, so the invariant of the pool
  survives in the gateway, and a collector's only \<open>Finalize\<close> sees the bytes it accepted.
\<close>

definition keeps :: "('s \<Rightarrow> bool) \<Rightarrow> ('s \<Rightarrow> 'p) \<Rightarrow> Metrics \<times> 's \<Rightarrow> Metrics \<times> 's \<Rightarrow> bool" where
  "keeps sinv pages w w' \<longleftrightarrow> (sinv (snd w) \<longrightarrow> sinv (snd w') \<and> pages (snd w') = pages (snd w))"

lemma keeps_same [simp]: "snd w' = snd w \<Longrightarrow> keeps sinv pages w w'"
  by (simp add: keeps_def)

definition still_finished :: "'s gateway \<Rightarrow> 's gateway \<Rightarrow> bool" where
  "still_finished g g' \<longleftrightarrow> (\<forall>i st. open_reqs g i = Some st \<longrightarrow> finished st \<longrightarrow> (\<exists>st'. open_reqs g' i = Some st' \<and> finished st'))"

text \<open>When the pool is stepped by the handler: writes before \<open>finish\<close>, finalizations at [DONE] or after.\<close>

definition label_ok :: "label \<Rightarrow> 's gateway \<Rightarrow> bool" where
  "label_ok pl g = (case pl of
     LWrite i p \<Rightarrow> (\<exists>st. open_reqs g i = Some st \<and> \<not> finished st)
   | LFinBegin i \<Rightarrow> in_callback (phases (gw_pool g) i) \<or> (\<exists>st. open_reqs g i = Some st \<and> finished st)
   | LFinEnd i \<Rightarrow> in_callback (phases (gw_pool g) i) \<or> (\<exists>st. open_reqs g i = Some st \<and> finished st)
   | LNew i rid b \<Rightarrow> open_reqs g i = None
   | _ \<Rightarrow> True)"

lemma finish_finished: "finish st m = (us, st', m') \<Longrightarrow> finished st'"
  by (auto simp: finish_def Let_def split: if_splits)

text \<open>A step moves the pool by at most one step of its own and then the handler acts on the store.\<close>

definition moved :: "('s \<Rightarrow> bool) \<Rightarrow> ('s \<Rightarrow> 'p) \<Rightarrow> 's Handler \<Rightarrow> 's gateway \<Rightarrow> 's gateway \<Rightarrow> bool" where
  "moved sinv pages h g g' \<longleftrightarrow> still_finished g g' \<and>
     (\<exists>p w. gw_pool g' = p\<lparr>world := w\<rparr> \<and> keeps sinv pages (world p) w \<and>
        (p = gw_pool g \<and> acc g' = acc g \<or>
         (\<exists>pl. pool_step (h_pages h) (h_pool h) (h_workers h) pl (gw_pool g) = Some p \<and>
            acc g' = accept pl (gw_pool g) (acc g) \<and> label_ok pl g)))"

lemma world_same [simp]: "(p :: 's pool)\<lparr>world := world p\<rparr> = p"
  by simp

lemma moved_pool:
  assumes "pool_do h pl g0 = Some g1" "gw_pool g0 = gw_pool g" "acc g0 = acc g" "label_ok pl g" "still_finished g g'"
    and "gw_pool g' = (gw_pool g1)\<lparr>world := w\<rparr>" "keeps sinv pages (world (gw_pool g1)) w" "acc g' = acc g1"
  shows "moved sinv pages h g g'"
proof -
  have "pool_step (h_pages h) (h_pool h) (h_workers h) pl (gw_pool g) = Some (gw_pool g1)" "acc g1 = accept pl (gw_pool g) (acc g)"
    using assms(1-3) by (auto simp: pool_do_def)
  with assms(4-8) show ?thesis unfolding moved_def by metis
qed

lemma moved_still:
  "gw_pool g' = (gw_pool g)\<lparr>world := w\<rparr> \<Longrightarrow> keeps sinv pages (world (gw_pool g)) w \<Longrightarrow> acc g' = acc g \<Longrightarrow> still_finished g g' \<Longrightarrow>
    moved sinv pages h g g'"
  unfolding moved_def by metis

lemma run_done_parts:
  "gw_pool (run_done h i st g) = (gw_pool g)\<lparr>world := snd (finalizeAtDone (h_sessions h) (h_cfg h) st (last (results (gw_pool g) i)) (world (gw_pool g)))\<rparr>"
  "acc (run_done h i st g) = acc g"
  "open_reqs (run_done h i st g) = (open_reqs g)(i \<mapsto> fst (finalizeAtDone (h_sessions h) (h_cfg h) st (last (results (gw_pool g) i)) (world (gw_pool g))))"
  by (auto simp: run_done_def Let_def gw_defs split: prod.splits sum.splits)

lemma run_stream_parts:
  "gw_pool (run_stream h i t st g) = (gw_pool g)\<lparr>world := (if t = FinalizeStream then finalizeStream else finalizeStreamOnClose)
     (h_sessions h) (h_cfg h) st (last (results (gw_pool g) i)) (world (gw_pool g))\<rparr>"
  "acc (run_stream h i t st g) = acc g" "open_reqs (run_stream h i t st g) = open_reqs g"
  by (auto simp: run_stream_def Let_def gw_defs split: sum.splits)

lemma run_json_parts:
  "gw_pool (run_json h i st g) = (gw_pool g)\<lparr>world := finalizeJSON (h_sessions h) (h_cfg h) st (world (gw_pool g))\<rparr>"
  "acc (run_json h i st g) = acc g" "open_reqs (run_json h i st g) = open_reqs g"
  by (auto simp: run_json_def gw_defs split: sum.splits)

lemma end_body_parts:
  "gw_pool (end_body i (us, st, m) g) = (gw_pool g)\<lparr>world := (m, snd (world (gw_pool g)))\<rparr>"
  "acc (end_body i (us, st, m) g) = acc g" "open_reqs (end_body i (us, st, m) g) = (open_reqs g)(i \<mapsto> st)"
  by (auto simp: end_body_def gw_defs)

lemmas parts = run_done_parts run_stream_parts run_json_parts end_body_parts

lemma still_finished_upd: "open_reqs g i = Some st \<Longrightarrow> open_reqs g' = (open_reqs g)(i \<mapsto> st') \<Longrightarrow> (finished st \<longrightarrow> finished st') \<Longrightarrow> still_finished g g'"
  by (auto simp: still_finished_def)

lemma still_finished_new: "open_reqs g i = None \<Longrightarrow> open_reqs g' = (open_reqs g)(i \<mapsto> st') \<Longrightarrow> still_finished g g'"
  by (auto simp: still_finished_def)

lemma still_finished_same: "open_reqs g' = open_reqs g \<Longrightarrow> still_finished g g'"
  by (auto simp: still_finished_def)

lemma finalizeAtDone_finished: "finished (fst (finalizeAtDone S cfg st out w)) = finished st"
  by (simp add: finalizeAtDone_state)

text \<open>
  Once a collector has been finalized no more bytes reach it, because it was sealed at [DONE] or the
  body was finished. If it has not failed and was finalized once, the result is the
  assistant message of exactly the bytes it accepted, unless the pages could not be read.
\<close>

definition quiet :: "'s gateway \<Rightarrow> nat \<Rightarrow> bool" where
  "quiet g i \<longleftrightarrow> map_option sealed (colls (gw_pool g) i) = Some True \<or> (\<exists>st. open_reqs g i = Some st \<and> finished st)"

definition faithful :: "'s gateway \<Rightarrow> nat \<Rightarrow> bool" where
  "faithful g i \<longleftrightarrow> (\<forall>c r. colls (gw_pool g) i = Some c \<longrightarrow> \<not> failed c \<longrightarrow> results (gw_pool g) i = [r] \<longrightarrow>
     (\<exists>e. fst r = Inl (ReadTempPages e)) \<or> fst r = extract_assistant (acc g i))"

text \<open>
  In any case, failed or finalized again, a message a collector returned was extracted from a
  subsequence of the bytes it accepted.
\<close>

definition sound :: "'s gateway \<Rightarrow> nat \<Rightarrow> bool" where
  "sound g i \<longleftrightarrow> (\<forall>a. Inr a \<in> fst ` set (results (gw_pool g) i) \<longrightarrow>
     (\<exists>payload. subseq payload (acc g i) \<and> extract_assistant payload = Inr a))"

definition data_inv :: "('s \<Rightarrow> bool) \<Rightarrow> ('s \<Rightarrow> bytes \<Rightarrow> int \<Rightarrow> bytes option) \<Rightarrow> 's gateway \<Rightarrow> bool" where
  "data_inv sinv pages g \<longleftrightarrow> owned (gw_pool g) \<and> counted (gw_pool g) \<and> unique_ids (gw_pool g) \<and>
     (\<forall>i. results (gw_pool g) i \<noteq> [] \<longrightarrow> quiet g i) \<and>
     (small (gw_pool g) \<longrightarrow> pool_inv sinv pages (gw_pool g) (acc g) \<and> part_inv pages (gw_pool g) (acc g) \<and>
       (\<forall>i. faithful g i \<and> sound g i))"

lemma world_frame [simp]:
  "owned (s\<lparr>world := w\<rparr>) = owned s" "counted (s\<lparr>world := w\<rparr>) = counted s" "unique_ids (s\<lparr>world := w\<rparr>) = unique_ids s"
  "small (s\<lparr>world := w\<rparr>) = small s"
  by (simp_all add: owned_def counted_def unique_ids_def small_def)

lemma pool_inv_world: "pool_inv sinv pages s g \<Longrightarrow> keeps sinv pages (world s) w \<Longrightarrow> pool_inv sinv pages (s\<lparr>world := w\<rparr>) g"
  by (auto simp: pool_inv_def keeps_def)

lemma part_inv_world:
  "pool_inv sinv pages s g \<Longrightarrow> part_inv pages s g \<Longrightarrow> keeps sinv pages (world s) w \<Longrightarrow> part_inv pages (s\<lparr>world := w\<rparr>) g"
  by (auto simp: pool_inv_def part_inv_def keeps_def)

text \<open>One step of the pool, seen from request \<open>i\<close>.\<close>

lemma pool_step_view:
  assumes "pool_step P cfg n pl s = Some s'" "owned s" "colls s i = Some c"
  shows "\<exists>c'. colls s' i = Some c' \<and> (sealed c \<longrightarrow> sealed c') \<and> (failed c \<longrightarrow> failed c')"
proof (cases pl)
  case (LNew k rid b)
  note n = step_New [OF assms(1) [unfolded LNew]]
  with assms(3) have "k \<noteq> i" by auto
  with n assms(3) show ?thesis by simp
next
  case (LWrite k p)
  from assms(1) [unfolded LWrite] show ?thesis
  proof (rule step_Write)
    fix e e' q' fired
    assume w: "colls s k = Some e" "Write_begin cfg k p e (queue s) = (fired, e', q')"
      "s' = s\<lparr>queue := q', colls := (colls s)(k \<mapsto> e'), phases := (phases s)(k := if fired then InCallback else phases s k)\<rparr>"
    have "sealed e \<longrightarrow> sealed e'" using Write_begin_seal [OF w(2)] by (auto split: if_splits)
    moreover have "failed e \<longrightarrow> failed e'" using w(2) by (cases rule: Write_begin_cases; simp)
    ultimately show ?thesis using w assms(3) by (cases "k = i") auto
  qed
next
  case LTake
  from assms(1) [unfolded LTake] show ?thesis by (rule step_Take) (use assms(3) in auto)
next
  case (LPut k)
  from assms(1) [unfolded LPut] assms(2) show ?thesis by (rule step_Put) (use assms(3) in auto)
next
  case (LFinBegin k)
  from assms(1) [unfolded LFinBegin] show ?thesis by (rule step_FinBegin) (use assms(3) in auto)
next
  case (LFinEnd k)
  from assms(1) [unfolded LFinEnd] show ?thesis by (rule step_FinEnd) (use assms(3) in auto)
qed

lemma pool_step_new:
  assumes "pool_step P cfg n pl s = Some s'" "owned s" "colls s i = None" "colls s' i \<noteq> None"
  shows "\<exists>rid b. pl = LNew i rid b"
proof (cases pl)
  case (LNew k rid b)
  from step_New [OF assms(1) [unfolded LNew]] assms(3,4) LNew show ?thesis by (auto split: if_splits)
next
  case (LWrite k p)
  from assms(1) [unfolded LWrite] show ?thesis by (rule step_Write) (use assms(3,4) in \<open>auto split: if_splits\<close>)
next
  case LTake
  from assms(1) [unfolded LTake] show ?thesis by (rule step_Take) (use assms(3,4) in auto)
next
  case (LPut k)
  from assms(1) [unfolded LPut] assms(2) show ?thesis by (rule step_Put) (use assms(3,4) in \<open>auto split: if_splits\<close>)
next
  case (LFinBegin k)
  from assms(1) [unfolded LFinBegin] show ?thesis by (rule step_FinBegin) (use assms(3,4) in \<open>auto split: if_splits\<close>)
next
  case (LFinEnd k)
  from assms(1) [unfolded LFinEnd] show ?thesis by (rule step_FinEnd) (use assms(3,4) in \<open>auto split: if_splits\<close>)
qed

lemma pool_step_results:
  assumes "pool_step P cfg n pl s = Some s'" "owned s"
  obtains "results s' i = results s i"
    | c where "pl = LFinBegin i" "colls s i = Some c" "failed c"
    | c cb r w where "pl = LFinEnd i" "colls s i = Some c" "phases s i = Waiting cb" "inflight c = 0"
        "Finalize_rest P c (world s) = (r, w)" "results s' i = results s i @ [r]"
proof (cases "pl = LFinBegin i \<or> pl = LFinEnd i")
  case True
  then consider "pl = LFinBegin i" | "pl = LFinEnd i" by blast
  then show thesis
  proof cases
    case 1
    from assms(1) [unfolded 1] show thesis by (rule step_FinBegin) (use that(1,2) 1 in auto)
  next
    case 2
    from assms(1) [unfolded 2] show thesis by (rule step_FinEnd) (use that(3) 2 in auto)
  qed
next
  case False
  then have "results s' i = results s i"
    using assms(1) by (cases pl) (auto simp: put_step_def write_step_def fin_begin_step_def fin_end_step_def pool_defs Let_def
        split: if_splits option.splits list.splits prod.splits phase.splits)
  then show thesis by (rule that(1))
qed

lemma results_grow:
  "pool_step P cfg n pl s = Some s' \<Longrightarrow> \<exists>rs. results s' i = results s i @ rs"
  by (cases pl) (auto simp: put_step_def write_step_def fin_begin_step_def fin_end_step_def pool_defs Let_def
      split: if_splits option.splits list.splits prod.splits phase.splits)

lemma results_source:
  assumes "pool_step P cfg n pl s = Some s'" "owned s" "Inr a \<in> fst ` set (results s' i)"
  shows "Inr a \<in> fst ` set (results s i) \<or>
    (\<exists>c stats w. colls s i = Some c \<and> Finalize_rest P c (world s) = ((Inr a, stats), w))"
proof (rule pool_step_results [OF assms(1,2), of i])
  assume "results s' i = results s i"
  then show ?thesis using assms(3) by simp
next
  fix c assume "pl = LFinBegin i"
  then show ?thesis using assms(1,3)
    by (auto simp: fin_begin_step_def Finalize_begin_def pool_defs split: option.splits if_splits)
next
  fix c cb r w
  assume "colls s i = Some c" "Finalize_rest P c (world s) = (r, w)" "results s' i = results s i @ [r]"
  then show ?thesis using assms(3) by (cases r) auto
qed

lemma accept_grows: "\<exists>p. accept pl s g i = g i @ p"
  by (auto simp: accept_def split: label.splits option.splits)

lemma accept_other: "(\<forall>p. pl \<noteq> LWrite i p) \<or> map_option sealed (colls s i) = Some True \<Longrightarrow> accept pl s g i = g i"
  by (auto simp: accept_def split: label.splits option.splits)

lemma task_step_cases:
  assumes "task_step h i t st g = Some g'"
  obtains "t = FinalizeJSON" "g' = run_json h i st (g\<lparr>tasks := remove1 (i, t) (tasks g)\<rparr>)" | "g' = g\<lparr>tasks := remove1 (i, t) (tasks g)\<rparr>"
    | g1 where "pool_do h (LFinBegin i) (g\<lparr>tasks := remove1 (i, t) (tasks g)\<rparr>) = Some g1" "g' = run_stream h i t st g1" "phases (gw_pool g1) i = Ended"
    | g1 where "pool_do h (LFinBegin i) (g\<lparr>tasks := remove1 (i, t) (tasks g)\<rparr>) = Some g1" "g' = g1\<lparr>running := (i, t) # running g1\<rparr>"
proof -
  let ?g = "g\<lparr>tasks := remove1 (i, t) (tasks g)\<rparr>"
  consider "t = FinalizeJSON" | "t \<noteq> FinalizeJSON" "earlyFinalized st"
    | g1 where "t \<noteq> FinalizeJSON" "\<not> earlyFinalized st" "pool_do h (LFinBegin i) ?g = Some g1"
      "g' = (if phases (gw_pool g1) i = Ended then run_stream h i t st g1 else g1\<lparr>running := (i, t) # running g1\<rparr>)"
    using assms unfolding task_step_def Let_def by (cases "pool_do h (LFinBegin i) ?g") (auto split: if_split_asm)
  then show thesis
  proof cases
    case (3 g1)
    then show thesis using that(3,4) by (cases "phases (gw_pool g1) i = Ended") simp_all
  qed (use assms that(1,2) in \<open>simp_all add: task_step_def\<close>)
qed

lemma read_step_cases:
  assumes "read_step h i p st g = Some g'"
  obtains "g' = g\<lparr>received := (received g)(i := received g i @ p)\<rparr>"
    | "pool_do h (LWrite i p) (g\<lparr>received := (received g)(i := received g i @ p)\<rparr>) = Some g'"
    | "g' = set_req i (json_take p st) (g\<lparr>received := (received g)(i := received g i @ p)\<rparr>)"
proof -
  let ?g = "g\<lparr>received := (received g)(i := received g i @ p)\<rparr>"
  have "g' = ?g \<or> pool_do h (LWrite i p) ?g = Some g' \<or> g' = set_req i (json_take p st) ?g"
    using assms unfolding read_step_def Let_def by (simp split: if_splits)
  then show thesis using that by blast
qed

text \<open>
  The shapes of a step of an open request: bookkeeping, buffered JSON, the end of the body, a step of the
  pool, or one that is followed by the handler's code after \<open>Finalize\<close>.
\<close>

definition core :: "'s gateway \<Rightarrow> 's pool \<times> (nat \<Rightarrow> reqState option) \<times> (nat \<Rightarrow> reqState option) \<times> (nat \<Rightarrow> bytes) \<times> (nat \<times> bytes) list" where
  "core g = (gw_pool g, open_reqs g, forwarded g, acc g, mapped g)"

definition pool_first :: "'s Handler \<Rightarrow> 's gateway \<Rightarrow> 's gateway \<Rightarrow> bool" where
  "pool_first h g g1 \<longleftrightarrow> (\<exists>pl g0. core g0 = core g \<and> label_ok pl g \<and> pool_do h pl g0 = Some g1)"

lemma pool_first_open: "pool_first h g g1 \<Longrightarrow> open_reqs g1 = open_reqs g \<and> forwarded g1 = forwarded g \<and> mapped g1 = mapped g"
  by (auto simp: pool_first_def core_def dest!: pool_do_other(1))

lemma pool_firstI: "pool_do h pl g0 = Some g1 \<Longrightarrow> core g0 = core g \<Longrightarrow> label_ok pl g \<Longrightarrow> pool_first h g g1"
  unfolding pool_first_def by blast

lemma open_step_elim:
  assumes "open_step h l st g = Some g'" "open_reqs g (gtarget l) = Some st" "life_of g (gtarget l)"
  obtains (still) "core g' = core g"
    | (json) p g0 where "core g0 = core g" "g' = set_req (gtarget l) (json_take p st) g0" "\<not> finished st"
    | (finish) e us st' m' where "finish (if e then st\<lparr>eof := True\<rparr> else st) (fst (world (gw_pool g))) = (us, st', m')"
        "g' = end_body (gtarget l) (us, st', m') g"
    | (pool) g1 where "pool_first h g g1" "core g' = core g1"
    | (run_done) g1 where "pool_first h g g1" "g' = run_done h (gtarget l) st g1" "results (gw_pool g1) (gtarget l) \<noteq> []"
    | (run_stream) t g1 where "pool_first h g g1" "g' = run_stream h (gtarget l) t st g1" "results (gw_pool g1) (gtarget l) \<noteq> []"
    | (run_json) g0 where "core g0 = core g" "g' = run_json h (gtarget l) st g0" "\<not> has_collector st"
proof (cases l)
  case (GRead i p)
  have r: "read_step h i p st g = Some g'" "\<not> finished st" using assms(1) GRead by (auto split: if_splits)
  have ok: "label_ok (LWrite i p) g" using assms(2) GRead r(2) by (simp add: label_ok_def)
  let ?g = "g\<lparr>received := (received g)(i := received g i @ p)\<rparr>"
  have c: "core ?g = core g" by (simp add: core_def)
  from r(1) show thesis
  proof (cases rule: read_step_cases)
    case 1
    then show thesis using that(1) c by simp
  next
    case 2
    then have "pool_first h g g'" using c ok by (rule pool_firstI)
    then show thesis using that(4) by blast
  next
    case 3
    then show thesis using that(2) [OF c] r(2) GRead by simp
  qed
next
  case (GEof i)
  then show thesis using assms(1) that(3) [of True] by (auto simp: at_eof_def split: if_splits intro: prod_cases3 [of "finish (st\<lparr>eof := True\<rparr>) (fst (world (gw_pool g)))"])
next
  case (GClose i)
  then show thesis using assms(1) that(3) [of False] by (auto simp: body_Close_def split: if_splits intro: prod_cases3 [of "finish st (fst (world (gw_pool g)))"])
next
  case (GDone i)
  obtain g1 where d: "pool_do h (LFinBegin i) g = Some g1" "phases (gw_pool g) i = InCallback"
    and g': "g' = (if phases (gw_pool g1) i = Ended then run_done h i st g1 else g1)"
    using assms(1) GDone by (cases "phases (gw_pool g) i = InCallback") auto
  have "pool_first h g g1" by (rule pool_firstI [OF d(1) refl]) (use d(2) in \<open>simp add: label_ok_def in_callback_def\<close>)
  then show thesis using that(4,5) g' GDone do_FinBegin [OF d(1)] by (auto split: if_splits)
next
  case (GDoneEnd i)
  obtain g1 where d: "pool_do h (LFinEnd i) g = Some g1" "phases (gw_pool g) i = Waiting True" and g': "g' = run_done h i st g1"
    using assms(1) GDoneEnd by (cases "phases (gw_pool g) i = Waiting True") auto
  have "pool_first h g g1" by (rule pool_firstI [OF d(1) refl]) (use d(2) in \<open>simp add: label_ok_def in_callback_def\<close>)
  then show thesis using that(5) g' GDoneEnd do_FinEnd [OF d(1)] by auto
next
  case (GTask i t)
  have t: "t \<in> set (mine i (tasks g))" "task_step h i t st g = Some g'" using assms(1) GTask by (auto simp: mine_member split: if_splits)
  then have "finished st" using assms(2,3) GTask by (auto simp: life_of_def life_def)
  then have ok: "label_ok (LFinBegin i) g" using assms(2) GTask by (simp add: label_ok_def)
  let ?g = "g\<lparr>tasks := remove1 (i, t) (tasks g)\<rparr>"
  have c: "core ?g = core g" by (simp add: core_def)
  have first: "pool_first h g g1" if "pool_do h (LFinBegin i) ?g = Some g1" for g1
    using that c ok by (rule pool_firstI)
  from t(2) show thesis
  proof (cases rule: task_step_cases)
    case 1
    then have "\<not> has_collector st" using t(1) assms(2,3) GTask by (auto simp: life_of_def life_def)
    then show thesis using that(7) [OF c] GTask 1 by simp
  next
    case 2
    then show thesis using that(1) c by simp
  next
    case (3 g1)
    then show thesis using that(6) [OF first] GTask do_FinBegin [OF 3(1)] by simp
  next
    case (4 g1)
    then show thesis using that(4) [OF first [OF 4(1)]] by (simp add: core_def)
  qed
next
  case (GTaskEnd i t)
  let ?g = "g\<lparr>running := remove1 (i, t) (running g)\<rparr>"
  obtain g1 where d: "pool_do h (LFinEnd i) ?g = Some g1" "t \<in> set (mine i (running g))" and g': "g' = run_stream h i t st g1"
    using assms(1) GTaskEnd by (auto simp: mine_member split: if_splits)
  have "finished st" using d(2) assms(2,3) GTaskEnd by (auto simp: life_of_def life_def)
  then have "label_ok (LFinEnd i) g" using assms(2) GTaskEnd by (simp add: label_ok_def)
  then have "pool_first h g g1" by (intro pool_firstI [OF d(1)]) (simp_all add: core_def)
  then show thesis using that(6) g' GTaskEnd do_FinEnd [OF d(1)] by auto
qed (use assms(1) in auto)

context gateway_store
begin

lemma putMapping_keeps [simp]: "snd w1 = snd w \<Longrightarrow> keeps inv pages w (putMapping S cfg st a w1)"
  using put_session_pages by (cases w1) (fastforce simp: keeps_def putMapping_def Let_def split: prod.splits sum.splits)

lemma finalize_keeps [simp]:
  "keeps inv pages w (finalizeStream S cfg st out w)" "keeps inv pages w (finalizeStreamOnClose S cfg st out w)"
  "keeps inv pages w (snd (finalizeAtDone S cfg st out w))" "keeps inv pages w (finalizeJSON S cfg st w)"
  by (cases w; cases out; simp add: finalizeStream_def finalizeStreamOnClose_def finalizeAtDone_def finalizeJSON_def Let_def
      split: sum.splits option.splits)+

lemma Resolve_keeps_pages [simp]: "snd w1 = snd w \<Longrightarrow> keeps inv pages w (snd (Resolve S fresh ch ms cs w1))"
  using get_session_pages
  by (cases w1) (fastforce simp: keeps_def Resolve_def Let_def split: prod.splits sum.splits option.splits)

lemma prepare_keeps [simp]:
  assumes "snd w1 = snd w"
  shows "keeps inv pages w (snd (prepare S fresh r body st w1))"
proof -
  have "keeps inv pages w w'" if "Resolve S fresh ch ms cs w1 = (d, w')" for d w' ch ms cs
    using Resolve_keeps_pages [OF assms, of fresh ch ms cs] that by simp
  then show ?thesis using assms by (auto simp: prepare_def Let_def split: option.splits sum.splits prod.splits)
qed

lemma ServeHTTP_keeps: "keeps inv pages w (snd (ServeHTTP S cfg rid fresh r w))"
proof -
  have "keeps inv pages w w'" if "prepare S fresh r body st (count_request k (fst w), snd w) = (x, w')" for k body st x w'
    using prepare_keeps [of "(count_request k (fst w), snd w)" w fresh r body st] that by simp
  then show ?thesis by (cases w) (auto simp: ServeHTTP_unfold split: option.splits prod.splits)
qed

lemma moved_first:
  assumes "pool_first h g g1" "still_finished g g'" "gw_pool g' = (gw_pool g1)\<lparr>world := w\<rparr>"
    "keeps inv pages (world (gw_pool g1)) w" "acc g' = acc g1"
  shows "moved inv pages h g g'"
  using assms moved_pool unfolding pool_first_def core_def by (metis prod.inject)

lemma moved_open:
  assumes "open_step h l st g = Some g'" "open_reqs g (gtarget l) = Some st" "life_of g (gtarget l)" "h_sessions h = S"
  shows "moved inv pages h g g'"
  using assms(1-3)
proof (cases rule: open_step_elim)
  case still
  then show ?thesis by (intro moved_still [where w = "world (gw_pool g)"]) (auto simp: core_def intro: still_finished_same)
next
  case (json p g0)
  then show ?thesis using assms(2)
    by (intro moved_still [where w = "world (gw_pool g)"]) (auto simp: core_def set_req_def still_finished_def)
next
  case (finish e us st' m')
  then show ?thesis using finish_finished [OF finish(1)] assms(2)
    by (intro moved_still [OF end_body_parts(1) [of "gtarget l" us st' m' g, folded finish(2)]])
      (auto simp: end_body_parts intro: still_finished_upd)
next
  case (pool g1)
  then show ?thesis using pool_first_open [OF pool(1)]
    by (intro moved_first [OF pool(1), where w = "world (gw_pool g1)"]) (auto simp: core_def intro: still_finished_same)
next
  case (run_done g1)
  then show ?thesis using pool_first_open [OF run_done(1)] assms(2)
    by (intro moved_first [OF run_done(1)]) (auto simp: run_done_parts assms(4) finalizeAtDone_finished intro: still_finished_upd)
next
  case (run_stream t g1)
  then show ?thesis using pool_first_open [OF run_stream(1)]
    by (intro moved_first [OF run_stream(1)]) (auto simp: run_stream_parts assms(4) intro: still_finished_same)
next
  case (run_json g0)
  then show ?thesis by (intro moved_still) (auto simp: core_def run_json_parts assms(4) intro: still_finished_same)
qed

lemma moved_step:
  assumes "gw_step h l g = Some g'" "\<And>i. life_of g i" "h_sessions h = S"
  shows "moved inv pages h g g'"
proof (cases "\<exists>st. open_reqs g (gtarget l) = Some st \<and> open_step h l st g = Some g'")
  case True
  then show ?thesis using moved_open assms(2,3) by blast
next
  case no: False
  show ?thesis
  proof (cases l)
    case (GRequest i rid fresh r)
    obtain rep w where sv: "ServeHTTP S (h_cfg h) rid fresh r (world (gw_pool g)) = (rep, w)"
      by (cases "ServeHTTP S (h_cfg h) rid fresh r (world (gw_pool g))")
    have "keeps inv pages (world (gw_pool g)) w" using ServeHTTP_keeps [of "world (gw_pool g)" "h_cfg h" rid fresh r] sv by simp
    moreover have "gw_pool g' = (gw_pool g)\<lparr>world := w\<rparr> \<and> acc g' = acc g \<and> open_reqs g' = open_reqs g"
      using assms(1) GRequest sv
      by (auto simp: request_step_def assms(3) put_world_def split: if_splits reply.splits option.splits)
    ultimately show ?thesis by (intro moved_still) (auto intro: still_finished_same)
  next
    case (GUpstreamError i)
    then show ?thesis using assms(1)
      by (intro moved_still [where w = "world (gw_pool g)"]) (auto intro: still_finished_same split: if_splits)
  next
    case (GResponse i status ct)
    obtain st where st: "forwarded g i = Some st" "response_step h i status ct st g = Some g'"
      using assms(1) GResponse by (auto split: option.splits)
    have o: "open_reqs g i = None" using assms(2) [of i] st(1) by (auto simp: life_of_def life_def)
    let ?g = "g\<lparr>forwarded := (forwarded g)(i := None)\<rparr>"
    consider t g1 where "pool_do h (LNew i (st_requestID t) True) ?g = Some g1" "g' = set_req i t g1"
      | t where "g' = set_req i t ?g" | "g' = ?g"
      using st(2) by (auto simp: response_step_def Let_def split: prod.splits body_kind.splits option.splits)
    then show ?thesis
    proof cases
      case 1
      then show ?thesis using o pool_do_other(1) [OF 1(1)]
        by (intro moved_pool [OF 1(1), of g _ "world (gw_pool g1)"])
          (auto simp: label_ok_def set_req_def intro: still_finished_new)
    next
      case 2
      then show ?thesis using o
        by (intro moved_still [where w = "world (gw_pool g)"]) (auto simp: set_req_def intro: still_finished_new)
    next
      case 3
      then show ?thesis by (intro moved_still [where w = "world (gw_pool g)"]) (auto intro: still_finished_same)
    qed
  next
    case GTake
    then have d: "pool_do h LTake g = Some g'" using assms(1) by simp
    show ?thesis by (rule moved_pool [OF d, of g _ "world (gw_pool g')"])
      (use pool_do_other(1) [OF d] in \<open>auto simp: label_ok_def intro: still_finished_same\<close>)
  next
    case (GPut k)
    then have d: "pool_do h (LPut k) g = Some g'" using assms(1) by simp
    show ?thesis by (rule moved_pool [OF d, of g _ "world (gw_pool g')"])
      (use pool_do_other(1) [OF d] in \<open>auto simp: label_ok_def intro: still_finished_same\<close>)
  qed (use no assms(1) in \<open>auto split: option.splits\<close>)
qed

lemma quiet_step:
  assumes "moved inv pages h g g'" "data_inv inv pages g" "\<And>i. life_of g i" "results (gw_pool g') i \<noteq> []"
  shows "quiet g' i"
proof -
  obtain p w where m: "still_finished g g'" "gw_pool g' = p\<lparr>world := w\<rparr>"
    "p = gw_pool g \<or> (\<exists>pl. pool_step (h_pages h) (h_pool h) (h_workers h) pl (gw_pool g) = Some p \<and> label_ok pl g)"
    using assms(1) unfolding moved_def by blast
  have keep: "quiet g' i" if q: "quiet g i"
  proof (cases "\<exists>st. open_reqs g i = Some st \<and> finished st")
    case True
    then show ?thesis using m(1) by (auto simp: quiet_def still_finished_def)
  next
    case False
    then obtain c where c: "colls (gw_pool g) i = Some c" "sealed c" using q by (auto simp: quiet_def)
    then have "\<exists>c'. colls p i = Some c' \<and> sealed c'"
      using m(3) assms(2) unfolding data_inv_def by (metis pool_step_view)
    then show ?thesis using m(2) by (auto simp: quiet_def)
  qed
  show ?thesis
  proof (cases "results (gw_pool g) i = []")
    case False
    then show ?thesis using keep assms(2) by (simp add: data_inv_def)
  next
    case True
    then obtain pl where pl: "pool_step (h_pages h) (h_pool h) (h_workers h) pl (gw_pool g) = Some p" "label_ok pl g"
      using m(2,3) assms(4) by auto
    have "owned (gw_pool g)" using assms(2) by (simp add: data_inv_def)
    with pl(1) have "pl = LFinBegin i \<or> pl = LFinEnd i"
      by (rule pool_step_results [where i = i]) (use True assms(4) m(2) in auto)
    then have "in_callback (phases (gw_pool g) i) \<or> (\<exists>st. open_reqs g i = Some st \<and> finished st)"
      using pl(2) by (auto simp: label_ok_def)
    then have "quiet g i" using assms(3) [of i]
      by (auto simp: quiet_def life_of_def life_def in_callback_def split: option.splits)
    then show ?thesis by (rule keep)
  qed
qed

lemma faithful_step:
  assumes "pool_step P cfg n pl (gw_pool g) = Some p" "label_ok pl g" "data_inv inv pages g" "pool_inv inv pages (gw_pool g) (acc g)"
    and "faithful g i" "gw_pool g' = p\<lparr>world := w\<rparr>" "acc g' = accept pl (gw_pool g) (acc g)"
  shows "faithful g' i"
  unfolding faithful_def
proof (intro allI impI)
  fix c' r
  assume c': "colls (gw_pool g') i = Some c'" "\<not> failed c'" "results (gw_pool g') i = [r]"
  have inv: "owned (gw_pool g)" "counted (gw_pool g)" "unique_ids (gw_pool g)" "results (gw_pool g) i \<noteq> [] \<longrightarrow> quiet g i"
    using assms(3) by (simp_all add: data_inv_def)
  show "(\<exists>e. fst r = Inl (ReadTempPages e)) \<or> fst r = extract_assistant (acc g' i)"
  proof (rule pool_step_results [OF assms(1) inv(1), of i])
    assume same: "results p i = results (gw_pool g) i"
    then have q: "quiet g i" using inv(4) c'(3) assms(6) by simp
    have "colls (gw_pool g) i \<noteq> None"
    proof
      assume n: "colls (gw_pool g) i = None"
      then obtain rid b where "pl = LNew i rid b" using pool_step_new [OF assms(1) inv(1) n] c'(1) assms(6) by auto
      then show False using assms(2) q n by (simp add: label_ok_def quiet_def)
    qed
    then obtain c where c: "colls (gw_pool g) i = Some c" by blast
    then have "\<not> failed c" using pool_step_view [OF assms(1) inv(1) c] c'(1,2) assms(6) by force
    moreover have "acc g' i = acc g i"
      unfolding assms(7) by (rule accept_other) (use q assms(2) in \<open>auto simp: quiet_def label_ok_def\<close>)
    moreover have "results (gw_pool g) i = [r]" using same c'(3) assms(6) by simp
    ultimately show ?thesis using assms(5) c unfolding faithful_def by metis
  next
    fix c assume "pl = LFinBegin i" "colls (gw_pool g) i = Some c" "failed c"
    then show ?thesis using pool_step_view [OF assms(1) inv(1)] c'(1,2) assms(6) by force
  next
    fix c cb r' w'
    assume e: "pl = LFinEnd i" "colls (gw_pool g) i = Some c" "phases (gw_pool g) i = Waiting cb" "inflight c = 0"
      "Finalize_rest P c (world (gw_pool g)) = (r', w')" "results p i = results (gw_pool g) i @ [r']"
    then have r: "r' = r" "results (gw_pool g) i = []" using c'(3) assms(6) by auto
    have nf: "\<not> failed c" using pool_step_view [OF assms(1) inv(1) e(2)] c'(1,2) assms(6) by force
    have "acc g' i = acc g i" unfolding assms(7) by (rule accept_other) (use e(1) in simp)
    then show ?thesis
      using e(5) r temp.Finalize_payload_inv [OF assms(4) inv(3,2) e(2) nf r(2) e(4)]
      by (auto simp: Finalize_rest_def Let_def split: prod.splits sum.splits)
  qed
qed

lemma sound_step:
  assumes "pool_step P cfg n pl (gw_pool g) = Some p" "owned (gw_pool g)" "inv (snd (world (gw_pool g)))"
    and "part_inv pages (gw_pool g) (acc g)" "sound g i" "gw_pool g' = p\<lparr>world := w\<rparr>" "acc g' = accept pl (gw_pool g) (acc g)"
  shows "sound g' i"
  unfolding sound_def
proof (intro allI impI)
  fix a assume "Inr a \<in> fst ` set (results (gw_pool g') i)"
  then have "Inr a \<in> fst ` set (results p i)" using assms(6) by simp
  then have "\<exists>payload. subseq payload (acc g i) \<and> extract_assistant payload = Inr a"
    using results_source [OF assms(1,2)] assms(5) temp.Finalize_payload_part [OF assms(4,3)] unfolding sound_def by blast
  moreover obtain q where "acc g' i = acc g i @ q" using accept_grows [of pl "gw_pool g" "acc g" i] assms(7) by auto
  moreover have "subseq x (acc g i @ q)" if "subseq x (acc g i)" for x
    using list_emb_append_mono [OF that, of "[]" q] by simp
  ultimately show "\<exists>payload. subseq payload (acc g' i) \<and> extract_assistant payload = Inr a" by metis
qed

lemma data_step:
  assumes "gw_step h l g = Some g'" "\<And>i. life_of g i" "data_inv inv pages g" "h_sessions h = S" "h_pages h = P"
  shows "data_inv inv pages g'"
proof -
  have mv: "moved inv pages h g g'" by (rule moved_step [OF assms(1,2,4)])
  then obtain p w where m: "gw_pool g' = p\<lparr>world := w\<rparr>" "keeps inv pages (world p) w"
    "p = gw_pool g \<and> acc g' = acc g \<or>
     (\<exists>pl. pool_step P (h_pool h) (h_workers h) pl (gw_pool g) = Some p \<and> acc g' = accept pl (gw_pool g) (acc g) \<and> label_ok pl g)"
    unfolding moved_def assms(5) by blast
  have q: "\<forall>i. results (gw_pool g') i \<noteq> [] \<longrightarrow> quiet g' i" using quiet_step [OF mv assms(3,2)] by blast
  note inv = assms(3) [unfolded data_inv_def]
  show ?thesis
  proof (cases "p = gw_pool g \<and> acc g' = acc g")
    case True
    then have s: "gw_pool g' = (gw_pool g)\<lparr>world := w\<rparr>" "acc g' = acc g" using m(1) by auto
    then have fa: "faithful g' = faithful g" "sound g' = sound g" by (auto intro!: ext simp: faithful_def sound_def)
    have "pool_inv inv pages (gw_pool g') (acc g') \<and> part_inv pages (gw_pool g') (acc g')" if "small (gw_pool g)"
      using inv that pool_inv_world [of inv pages "gw_pool g" "acc g" w] part_inv_world [of inv pages "gw_pool g" "acc g" w]
        m(2) True unfolding s by blast
    then show ?thesis using inv q fa unfolding data_inv_def s by auto
  next
    case False
    then obtain pl where pl: "pool_step P (h_pool h) (h_workers h) pl (gw_pool g) = Some p"
      "acc g' = accept pl (gw_pool g) (acc g)" "label_ok pl g" using m(3) by blast
    have "owned p" "counted p" "unique_ids p" using inv pl(1) owned_step counted_step unique_ids_step by blast+
    moreover have "pool_inv inv pages (gw_pool g') (acc g') \<and> part_inv pages (gw_pool g') (acc g') \<and> (\<forall>i. faithful g' i \<and> sound g' i)"
      if "small p"
    proof -
      have sm: "small (gw_pool g)" using temp.small_step [OF pl(1)] inv that by blast
      then have pi: "pool_inv inv pages (gw_pool g) (acc g)" and pa: "part_inv pages (gw_pool g) (acc g)"
        and fa: "\<And>i. faithful g i" "\<And>i. sound g i" using inv by auto
      have p: "pool_inv inv pages p (accept pl (gw_pool g) (acc g))" "part_inv pages p (accept pl (gw_pool g) (acc g))"
        using temp.pool_inv_step [OF _ _ sm pi pl(1)] temp.part_inv_step [OF _ _ sm pi pa pl(1)] inv by blast+
      then have "pool_inv inv pages (gw_pool g') (acc g')" "part_inv pages (gw_pool g') (acc g')"
        using pool_inv_world part_inv_world [OF p] m(1,2) pl(2) by simp_all
      moreover have "faithful g' i" for i by (rule faithful_step [OF pl(1,3) assms(3) pi fa(1) m(1) pl(2)])
      moreover have "inv (snd (world (gw_pool g)))" using pi by (simp add: pool_inv_def)
      then have "sound g' i" for i using sound_step [OF pl(1) _ _ pa fa(2) m(1) pl(2)] inv by blast
      ultimately show ?thesis by blast
    qed
    ultimately show ?thesis using q m(1) unfolding data_inv_def by auto
  qed
qed

lemma gw_reach_data:
  assumes "gw_reach h (m0, s0) g" "h_sessions h = S" "h_pages h = P" "inv s0" "\<And>rid. pages s0 rid = Map.empty"
  shows "data_inv inv pages g"
  using assms(1)
proof (induction rule: gw_reach.induct)
  case start
  then show ?case using assms(4,5)
    by (simp add: data_inv_def NewHandler_def NewPool_def owned_def counted_def unique_ids_def pool_inv_def part_inv_def faithful_def sound_def)
next
  case (step g l g')
  then show ?case using data_step [OF step(2) _ step(3) assms(2,3)] gw_reach_life [OF step(1)] by blast
qed

end

section \<open>Where the mapped messages come from\<close>

text \<open>The message mapped for a streamed response is a result of its collector.\<close>

definition sourced :: "'s gateway \<Rightarrow> bool" where
  "sourced g \<longleftrightarrow> (\<forall>i a. (i, a) \<in> set (mapped g) \<longrightarrow>
     (\<exists>st. open_reqs g i = Some st \<and> (has_collector st \<longrightarrow> Inr a \<in> fst ` set (results (gw_pool g) i))))"

text \<open>What a step keeps of the requests and of the results.\<close>

definition carried :: "'s gateway \<Rightarrow> 's gateway \<Rightarrow> bool" where
  "carried g g' \<longleftrightarrow>
     (\<forall>i st. open_reqs g i = Some st \<longrightarrow> (\<exists>st'. open_reqs g' i = Some st' \<and> has_collector st' = has_collector st)) \<and>
     (\<forall>i. set (results (gw_pool g) i) \<subseteq> set (results (gw_pool g') i))"

lemma sourced_carried:
  assumes "sourced g" "carried g g'"
    and "\<And>i a. (i, a) \<in> set (mapped g') \<Longrightarrow> (i, a) \<in> set (mapped g) \<or>
      (\<exists>st. open_reqs g' i = Some st \<and> (has_collector st \<longrightarrow> Inr a \<in> fst ` set (results (gw_pool g') i)))"
  shows "sourced g'"
  using assms unfolding sourced_def carried_def by (metis image_mono subsetD)

lemma run_mapped:
  "mapped (run_done h i st g) = mapped g @ map (Pair i) (mapped_now (fst (last (results (gw_pool g) i))))"
  "mapped (run_stream h i t st g) = mapped g @ map (Pair i) (mapped_now (fst (last (results (gw_pool g) i))))"
  "mapped (run_json h i st g) = mapped g @ map (Pair i) (mapped_now (json_assistant st))"
  by (auto simp: run_done_def run_stream_def run_json_def Let_def gw_defs mapped_now_def split: prod.splits sum.splits)

lemma mapped_now_last: "rs \<noteq> [] \<Longrightarrow> a \<in> set (mapped_now (fst (last rs))) \<Longrightarrow> Inr a \<in> fst ` set rs"
  using last_in_set [of rs] by (force simp: mapped_now_def split: sum.splits)

lemma pool_do_results: "pool_do h pl g = Some g' \<Longrightarrow> set (results (gw_pool g) i) \<subseteq> set (results (gw_pool g') i)"
  using results_grow [of "h_pages h" "h_pool h" "h_workers h" pl "gw_pool g" _ i] by (fastforce simp: pool_do_def)

lemma pool_first_results: "pool_first h g g1 \<Longrightarrow> set (results (gw_pool g) i) \<subseteq> set (results (gw_pool g1) i)"
  using pool_do_results unfolding pool_first_def core_def by (metis prod.inject)

lemma finish_collector: "finish st m = (us, st', m') \<Longrightarrow> has_collector st' = has_collector st"
  by (auto simp: finish_def Let_def split: if_splits)

lemma sourced_open:
  assumes "open_step h l st g = Some g'" "open_reqs g (gtarget l) = Some st" "life_of g (gtarget l)" "sourced g"
  shows "sourced g'"
  using assms(1-3)
proof (cases rule: open_step_elim)
  case still
  then show ?thesis using assms(4) by (simp add: sourced_def core_def)
next
  case (json p g0)
  then show ?thesis using assms(2,4)
    by (intro sourced_carried [OF assms(4)]) (auto simp: core_def carried_def set_req_def json_take_def split: option.splits)
next
  case (finish e us st' m')
  have "has_collector st' = has_collector st" using finish_collector [OF finish(1)] by simp
  then show ?thesis using finish(2) assms(2)
    by (intro sourced_carried [OF assms(4)]) (auto simp: carried_def end_body_def gw_defs)
next
  case (pool g1)
  then show ?thesis using pool_first_open [OF pool(1)] pool_first_results [OF pool(1)]
    by (intro sourced_carried [OF assms(4)]) (auto simp: carried_def core_def)
next
  case (run_done g1)
  note o = pool_first_open [OF run_done(1)]
  have "carried g g'" using o assms(2) pool_first_results [OF run_done(1)] run_done(2)
    by (auto simp: carried_def run_done_parts finalizeAtDone_state)
  then show ?thesis
    using o run_done(2,3) by (intro sourced_carried [OF assms(4)]) (auto simp: run_mapped run_done_parts dest: mapped_now_last)
next
  case (run_stream t g1)
  note o = pool_first_open [OF run_stream(1)]
  have "carried g g'" using o assms(2) pool_first_results [OF run_stream(1)] run_stream(2)
    by (auto simp: carried_def run_stream_parts)
  then show ?thesis using o assms(2) run_stream(2,3)
    by (intro sourced_carried [OF assms(4)]) (auto simp: run_mapped run_stream_parts dest: mapped_now_last)
next
  case (run_json g0)
  then show ?thesis using assms(2)
    by (intro sourced_carried [OF assms(4)]) (auto simp: carried_def core_def run_mapped run_json_parts)
qed

lemma sourced_step:
  assumes "gw_step h l g = Some g'" "\<And>i. life_of g i" "sourced g"
  shows "sourced g'"
proof (cases "\<exists>st. open_reqs g (gtarget l) = Some st \<and> open_step h l st g = Some g'")
  case True
  then show ?thesis using sourced_open assms(2,3) by blast
next
  case no: False
  have pool: "sourced g'" if "pool_do h pl g = Some g'" for pl
    using pool_do_results [OF that] pool_do_other(1) [OF that]
    by (intro sourced_carried [OF assms(3)]) (auto simp: carried_def)
  show ?thesis
  proof (cases l)
    case (GRequest i rid fresh r)
    then show ?thesis using assms(1)
      by (intro sourced_carried [OF assms(3)])
        (auto simp: carried_def request_step_def put_world_def split: if_splits prod.splits reply.splits option.splits)
  next
    case (GUpstreamError i)
    then show ?thesis using assms(1) by (intro sourced_carried [OF assms(3)]) (auto simp: carried_def split: if_splits)
  next
    case (GResponse i status ct)
    obtain st where st: "forwarded g i = Some st" "response_step h i status ct st g = Some g'"
      using assms(1) GResponse by (auto split: option.splits)
    have o: "open_reqs g i = None" using assms(2) [of i] st(1) by (auto simp: life_of_def life_def)
    let ?g = "g\<lparr>forwarded := (forwarded g)(i := None)\<rparr>"
    consider t g1 where "pool_do h (LNew i (st_requestID t) True) ?g = Some g1" "g' = set_req i t g1"
      | t where "g' = set_req i t ?g" | "g' = ?g"
      using st(2) by (auto simp: response_step_def Let_def split: prod.splits body_kind.splits option.splits)
    then show ?thesis
    proof cases
      case 1
      then show ?thesis using o pool_do_other(1) [OF 1(1)] pool_do_results [OF 1(1)]
        by (intro sourced_carried [OF assms(3)]) (auto simp: carried_def set_req_def)
    next
      case 2
      then show ?thesis using o by (intro sourced_carried [OF assms(3)]) (auto simp: carried_def set_req_def)
    next
      case 3
      then show ?thesis by (intro sourced_carried [OF assms(3)]) (auto simp: carried_def)
    qed
  qed (use no assms(1) pool in \<open>auto split: option.splits\<close>)
qed

lemma gw_reach_sourced: "gw_reach h w0 g \<Longrightarrow> sourced g"
proof (induction rule: gw_reach.induct)
  case start
  show ?case by (simp add: sourced_def NewHandler_def)
next
  case (step g l g')
  then show ?case using sourced_step gw_reach_life by blast
qed

text \<open>
  The bytes a collector accepts are the bytes of the response, from the first one on, until the
  collector is sealed or fails.
\<close>

definition heard :: "'s gateway \<Rightarrow> nat \<Rightarrow> bool" where
  "heard g i \<longleftrightarrow> (case colls (gw_pool g) i of None \<Rightarrow> acc g i = []
     | Some c \<Rightarrow> prefix (acc g i) (received g i) \<and> (\<not> sealed c \<and> \<not> failed c \<longrightarrow> acc g i = received g i))"

text \<open>A step that reads nothing.\<close>

definition silent :: "'s Handler \<Rightarrow> 's gateway \<Rightarrow> 's gateway \<Rightarrow> bool" where
  "silent h g g' \<longleftrightarrow> received g' = received g \<and> acc g' = acc g \<and>
     (\<exists>p w. gw_pool g' = p\<lparr>world := w\<rparr> \<and> (p = gw_pool g \<or>
        (\<exists>pl. pool_step (h_pages h) (h_pool h) (h_workers h) pl (gw_pool g) = Some p \<and> (\<forall>i q. pl \<noteq> LWrite i q) \<and>
          (\<forall>i rid b. pl = LNew i rid b \<longrightarrow> received g i = []))))"

lemma silent_pool:
  assumes "pool_do h pl g0 = Some g1" "gw_pool g0 = gw_pool g" "acc g0 = acc g" "received g0 = received g"
    and "\<And>i q. pl \<noteq> LWrite i q" "\<And>i rid b. pl = LNew i rid b \<Longrightarrow> received g i = []"
    and "gw_pool g' = (gw_pool g1)\<lparr>world := w\<rparr>" "acc g' = acc g1" "received g' = received g1"
  shows "silent h g g'"
proof -
  have "accept pl s f = f" for s :: "'a pool" and f using assms(5) by (auto simp: accept_def split: label.splits)
  then have "acc g1 = acc g" "received g1 = received g"
    "pool_step (h_pages h) (h_pool h) (h_workers h) pl (gw_pool g) = Some (gw_pool g1)"
    using assms(1-4) by (auto simp: pool_do_def)
  then show ?thesis using assms(5-9) unfolding silent_def by metis
qed

lemma silent_still: "gw_pool g' = (gw_pool g)\<lparr>world := w\<rparr> \<Longrightarrow> acc g' = acc g \<Longrightarrow> received g' = received g \<Longrightarrow> silent h g g'"
  unfolding silent_def by metis

lemma run_received [simp]:
  "received (run_done h i st g) = received g" "received (run_stream h i t st g) = received g" "received (run_json h i st g) = received g"
  "received (end_body i res g) = received g"
  by (auto simp: run_done_def run_stream_def run_json_def end_body_def Let_def gw_defs split: prod.splits sum.splits)

lemma silent_end_body: "silent h g (end_body i res g)"
proof (cases res)
  case (fields us st m)
  then show ?thesis by (intro silent_still [where w = "(m, snd (world (gw_pool g)))"]) (simp_all add: end_body_parts)
qed

lemma silent_heard:
  assumes "silent h g g'" "owned (gw_pool g)" "heard g i"
  shows "heard g' i"
proof -
  obtain p w where p: "received g' = received g" "acc g' = acc g" "gw_pool g' = p\<lparr>world := w\<rparr>"
    "p = gw_pool g \<or> (\<exists>pl. pool_step (h_pages h) (h_pool h) (h_workers h) pl (gw_pool g) = Some p \<and>
        (\<forall>i rid b. pl = LNew i rid b \<longrightarrow> received g i = []))"
    using assms(1) unfolding silent_def by blast
  show ?thesis
  proof (cases "p = gw_pool g")
    case True
    then show ?thesis using assms(3) p by (simp add: heard_def split: option.splits)
  next
    case False
    then obtain pl where pl: "pool_step (h_pages h) (h_pool h) (h_workers h) pl (gw_pool g) = Some p"
      "\<forall>i rid b. pl = LNew i rid b \<longrightarrow> received g i = []" using p(4) by blast
    show ?thesis
    proof (cases "colls (gw_pool g) i")
      case None
      then have "colls p i \<noteq> None \<Longrightarrow> received g i = []" using pool_step_new [OF pl(1) assms(2) None] pl(2) by blast
      then show ?thesis using assms(3) None p by (auto simp: heard_def split: option.splits)
    next
      case (Some c)
      from pool_step_view [OF pl(1) assms(2) Some] show ?thesis using assms(3) Some p by (auto simp: heard_def)
    qed
  qed
qed

lemma heard_read:
  assumes "read_step h i p st g = Some g'" "heard g i" "life_of g i" "open_reqs g i = Some st"
  shows "heard g' i"
proof (cases "has_collector st")
  case False
  then have "colls (gw_pool g) i = None" using assms(3,4) by (auto simp: life_of_def life_def)
  then show ?thesis using assms(1,2) False by (auto simp: read_step_def Let_def set_req_def heard_def)
next
  case hc: True
  show ?thesis
  proof (cases "p = []")
    case True
    then show ?thesis using assms(1,2) hc by (auto simp: read_step_def Let_def heard_def)
  next
    case False
    let ?g = "g\<lparr>received := (received g)(i := received g i @ p)\<rparr>"
    obtain s' where s': "pool_step (h_pages h) (h_pool h) (h_workers h) (LWrite i p) (gw_pool g) = Some s'"
      "g' = ?g\<lparr>gw_pool := s', acc := accept (LWrite i p) (gw_pool g) (acc g)\<rparr>"
      using assms(1) hc False by (auto simp: read_step_def Let_def pool_do_def simp del: pool_step.simps)
    from s'(1) show ?thesis
    proof (rule step_Write)
      fix c c' q' fired
      assume w: "colls (gw_pool g) i = Some c" "Write_begin (h_pool h) i p c (queue (gw_pool g)) = (fired, c', q')"
        "s' = (gw_pool g)\<lparr>queue := q', colls := (colls (gw_pool g))(i \<mapsto> c'),
           phases := (phases (gw_pool g))(i := if fired then InCallback else phases (gw_pool g) i)\<rparr>"
      have "sealed c \<or> failed c \<Longrightarrow> c' = c" using w(2) by (cases rule: Write_begin_cases; simp)
      then show ?thesis using assms(2) w(1,3) s'(2)
        by (cases "sealed c \<or> failed c") (auto simp: heard_def accept_def intro: prefix_order.order_trans)
    qed
  qed
qed

lemma silent_open:
  assumes "open_step h l st g = Some g'" "\<And>i p. l \<noteq> GRead i p"
  shows "silent h g g'"
proof (cases l)
  case (GEof i)
  then show ?thesis using assms(1) by (auto simp: silent_end_body split: if_splits)
next
  case (GClose i)
  then show ?thesis using assms(1) by (auto simp: silent_end_body split: if_splits)
next
  case (GDone i)
  obtain g1 where d: "pool_do h (LFinBegin i) g = Some g1"
    and g': "g' = (if phases (gw_pool g1) i = Ended then run_done h i st g1 else g1)"
    using assms(1) GDone by (cases "phases (gw_pool g) i = InCallback") auto
  show ?thesis
  proof (cases "phases (gw_pool g1) i = Ended")
    case True
    with g' show ?thesis by (intro silent_pool [OF d]) (simp_all add: run_done_parts)
  next
    case False
    with g' show ?thesis by (intro silent_pool [OF d, where w = "world (gw_pool g1)"]) simp_all
  qed
next
  case (GDoneEnd i)
  obtain g1 where d: "pool_do h (LFinEnd i) g = Some g1" and g': "g' = run_done h i st g1"
    using assms(1) GDoneEnd by (cases "phases (gw_pool g) i = Waiting True") auto
  then show ?thesis by (intro silent_pool [OF d]) (simp_all add: run_done_parts)
next
  case (GTask i t)
  then have "task_step h i t st g = Some g'" using assms(1) by (auto split: if_splits)
  then show ?thesis
  proof (cases rule: task_step_cases)
    case 1
    then show ?thesis by (intro silent_still) (simp_all add: run_json_parts)
  next
    case 2
    then show ?thesis by (intro silent_still [where w = "world (gw_pool g)"]) simp_all
  next
    case (3 g1)
    then show ?thesis by (intro silent_pool [OF 3(1)]) (simp_all add: run_stream_parts)
  next
    case (4 g1)
    then show ?thesis by (intro silent_pool [OF 4(1), where w = "world (gw_pool g1)"]) simp_all
  qed
next
  case (GTaskEnd i t)
  let ?g = "g\<lparr>running := remove1 (i, t) (running g)\<rparr>"
  obtain g1 where d: "pool_do h (LFinEnd i) ?g = Some g1" and g': "g' = run_stream h i t st g1"
    using assms(1) GTaskEnd by (auto split: if_splits)
  then show ?thesis by (intro silent_pool [OF d]) (simp_all add: run_stream_parts)
qed (use assms in auto)

lemma silent_step:
  assumes "gw_step h l g = Some g'" "\<And>i. life_of g i" "\<And>i p. l \<noteq> GRead i p"
  shows "silent h g g'"
proof (cases "\<exists>st. open_reqs g (gtarget l) = Some st \<and> open_step h l st g = Some g'")
  case True
  then show ?thesis using silent_open assms(3) by blast
next
  case no: False
  have pool: "silent h g g'" if "pool_do h pl g = Some g'" "pl = LTake \<or> (\<exists>k. pl = LPut k)" for pl
    using that(2) by (intro silent_pool [OF that(1), where w = "world (gw_pool g')"]) auto
  show ?thesis
  proof (cases l)
    case (GRequest i rid fresh r)
    obtain rep w where sv: "ServeHTTP (h_sessions h) (h_cfg h) rid fresh r (world (gw_pool g)) = (rep, w)"
      by (cases "ServeHTTP (h_sessions h) (h_cfg h) rid fresh r (world (gw_pool g))")
    have "gw_pool g' = (gw_pool g)\<lparr>world := w\<rparr> \<and> acc g' = acc g \<and> received g' = received g"
      using assms(1) GRequest sv by (auto simp: request_step_def put_world_def split: if_splits reply.splits option.splits)
    then show ?thesis by (intro silent_still) auto
  next
    case (GUpstreamError i)
    then show ?thesis using assms(1) by (intro silent_still [where w = "world (gw_pool g)"]) (auto split: if_splits)
  next
    case (GResponse i status ct)
    obtain st where st: "forwarded g i = Some st" "response_step h i status ct st g = Some g'"
      using assms(1) GResponse by (auto split: option.splits)
    have o: "received g i = []" using assms(2) [of i] st(1) by (auto simp: life_of_def life_def split: option.splits)
    let ?g = "g\<lparr>forwarded := (forwarded g)(i := None)\<rparr>"
    consider t g1 where "pool_do h (LNew i (st_requestID t) True) ?g = Some g1" "g' = set_req i t g1"
      | t where "g' = set_req i t ?g" | "g' = ?g"
      using st(2) by (auto simp: response_step_def Let_def split: prod.splits body_kind.splits option.splits)
    then show ?thesis
    proof cases
      case 1
      then show ?thesis using o
        by (intro silent_pool [OF 1(1), where w = "world (gw_pool g1)"]) (auto simp: set_req_def)
    qed (auto simp: set_req_def intro: silent_still [where w = "world (gw_pool g)"])
  qed (use no assms(1,3) pool in \<open>auto split: option.splits\<close>)
qed

lemma heard_step:
  assumes "gw_step h l g = Some g'" "owned (gw_pool g)" "\<And>i. life_of g i" "\<And>i. heard g i"
  shows "heard g' i"
proof (cases "\<exists>k p. l = GRead k p")
  case False
  then show ?thesis using silent_heard silent_step assms by blast
next
  case True
  then obtain k p where l: "l = GRead k p" by blast
  obtain st where st: "open_reqs g k = Some st" "read_step h k p st g = Some g'"
    using assms(1) l by (auto split: option.splits if_splits)
  show ?thesis
  proof (cases "i = k")
    case True
    then show ?thesis using heard_read [OF st(2) assms(4,3) st(1)] by simp
  next
    case False
    from st(2) have "received g' i = received g i \<and> acc g' i = acc g i \<and> colls (gw_pool g') i = colls (gw_pool g) i"
    proof (cases rule: read_step_cases)
      case 2
      then obtain s' where "pool_step (h_pages h) (h_pool h) (h_workers h) (LWrite k p) (gw_pool g) = Some s'"
        "g' = g\<lparr>received := (received g)(k := received g k @ p), gw_pool := s', acc := accept (LWrite k p) (gw_pool g) (acc g)\<rparr>"
        by (auto simp: pool_do_def simp del: pool_step.simps)
      then show ?thesis using False
        by (auto simp: write_step_def pool_defs accept_def split: option.splits if_splits prod.splits)
    qed (use False in \<open>simp_all add: set_req_def\<close>)
    then show ?thesis using assms(4) [of i] by (simp add: heard_def split: option.splits)
  qed
qed

lemma gw_reach_heard: "gw_reach h w0 g \<Longrightarrow> heard g i"
proof (induction arbitrary: i rule: gw_reach.induct)
  case start
  show ?case by (simp add: heard_def NewHandler_def NewPool_def)
next
  case (step g l g')
  then show ?case using heard_step gw_reach_life by blast
qed

section \<open>Page numbers stay small\<close>

context gateway_store
begin

lemma gw_run_seq:
  assumes "gw_run h ls g = Some g'" "gw_reach h w0 g" "h_sessions h = S" "seq_le k (gw_pool g)"
  shows "seq_le (k + length ls) (gw_pool g')"
  using assms(1,2,4)
proof (induction ls arbitrary: g k)
  case (Cons l ls)
  then obtain g1 where g1: "gw_step h l g = Some g1" "gw_run h ls g1 = Some g'" by (auto split: option.splits)
  have inv: "owned (gw_pool g)" "\<And>i. life_of g i" using gw_reach_life [OF Cons.prems(2)] by auto
  obtain p w where "gw_pool g1 = p\<lparr>world := w\<rparr>"
    "p = gw_pool g \<or> (\<exists>pl. pool_step (h_pages h) (h_pool h) (h_workers h) pl (gw_pool g) = Some p)"
    using moved_step [OF g1(1) inv(2) assms(3)] unfolding moved_def by blast
  then have "seq_le (Suc k) (gw_pool g1)"
    using pool_step_seq [OF _ inv(1) Cons.prems(3)] Cons.prems(3) by (auto simp: seq_le_def intro: le_SucI)
  from Cons.IH [OF g1(2) gw_reach.step [OF Cons.prems(2) g1(1)] this] show ?case by simp
qed simp

end

section \<open>Example runs\<close>

definition demo_handler :: "mem_db Handler" where
  "demo_handler =
     \<lparr>h_sessions = redis_sessions mem_redis, h_pages = redis_pages mem_redis, h_cfg = Default,
      h_pool = \<lparr>PageSize = 64, TTL = 60, MaxPendingPages = 4\<rparr>, h_workers = 1\<rparr>"

definition demo_db :: mem_db where
  "demo_db = \<lparr>db_strs = [], db_hashes = [], db_faults = []\<rparr>"

definition demo_request :: Request where
  "demo_request =
     \<lparr>Method = ''POST'', Path = ''/chat/completions'', Header = [], Body = ''{\"messages\":[1]}'', BodyError = False, ContentLength = 16, GetBody = None\<rparr>"

definition demo_forwarded :: "bytes \<Rightarrow> mem_db gateway" where
  "demo_forwarded ch =
     (NewHandler (count_request ''chat'' New, demo_db))
       \<lparr>forwarded := [0 \<mapsto> (new_reqState ''r'')\<lparr>canonMsgs := [''1''], clientHash := ch, sessionID := ''u'', participate := True\<rparr>]\<rparr>"

lemma demo_request_step:
  assumes "MaxRequestBody (h_cfg h) = MaxRequestBody Default"
  shows "gw_step h (GRequest 0 ''r'' ''u'' demo_request) (NewHandler (New, demo_db)) = Some (demo_forwarded (clientIdentity []))"
proof -
  have b: "fst (readBody demo_request (MaxRequestBody (h_cfg h))) = Some (Body demo_request, False)"
    unfolding assms by (simp add: readBody_ok Default_def demo_request_def)
  have ms: "ParseChatRequest (Body demo_request) = Some [''1'']" "map Canonicalize [''1''] = map Inr [''1'']"
    by code_simp+
  then have "seq_results (map Canonicalize [''1'']) = Inr [''1'']" by (simp only: seq_results_Inr_iff)
  with b ms(1) show ?thesis
    by (simp add: request_step_def ServeHTTP_unfold is_chat_def HasSuffix_def prepare_def Resolve_def Let_def
        demo_forwarded_def NewHandler_def NewPool_def put_world_def Header_Get_def new_reqState_def)
      (simp_all add: demo_request_def HasSuffix_def)
qed

lemmas demo_handler_request = demo_request_step [where h = demo_handler, unfolded demo_handler_def Handler.simps, OF refl, folded demo_handler_def]

definition demo_json_steps :: "glabel list" where
  "demo_json_steps =
     [GRequest 0 ''r'' ''u'' demo_request, GResponse 0 200 ''application/json'',
      GRead 0 (''{\"choices\":[{\"message\":'' @ echo_message ''A'' @ ''}]}''), GEof 0, GTask 0 FinalizeJSON]"

definition demo_stream_steps :: "glabel list" where
  "demo_stream_steps =
     [GRequest 0 ''r'' ''u'' demo_request, GResponse 0 200 ''text/event-stream'', GRead 0 (text_stream [''A'', ''B'']),
      GDone 0, GTake, GPut 0, GDoneEnd 0]"

lemma demo_json:
  "case gw_run demo_handler (take 3 (tl demo_json_steps)) (demo_forwarded ch) of
     None \<Rightarrow> False
   | Some g \<Rightarrow> tasks g = [(0, FinalizeJSON)] \<and> mapped g = [] \<and>
      (case open_reqs g 0 of None \<Rightarrow> False | Some st \<Rightarrow> \<not> has_collector st \<and> json_assistant st = Inr (echo_canonical ''A''))"
  by code_simp

lemma demo_stream:
  "case gw_run demo_handler (take 5 (tl demo_stream_steps)) (demo_forwarded ch) of
     None \<Rightarrow> False
   | Some g \<Rightarrow> phases (gw_pool g) 0 = Waiting True \<and> (case open_reqs g 0 of None \<Rightarrow> False | Some st \<Rightarrow> \<not> earlyFinalized st) \<and>
      (case pool_do demo_handler (LFinEnd 0) g of None \<Rightarrow> False
       | Some g' \<Rightarrow> map fst (results (gw_pool g') 0) = [Inr (echo_canonical ''AB'')] \<and>
           mapped g' = [] \<and> (case colls (gw_pool g') 0 of None \<Rightarrow> False | Some c \<Rightarrow> \<not> failed c \<and> seq c = 1))"
  by code_simp

lemma gw_run_append: "gw_run h (ls @ ks) g = (case gw_run h ls g of None \<Rightarrow> None | Some g' \<Rightarrow> gw_run h ks g')"
  by (induction ls arbitrary: g) (auto split: option.splits)

lemma demo_json_run:
  "\<exists>g st. gw_run demo_handler demo_json_steps (NewHandler (New, demo_db)) = Some g \<and> mapped g = [(0, echo_canonical ''A'')] \<and>
    open_reqs g 0 = Some st \<and> \<not> has_collector st"
proof -
  have steps: "demo_json_steps = GRequest 0 ''r'' ''u'' demo_request # take 3 (tl demo_json_steps) @ [GTask 0 FinalizeJSON]"
    by (simp add: demo_json_steps_def)
  obtain g st where g: "gw_run demo_handler (take 3 (tl demo_json_steps)) (demo_forwarded (clientIdentity [])) = Some g"
    "tasks g = [(0, FinalizeJSON)]" "mapped g = []" "open_reqs g 0 = Some st" "json_assistant st = Inr (echo_canonical ''A'')"
    "\<not> has_collector st"
    using demo_json [of "clientIdentity []"] by (auto split: option.splits)
  then show ?thesis
    by (subst steps) (simp add: gw_run_append demo_handler_request task_step_def Let_def run_json_def log_map_def put_world_def del: gw_step.simps(1))
qed

lemma demo_stream_run:
  "\<exists>g col stats. gw_run demo_handler demo_stream_steps (NewHandler (New, demo_db)) = Some g \<and> colls (gw_pool g) 0 = Some col \<and>
    \<not> failed col \<and> results (gw_pool g) 0 = [(Inr (echo_canonical ''AB''), stats)] \<and> mapped g = [(0, echo_canonical ''AB'')]"
proof -
  have steps: "demo_stream_steps = GRequest 0 ''r'' ''u'' demo_request # take 5 (tl demo_stream_steps) @ [GDoneEnd 0]"
    by (simp add: demo_stream_steps_def)
  obtain g st g' c stats where g: "gw_run demo_handler (take 5 (tl demo_stream_steps)) (demo_forwarded (clientIdentity [])) = Some g"
    "phases (gw_pool g) 0 = Waiting True" "open_reqs g 0 = Some st" "pool_do demo_handler (LFinEnd 0) g = Some g'"
    "results (gw_pool g') 0 = [(Inr (echo_canonical ''AB''), stats)]" "colls (gw_pool g') 0 = Some c" "\<not> failed c" "mapped g' = []"
    using demo_stream [of "clientIdentity []"] by (auto split: option.splits)
  then show ?thesis
    by (subst steps) (simp add: gw_run_append demo_handler_request run_done_parts run_mapped mapped_now_def del: gw_step.simps(1))
qed

lemma demo_small:
  assumes "gw_run demo_handler ls (NewHandler (New, demo_db)) = Some g" "length ls < 2 ^ 63"
  shows "small (gw_pool g)"
proof -
  have h: "h_sessions demo_handler = redis_sessions mem_redis" by (simp add: demo_handler_def)
  have "seq_le 0 (gw_pool (NewHandler (New, demo_db)))" by (simp add: seq_le_def NewHandler_def NewPool_def)
  from gateway_store.gw_run_seq [OF mem.redis_gateway_store assms(1) gw_reach.start h this]
  show ?thesis by (rule seq_le_small) (use assms(2) in simp)
qed

lemma demo_store:
  "h_sessions demo_handler = redis_sessions mem_redis" "h_pages demo_handler = redis_pages mem_redis"
  "page_fields mem_hashes demo_db" "db_pages mem_hashes demo_db rid = Map.empty"
  by (simp_all add: demo_handler_def page_fields_def db_pages_def mem_hashes_def db_hash_def demo_db_def fun_eq_iff)

section \<open>Properties\<close>

text \<open>
  C3. At most one mapping per response: in every reachable state of the gateway, whatever the
  interleaving of reads, the call-back at [DONE], closes, detached goroutines and workers, and
  whatever the store answers, a request's assistant message was given to \<open>putMapping\<close> at
  most once.
\<close>

theorem mapped_at_most_once:
  assumes "gw_reach h w0 g"
  shows "length (filter (\<lambda>x. fst x = i) (mapped g)) \<le> 1"
proof -
  have "life_of g i" using gw_reach_life [OF assms] by blast
  then have "length (mine i (mapped g)) \<le> 1" by (auto simp: life_of_def life_def split: option.splits)
  then show ?thesis by (simp add: mine_def)
qed

theorem mapped_at_most_once_witness:
  "\<exists>g. gw_run demo_handler demo_json_steps (NewHandler (New, demo_db)) = Some g \<and>
    mapped g = [(0, echo_canonical ''A'')] \<and> length (filter (\<lambda>x. fst x = 0) (mapped g)) \<le> 1"
proof -
  obtain g where g: "gw_run demo_handler demo_json_steps (NewHandler (New, demo_db)) = Some g" "mapped g = [(0, echo_canonical ''A'')]"
    using demo_json_run by blast
  show ?thesis using g mapped_at_most_once [OF gw_reach_run [OF gw_reach.start g(1)], of 0] by blast
qed

text \<open>
  C4. A mapping is written only for a complete response. For a streamed response the message was extracted
  from a payload in which the [DONE] sentinel occurs; the payload is exactly the bytes the
  collector accepted when no page failed and \<open>Finalize\<close> ran once, and otherwise (a page was lost during the wait, or a
  second \<open>Finalize\<close>) a subsequence of them; and the accepted bytes are the bytes of the response from
  its first one on. For a JSON response it is the message of the whole body the upstream sent, read
  to its end and never truncated. (Over Redis; fewer than \<open>2 ^ 63\<close> pages.)
\<close>

theorem mapped_complete_response:
  assumes "redis_client c strs hashes" "page_fields hashes s0" "\<And>rid. db_pages hashes s0 rid = Map.empty"
    and "h_sessions h = redis_sessions c" "h_pages h = redis_pages c" "gw_reach h (m0, s0) g" "small (gw_pool g)"
    and "(i, a) \<in> set (mapped g)"
  shows "\<exists>st. open_reqs g i = Some st \<and>
    (if has_collector st then \<exists>col payload. colls (gw_pool g) i = Some col \<and>
        prefix (acc g i) (received g i) \<and> subseq payload (acc g i) \<and>
        (\<not> failed col \<and> length (results (gw_pool g) i) = 1 \<longrightarrow> payload = acc g i) \<and>
        list_ex is_done (events payload) \<and> AssistantFromSSE payload = (True, Inr a)
     else eof st \<and> (\<exists>msg. ParseCompletionResponse (received g i) = Inr msg \<and> AssistantFromMessage msg = Inr a))"
proof -
  have l: "life_of g i" using gw_reach_life [OF assms(6)] by blast
  have "data_inv (page_fields hashes) (db_pages hashes) g"
    by (rule gateway_store.gw_reach_data [OF redis_client.redis_gateway_store [OF assms(1)] assms(6,4,5,2,3)])
  then have d: "faithful g i" "sound g i" using assms(7) by (simp_all add: data_inv_def)
  obtain st where st: "open_reqs g i = Some st" "has_collector st \<longrightarrow> Inr a \<in> fst ` set (results (gw_pool g) i)"
    using gw_reach_sourced [OF assms(6)] assms(8) unfolding sourced_def by blast
  show ?thesis
  proof (cases "has_collector st")
    case False
    have "a \<in> set (mine i (mapped g))" using assms(8) by (simp add: mine_member)
    then show ?thesis using l st(1) False by (auto simp: life_of_def life_def split: option.splits)
  next
    case True
    then have r: "Inr a \<in> fst ` set (results (gw_pool g) i)" using st(2) by blast
    obtain col where col: "colls (gw_pool g) i = Some col" using l st(1) True by (auto simp: life_of_def life_def)
    have pre: "prefix (acc g i) (received g i)" using gw_reach_heard [OF assms(6), of i] col by (simp add: heard_def)
    have "\<exists>payload. subseq payload (acc g i) \<and> extract_assistant payload = Inr a \<and>
        (\<not> failed col \<and> length (results (gw_pool g) i) = 1 \<longrightarrow> payload = acc g i)"
    proof (cases "\<not> failed col \<and> length (results (gw_pool g) i) = 1")
      case True
      then obtain x where "results (gw_pool g) i = [x]" "fst x = Inr a" using r by (auto simp: length_Suc_conv)
      then have "extract_assistant (acc g i) = Inr a" using d(1) col True by (auto simp: faithful_def)
      then show ?thesis by blast
    next
      case False
      then show ?thesis using d(2) r unfolding sound_def by blast
    qed
    then show ?thesis using st(1) True col pre extract_complete by fastforce
  qed
qed

theorem mapped_complete_response_witness:
  "(\<exists>g. gw_run demo_handler demo_stream_steps (NewHandler (New, demo_db)) = Some g \<and>
      list_ex is_done (events (acc g 0)) \<and> AssistantFromSSE (acc g 0) = (True, Inr (echo_canonical ''AB'')) \<and>
      prefix (acc g 0) (received g 0)) \<and>
   (\<exists>g st msg. gw_run demo_handler demo_json_steps (NewHandler (New, demo_db)) = Some g \<and> open_reqs g 0 = Some st \<and> eof st \<and>
      ParseCompletionResponse (received g 0) = Inr msg \<and> AssistantFromMessage msg = Inr (echo_canonical ''A''))"
proof
  note complete = mapped_complete_response [OF mem.redis_client_axioms demo_store(3,4,1,2) gw_reach_run [OF gw_reach.start]]
  obtain g col stats where g: "gw_run demo_handler demo_stream_steps (NewHandler (New, demo_db)) = Some g"
    "colls (gw_pool g) 0 = Some col" "\<not> failed col" "results (gw_pool g) 0 = [(Inr (echo_canonical ''AB''), stats)]"
    "mapped g = [(0, echo_canonical ''AB'')]"
    using demo_stream_run by blast
  have "life_of g 0" using gw_reach_life [OF gw_reach_run [OF gw_reach.start g(1)]] by blast
  then have hc: "has_collector st" if "open_reqs g 0 = Some st" for st using that g(2) by (auto simp: life_of_def life_def)
  have "small (gw_pool g)" using g(1) by (rule demo_small) (simp add: demo_stream_steps_def)
  from complete [OF g(1) this, of 0 "echo_canonical ''AB''"]
  show "\<exists>g. gw_run demo_handler demo_stream_steps (NewHandler (New, demo_db)) = Some g \<and>
      list_ex is_done (events (acc g 0)) \<and> AssistantFromSSE (acc g 0) = (True, Inr (echo_canonical ''AB'')) \<and>
      prefix (acc g 0) (received g 0)"
    using g hc by (fastforce split: if_splits)
  obtain g st where g: "gw_run demo_handler demo_json_steps (NewHandler (New, demo_db)) = Some g" "mapped g = [(0, echo_canonical ''A'')]"
    "open_reqs g 0 = Some st" "\<not> has_collector st"
    using demo_json_run by blast
  have "small (gw_pool g)" using g(1) by (rule demo_small) (simp add: demo_json_steps_def)
  from complete [OF g(1) this, of 0 "echo_canonical ''A''"]
  show "\<exists>g st msg. gw_run demo_handler demo_json_steps (NewHandler (New, demo_db)) = Some g \<and> open_reqs g 0 = Some st \<and> eof st \<and>
      ParseCompletionResponse (received g 0) = Inr msg \<and> AssistantFromMessage msg = Inr (echo_canonical ''A'')"
    using g by (fastforce split: if_splits)
qed

text \<open>
  C2. End to end, the mapped message is the one the client saw: over the Redis store, when a
  response was finalized once and none of its pages failed, the message is the
  assistant message of exactly the bytes its collector accepted, however many pages were spilled and
  whatever other requests and the session mappings did to the database meanwhile.
\<close>

theorem finalized_message_faithful:
  assumes "redis_client c strs hashes" "page_fields hashes s0" "\<And>rid. db_pages hashes s0 rid = Map.empty"
    and "h_sessions h = redis_sessions c" "h_pages h = redis_pages c" "gw_reach h (m0, s0) g" "small (gw_pool g)"
    and "colls (gw_pool g) i = Some col" "\<not> failed col" "results (gw_pool g) i = [(Inr a, stats)]"
  shows "AssistantFromSSE (acc g i) = (True, Inr a)"
proof -
  have "data_inv (page_fields hashes) (db_pages hashes) g"
    by (rule gateway_store.gw_reach_data [OF redis_client.redis_gateway_store [OF assms(1)] assms(6,4,5,2,3)])
  then have "faithful g i" using assms(7) by (simp add: data_inv_def)
  then have "extract_assistant (acc g i) = Inr a" using assms(8-10) by (auto simp: faithful_def)
  then show ?thesis using extract_complete by blast
qed

theorem finalized_message_faithful_witness:
  "\<exists>g. gw_run demo_handler demo_stream_steps (NewHandler (New, demo_db)) = Some g \<and>
    AssistantFromSSE (acc g 0) = (True, Inr (echo_canonical ''AB''))"
proof -
  obtain g col stats where g: "gw_run demo_handler demo_stream_steps (NewHandler (New, demo_db)) = Some g"
    "colls (gw_pool g) 0 = Some col" "\<not> failed col" "results (gw_pool g) 0 = [(Inr (echo_canonical ''AB''), stats)]"
    using demo_stream_run by blast
  have reach: "gw_reach demo_handler (New, demo_db) g" by (rule gw_reach_run [OF gw_reach.start g(1)])
  have "small (gw_pool g)" using g(1) by (rule demo_small) (simp add: demo_stream_steps_def)
  then show ?thesis
    using g(1) finalized_message_faithful [OF mem.redis_client_axioms demo_store(3,4,1,2) reach _ g(2-4)] by blast
qed

end
