(* ===== verification/Service.thy ===== *)
theory Service
  imports Gateway
begin

text \<open>
  The process around the handler: the life of the worker pool (\<open>Start\<close>, \<open>worker\<close> with its
  cancellation, \<open>Stop\<close> and the test of \<open>Drain\<close> in collector.go) and \<open>cmd/ocgate/main.go\<close>: the log
  level, the routing of the mux, the pool configuration, and the order of start and shutdown. Time
  does not pass in the model: whether a bounded wait ended in time is an argument.
\<close>

section \<open>The life of the worker pool\<close>

text \<open>
  \<open>live\<close> counts the workers that have not exited (the wait group \<open>wg\<close>), \<open>cancelled\<close> is the cancelled
  context. A worker that holds a job finishes it; at the top of its loop \<open>select\<close> may choose a job
  or, once the context is cancelled, the exit.
\<close>

record 's service =
  sv_pool :: "'s pool"
  live :: nat
  cancelled :: bool

definition Start :: "nat \<Rightarrow> 's service \<Rightarrow> 's service" where
  "Start workers s = s\<lparr>live := live s + workers\<rparr>"

definition cancel :: "'s service \<Rightarrow> 's service" where
  "cancel s = s\<lparr>cancelled := True\<rparr>"

datatype slabel = STake | SPut nat | SExit

definition worker_step :: "'s TempPageStore \<Rightarrow> PoolConfig \<Rightarrow> slabel \<Rightarrow> 's service \<Rightarrow> 's service option" where
  "worker_step P cfg l s =
     (case l of
        STake \<Rightarrow> map_option (\<lambda>p. s\<lparr>sv_pool := p\<rparr>) (pool_step P cfg (live s) LTake (sv_pool s))
      | SPut k \<Rightarrow> map_option (\<lambda>p. s\<lparr>sv_pool := p\<rparr>) (pool_step P cfg (live s) (LPut k) (sv_pool s))
      | SExit \<Rightarrow> if cancelled s \<and> length (taken (sv_pool s)) < live s then Some (s\<lparr>live := live s - 1\<rparr>) else None)"

fun worker_run :: "'s TempPageStore \<Rightarrow> PoolConfig \<Rightarrow> slabel list \<Rightarrow> 's service \<Rightarrow> 's service option" where
  "worker_run P cfg [] s = Some s"
| "worker_run P cfg (l # ls) s = (case worker_step P cfg l s of None \<Rightarrow> None | Some s' \<Rightarrow> worker_run P cfg ls s')"

text \<open>The loop of \<open>Drain\<close> ends early when the queue is empty; \<open>Stop\<close> returns when no worker is left.\<close>

definition Drain_done :: "'s service \<Rightarrow> bool" where
  "Drain_done s \<longleftrightarrow> queue (sv_pool s) = []"

definition Stop_done :: "'s service \<Rightarrow> bool" where
  "Stop_done s \<longleftrightarrow> cancelled s \<and> live s = 0"

text \<open>No worker holds more than one job.\<close>

definition staffed :: "'s service \<Rightarrow> bool" where
  "staffed s \<longleftrightarrow> length (taken (sv_pool s)) \<le> live s \<and> owned (sv_pool s) \<and> counted (sv_pool s)"

lemma worker_step_staffed:
  assumes "worker_step P cfg l s = Some s'" "staffed s"
  shows "staffed s' \<and> cancelled s' = cancelled s \<and> (queue (sv_pool s) = [] \<longrightarrow> queue (sv_pool s') = [])"
proof (cases l)
  case STake
  then obtain p where p: "pool_step P cfg (live s) LTake (sv_pool s) = Some p" "s' = s\<lparr>sv_pool := p\<rparr>"
    using assms(1) by (auto simp: worker_step_def)
  have "owned p" "counted p" using owned_step [OF _ p(1)] counted_step [OF _ _ p(1)] assms(2) by (auto simp: staffed_def)
  with p show ?thesis using assms(2) by (auto simp: staffed_def split: list.splits if_splits)
next
  case (SPut k)
  then obtain p where p: "pool_step P cfg (live s) (LPut k) (sv_pool s) = Some p" "s' = s\<lparr>sv_pool := p\<rparr>"
    using assms(1) by (auto simp: worker_step_def)
  have o: "owned p" "counted p" using owned_step [OF _ p(1)] counted_step [OF _ _ p(1)] assms(2) by (auto simp: staffed_def)
  have "owned (sv_pool s)" using assms(2) by (simp add: staffed_def)
  with p(1) have "length (taken p) \<le> length (taken (sv_pool s)) \<and> queue p = queue (sv_pool s)"
    by (rule step_Put) auto
  with o p(2) show ?thesis using assms(2) by (auto simp: staffed_def)
next
  case SExit
  then show ?thesis using assms by (auto simp: worker_step_def staffed_def split: if_splits)
qed

lemma worker_run_staffed:
  "worker_run P cfg ls s = Some s' \<Longrightarrow> staffed s \<Longrightarrow>
    staffed s' \<and> cancelled s' = cancelled s \<and> (queue (sv_pool s) = [] \<longrightarrow> queue (sv_pool s') = [])"
proof (induction ls arbitrary: s)
  case (Cons l ls)
  then obtain s1 where s1: "worker_step P cfg l s = Some s1" "worker_run P cfg ls s1 = Some s'" by (auto split: option.splits)
  from worker_step_staffed [OF s1(1) Cons.prems(2)] Cons.IH [OF s1(2)] show ?case by auto
qed simp

lemma worker_run_append:
  "worker_run P cfg (ls @ ks) s = (case worker_run P cfg ls s of None \<Rightarrow> None | Some s' \<Rightarrow> worker_run P cfg ks s')"
  by (induction ls arbitrary: s) (auto split: option.splits)

text \<open>
  What the pool still has to do: a queued job costs two steps, a job in a worker's hands one, and each
  worker has to exit.
\<close>

definition load :: "'s service \<Rightarrow> nat" where
  "load s = 2 * length (queue (sv_pool s)) + length (taken (sv_pool s)) + live s"

lemma worker_step_load:
  assumes "worker_step P cfg l s = Some s'" "staffed s"
  shows "load s' < load s"
proof (cases l)
  case (SPut k)
  then obtain p where p: "pool_step P cfg (live s) (LPut k) (sv_pool s) = Some p" "s' = s\<lparr>sv_pool := p\<rparr>"
    using assms(1) by (auto simp: worker_step_def)
  have "owned (sv_pool s)" using assms(2) by (simp add: staffed_def)
  with p(1) have "length (taken p) < length (taken (sv_pool s)) \<and> queue p = queue (sv_pool s)" by (rule step_Put) auto
  with p(2) show ?thesis by (simp add: load_def)
qed (use assms in \<open>auto simp: worker_step_def load_def split: list.splits if_splits\<close>)

lemma worker_run_load:
  "worker_run P cfg ls s = Some s' \<Longrightarrow> staffed s \<Longrightarrow> length ls + load s' \<le> load s"
proof (induction ls arbitrary: s)
  case (Cons l ls)
  then obtain s1 where s1: "worker_step P cfg l s = Some s1" "worker_run P cfg ls s1 = Some s'" by (auto split: option.splits)
  from Cons.IH [OF s1(2)] worker_step_staffed [OF s1(1) Cons.prems(2)] worker_step_load [OF s1(1) Cons.prems(2)] show ?case by simp
qed simp

lemma worker_progress:
  assumes "staffed s" "cancelled s"
  shows "Stop_done s \<or> (\<exists>l s'. worker_step P cfg l s = Some s')"
proof (cases "taken (sv_pool s) = []")
  case True
  then show ?thesis using assms(2) by (cases "live s = 0") (auto simp: Stop_done_def worker_step_def intro!: exI [of _ SExit])
next
  case False
  then show ?thesis by (intro disjI2 exI [of _ "SPut 0"]) (simp add: worker_step_def)
qed

lemma staffed_flushed:
  assumes "staffed s" "live s = 0" "queue (sv_pool s) = []" "colls (sv_pool s) i = Some c"
  shows "inflight c = 0"
  using assms by (auto simp: staffed_def counted_def)

section \<open>The process\<close>

datatype level = LevelDebug | LevelInfo | LevelWarn | LevelError

definition buildLogger :: "bytes \<Rightarrow> level" where
  "buildLogger l =
     (if l = ''debug'' then LevelDebug else if l = ''warn'' then LevelWarn else if l = ''error'' then LevelError else LevelInfo)"

text \<open>
  The configuration of the pool. A Go \<open>int\<close> has 64 bits here, as on the 64-bit builds, so the conversion of
  \<open>page_size\<close> is the identity; a 32-bit build would truncate it.
\<close>

definition pool_config :: "Config \<Rightarrow> PoolConfig" where
  "pool_config cfg =
     \<lparr>PageSize = nat (rc_PageSize (cfg_ResponseCache cfg)), TTL = rc_TTL (cfg_ResponseCache cfg),
      MaxPendingPages = nat (rc_MaxPendingPages (cfg_ResponseCache cfg))\<rparr>"

text \<open>The store \<open>main\<close> makes from the configuration.\<close>

definition redis_of :: "(redis_Options \<Rightarrow> 'd redis) \<Rightarrow> Config \<Rightarrow> 'd RedisStore" where
  "redis_of NewClient cfg = NewRedisStore NewClient (Addr (cfg_Redis cfg)) (DB (cfg_Redis cfg)) (Timeout (cfg_Redis cfg))"

text \<open>One Redis store serves as session store and as page store.\<close>

definition gateway_of :: "'d redis \<Rightarrow> Config \<Rightarrow> 'd Handler" where
  "gateway_of c cfg =
     \<lparr>h_sessions = redis_sessions c, h_pages = redis_pages c, h_cfg = cfg, h_pool = pool_config cfg,
      h_workers = nat (Workers (cfg_ResponseCache cfg))\<rparr>"

text \<open>
  The mux. \<open>http.ServeMux\<close> answers a request whose escaped path is not in its shortest form with a
  redirect; otherwise the two fixed patterns match a path whose only segment decodes to their name,
  and every other path goes to the handler. Requests in origin form only: the path begins with a
  slash and the method is not CONNECT.
\<close>

fun split_slash :: "bytes \<Rightarrow> bytes list" where
  "split_slash [] = [[]]"
| "split_slash (c # s) =
     (if c = CHR ''/'' then [] # split_slash s else (case split_slash s of [] \<Rightarrow> [[c]] | seg # segs \<Rightarrow> (c # seg) # segs))"

fun clean_segments :: "bytes list \<Rightarrow> bytes list \<Rightarrow> bytes list" where
  "clean_segments kept [] = rev kept"
| "clean_segments kept (seg # segs) =
     (if seg = [] \<or> seg = ''.'' then clean_segments kept segs
      else if seg = ''..'' then clean_segments (drop 1 kept) segs
      else clean_segments (seg # kept) segs)"

definition join_segments :: "bytes list \<Rightarrow> bytes" where
  "join_segments segs = (if segs = [] then ''/'' else concat (map (Cons (CHR ''/'')) segs))"

definition cleanPath :: "bytes \<Rightarrow> bytes" where
  "cleanPath p =
     (let np = join_segments (clean_segments [] (split_slash p))
      in if p \<noteq> [] \<and> last p = CHR ''/'' \<and> np \<noteq> ''/'' then np @ ''/'' else np)"

definition unhex :: "byte \<Rightarrow> nat option" where
  "unhex c =
     (let n = of_char c in
      if 48 \<le> n \<and> n \<le> 57 then Some (n - 48) else if 97 \<le> n \<and> n \<le> 102 then Some (n - 87)
      else if 65 \<le> n \<and> n \<le> 70 then Some (n - 55) else None)"

fun PathUnescape :: "bytes \<Rightarrow> bytes option" where
  "PathUnescape [] = Some []"
| "PathUnescape (c # s) =
     (if c \<noteq> CHR ''%'' then map_option (Cons c) (PathUnescape s)
      else (case s of
         a # b # t \<Rightarrow>
           (case (unhex a, unhex b) of
              (Some x, Some y) \<Rightarrow> map_option (Cons (char_of (16 * x + y))) (PathUnescape t)
            | _ \<Rightarrow> None)
       | _ \<Rightarrow> None))"

datatype route = ToRedirect | ToMetrics | ToHealthz | ToHandler

definition mux_route :: "bytes \<Rightarrow> route" where
  "mux_route p =
     (if cleanPath p \<noteq> p then ToRedirect
      else (let seg = drop 1 p; name = (case PathUnescape seg of None \<Rightarrow> seg | Some u \<Rightarrow> u) in
        if CHR ''/'' \<in> set seg then ToHandler
        else if name = ''metrics'' then ToMetrics
        else if name = ''healthz'' then ToHealthz
        else ToHandler))"

text \<open>The answer of the handler for \<open>/healthz\<close>.\<close>

definition healthz :: http_reply where
  "healthz = \<lparr>rp_Status = 200, rp_ContentType = ''text/plain'', rp_Body = ''ok'' @ [nl]\<rparr>"

text \<open>
  \<open>main\<close> as the calls it makes, in order, and its exit code. The arguments are what the outside
  world does: the flag, the file read, \<open>url.Parse\<close>, the YAML decoder, the Redis client with the state
  of its server, how serving ended, and whether \<open>Shutdown\<close> ended in time.
\<close>

datatype served = ServerClosed | ServerError | Signalled

datatype action = PrintVersion | PrintConfigError config_error | SetLogger level | WarnTTL | WarnRedis
  | StartWorkers int | LogInvalidUpstream | ListenAndServe bytes | LogServerError | LogDraining | Shutdown int
  | WarnShutdown | Drain int | WaitFinalize int | StopPool | CloseRedis | LogComplete

definition shutdown_actions :: "bool \<Rightarrow> action list" where
  "shutdown_actions shutdownOk =
     [LogDraining, Shutdown (30 * Second)] @ (if shutdownOk then [] else [WarnShutdown]) @
     [Drain (10 * Second), WaitFinalize (30 * Second), StopPool, CloseRedis, LogComplete]"

definition serve_actions :: "served \<Rightarrow> bool \<Rightarrow> action list \<times> int" where
  "serve_actions out shutdownOk =
     (case out of ServerClosed \<Rightarrow> ([], 0) | ServerError \<Rightarrow> ([LogServerError], 1)
      | Signalled \<Rightarrow> (shutdown_actions shutdownOk, 0))"

definition main ::
  "bool \<Rightarrow> (bytes \<Rightarrow> (bytes \<times> bytes) option) \<Rightarrow> (bytes \<Rightarrow> Config \<Rightarrow> Config option) \<Rightarrow> bytes option
    \<Rightarrow> (redis_Options \<Rightarrow> 'd redis) \<Rightarrow> 'd \<Rightarrow> served \<Rightarrow> bool \<Rightarrow> action list \<times> int" where
  "main showVersion parse decode file NewClient d out shutdownOk =
     (if showVersion then ([PrintVersion], 0)
      else (case Load parse decode file of
         Inl e \<Rightarrow> ([PrintConfigError e], 1)
       | Inr cfg \<Rightarrow>
          (let rs = redis_of NewClient cfg;
               start =
             [SetLogger (buildLogger (Level cfg))] @
             (if rc_TTL (cfg_ResponseCache cfg) \<ge> Session_TTL cfg then [WarnTTL] else []) @
             (if isl (fst (Ping rs d)) then [WarnRedis] else []) @
             [StartWorkers (Workers (cfg_ResponseCache cfg))]
           in case parse (BaseURL cfg) of
                None \<Rightarrow> (start @ [LogInvalidUpstream], 1)
              | Some u \<Rightarrow> (case serve_actions out shutdownOk of (as, code) \<Rightarrow> (start @ [ListenAndServe (Listen cfg)] @ as, code)))))"

text \<open>
  The process exits with code 1 exactly when it was asked to serve and the configuration was
  rejected or the server failed; in particular the check of the upstream URL in \<open>main\<close> never
  fails, a shutdown by signal always ends with code 0, even when requests were cut off, and a Redis
  server that does not answer the ping costs a warning only.
\<close>

lemma main_exit_code:
  "snd (main showVersion parse decode file NewClient d out shutdownOk) =
     (if \<not> showVersion \<and> (isl (Load parse decode file) \<or> out = ServerError) then 1 else 0)"
proof (cases "Load parse decode file")
  case (Inr cfg)
  then obtain u where "parse (BaseURL cfg) = Some u" using Load_accepts [OF Inr] by (auto simp: Validate_accepts)
  with Inr show ?thesis by (auto simp: main_def serve_actions_def Let_def split: served.splits)
qed (simp add: main_def)

section \<open>The pool of a running gateway\<close>

text \<open>The pool's own invariants need nothing of the store, so the weakest contract serves.\<close>

lemma any_gateway_store: "gateway_store S (\<lambda>_ _. None) (\<lambda>_. False) P (\<lambda>_. False) (\<lambda>_ _ _. None)"
  by unfold_locales simp_all

lemma gw_reach_pool:
  assumes "gw_reach h w0 g" "0 < PageSize (h_pool h)"
  shows "counted (gw_pool g) \<and> bounded (h_pool h) (h_workers h) (gw_pool g)"
  using assms(1)
proof (induction rule: gw_reach.induct)
  case start
  show ?case by (simp add: counted_def bounded_def NewHandler_def NewPool_def)
next
  case (step g l g')
  note life = gw_reach_life [OF step(1)]
  have "moved (\<lambda>_. False) (\<lambda>_ (_ :: bytes) (_ :: int). None :: bytes option) h g g'"
    by (rule gateway_store.moved_step [OF any_gateway_store step.hyps(2)]) (use life in simp_all)
  then obtain p w where p: "gw_pool g' = p\<lparr>world := w\<rparr>"
    "p = gw_pool g \<or> (\<exists>pl. pool_step (h_pages h) (h_pool h) (h_workers h) pl (gw_pool g) = Some p)"
    unfolding moved_def by blast
  have "counted p \<and> bounded (h_pool h) (h_workers h) p"
    using p(2) step.IH counted_step bounded_step [OF _ _ _ assms(2)] life by blast
  then show ?case by (simp add: p(1) counted_def bounded_def)
qed

lemma accepted_pool_config:
  assumes "Load parse decode file = Inr cfg"
  shows "0 < PageSize (pool_config cfg)" "int (PageSize (pool_config cfg)) = rc_PageSize (cfg_ResponseCache cfg)"
    "int (MaxPendingPages (pool_config cfg)) = rc_MaxPendingPages (cfg_ResponseCache cfg)"
    "int (nat (Workers (cfg_ResponseCache cfg))) = Workers (cfg_ResponseCache cfg)"
  using Load_accepts [OF assms] by (auto simp: Validate_accepts pool_config_def)

lemma accepted_gateway_bounded:
  assumes "Load parse decode file = Inr cfg" "gw_reach (gateway_of c cfg) w0 g"
  shows "counted (gw_pool g) \<and> bounded (pool_config cfg) (nat (Workers (cfg_ResponseCache cfg))) (gw_pool g)"
  using gw_reach_pool [OF assms(2)] accepted_pool_config(1) [OF assms(1)] by (simp add: gateway_of_def)

text \<open>
  The wait for the detached goroutines (\<open>WaitFinalize\<close>): the wait group counts those that were
  started. The steps that go on without any call from outside are those of the workers and of
  these goroutines.
\<close>

definition WaitFinalize_done :: "'s gateway \<Rightarrow> bool" where
  "WaitFinalize_done g \<longleftrightarrow> tasks g = [] \<and> running g = []"

fun background :: "glabel \<Rightarrow> bool" where
  "background (GTask i t) = True"
| "background (GTaskEnd i t) = True"
| "background GTake = True"
| "background (GPut k) = True"
| "background l = False"

definition backlog :: "'s gateway \<Rightarrow> nat" where
  "backlog g = 2 * length (queue (gw_pool g)) + length (taken (gw_pool g)) + 2 * length (tasks g) + length (running g)"

lemma fin_keeps:
  assumes "pool_do h l g = Some g'" "l = LFinBegin i \<or> l = LFinEnd i"
  shows "queue (gw_pool g') = queue (gw_pool g) \<and> taken (gw_pool g') = taken (gw_pool g) \<and> tasks g' = tasks g \<and> running g' = running g"
proof -
  obtain p where p: "pool_step (h_pages h) (h_pool h) (h_workers h) l (gw_pool g) = Some p" "gw_pool g' = p"
    using assms(1) by (auto simp: pool_do_def)
  from assms(2) have "queue p = queue (gw_pool g) \<and> taken p = taken (gw_pool g)"
  proof
    assume l: "l = LFinBegin i"
    from p(1) [unfolded l] show ?thesis by (rule step_FinBegin) simp_all
  next
    assume l: "l = LFinEnd i"
    from p(1) [unfolded l] show ?thesis by (rule step_FinEnd) simp_all
  qed
  then show ?thesis using p(2) pool_do_other(1) [OF assms(1)] by simp
qed

lemma length_remove1_less: "x \<in> set xs \<Longrightarrow> length xs = Suc (length (remove1 x xs))"
  by (induction xs) auto

lemma background_backlog:
  assumes "gw_step h l g = Some g'" "background l" "owned (gw_pool g)"
  shows "backlog g' < backlog g"
proof (cases l)
  case GTake
  with assms(1) have "pool_do h LTake g = Some g'" by simp
  then obtain p where "pool_step (h_pages h) (h_pool h) (h_workers h) LTake (gw_pool g) = Some p" "gw_pool g' = p"
    by (auto simp: pool_do_def)
  then have "2 * length (queue (gw_pool g')) + length (taken (gw_pool g')) < 2 * length (queue (gw_pool g)) + length (taken (gw_pool g))"
    by (auto elim!: step_Take simp del: pool_step.simps)
  then show ?thesis using pool_do_other(1) [OF \<open>pool_do h LTake g = Some g'\<close>] by (simp add: backlog_def)
next
  case (GPut k)
  with assms(1) have d: "pool_do h (LPut k) g = Some g'" by simp
  then obtain p where p: "pool_step (h_pages h) (h_pool h) (h_workers h) (LPut k) (gw_pool g) = Some p" "gw_pool g' = p"
    by (auto simp: pool_do_def)
  from p(1) assms(3) have "length (taken p) < length (taken (gw_pool g)) \<and> queue p = queue (gw_pool g)" by (rule step_Put) auto
  then show ?thesis using pool_do_other(1) [OF d] p(2) by (simp add: backlog_def)
next
  case (GTask i t)
  then obtain st where st: "(i, t) \<in> set (tasks g)" "task_step h i t st g = Some g'"
    using assms(1) by (auto split: option.splits if_splits)
  let ?g = "g\<lparr>tasks := remove1 (i, t) (tasks g)\<rparr>"
  have "queue (gw_pool g') = queue (gw_pool g) \<and> taken (gw_pool g') = taken (gw_pool g) \<and> tasks g' = remove1 (i, t) (tasks g) \<and>
      length (running g') \<le> Suc (length (running g))"
    using st(2) fin_keeps [of h "LFinBegin i" ?g]
    by (auto simp: task_step_def Let_def run_stream_parts run_json_parts split: if_splits)
  then show ?thesis using length_remove1_less [OF st(1)] by (simp add: backlog_def)
next
  case (GTaskEnd i t)
  let ?g = "g\<lparr>running := remove1 (i, t) (running g)\<rparr>"
  from GTaskEnd obtain st g1 where st: "(i, t) \<in> set (running g)" "pool_do h (LFinEnd i) ?g = Some g1" "g' = run_stream h i t st g1"
    using assms(1) by (auto split: option.splits if_splits)
  then show ?thesis using fin_keeps [OF st(2)] length_remove1_less [OF st(1)] by (simp add: backlog_def run_stream_parts)
qed (use assms(2) in simp_all)

text \<open>As long as a goroutine is pending, a worker or a goroutine can go on.\<close>

lemma background_progress:
  assumes "gw_reach h w0 g" "counted (gw_pool g)" "0 < h_workers h" "\<not> WaitFinalize_done g"
  shows "\<exists>l g'. background l \<and> gw_step h l g = Some g'"
proof -
  consider "taken (gw_pool g) \<noteq> []" | "taken (gw_pool g) = []" "queue (gw_pool g) \<noteq> []" | "jobs (gw_pool g) = []"
    by auto
  then show ?thesis
  proof cases
    case 1
    then show ?thesis by (intro exI [of _ "GPut 0"]) (simp add: pool_do_def)
  next
    case 2
    then show ?thesis using assms(3) by (intro exI [of _ GTake]) (auto simp: pool_do_def neq_Nil_conv)
  next
    case 3
    have life: "life_of g i" for i using gw_reach_life [OF assms(1)] by blast
    have still: "inflight c = 0" if "colls (gw_pool g) i = Some c" for i c
      using 3 assms(2) that by (auto simp: counted_def)
    obtain i t where "(i, t) \<in> set (running g) \<or> (i, t) \<in> set (tasks g)"
      using assms(4) by (force simp: WaitFinalize_done_def neq_Nil_conv)
    then have m: "t \<in> set (mine i (running g)) \<or> t \<in> set (mine i (tasks g))" by (simp add: mine_member)
    have "open_reqs g i \<noteq> None" using life [of i] m by (auto simp: life_of_def life_def split: option.splits)
    then obtain st where st: "open_reqs g i = Some st" by auto
    note v = life [of i, unfolded life_of_def st]
    have coll: "has_collector st \<Longrightarrow> \<exists>c. colls (gw_pool g) i = Some c" using life_collector [OF v] by auto
    from m show ?thesis
    proof
      assume r: "t \<in> set (mine i (running g))"
      then have "phases (gw_pool g) i = Waiting False" "has_collector st" using v by (auto simp: life_def)
      then show ?thesis using r st still coll
        by (intro exI [of _ "GTaskEnd i t"]) (auto simp: mine_member pool_do_def)
    next
      assume k: "t \<in> set (mine i (tasks g))"
      then have "mine i (tasks g) \<noteq> []" by auto
      moreover have "length (mine i (tasks g)) + length (mine i (running g)) \<le> 1" using v by (simp add: life_def)
      ultimately have r: "mine i (running g) = []" by (cases "mine i (tasks g)") auto
      have f: "finished st" "\<not> earlyFinalized st" "t = FinalizeJSON \<or> has_collector st"
        and ph: "\<not> in_callback (phases (gw_pool g) i)" "mine i (running g) \<noteq> [] \<longleftrightarrow> phases (gw_pool g) i = Waiting False"
        using k v by (auto simp: life_def)
      have "\<not> is_waiting (phases (gw_pool g) i)"
      proof (cases "phases (gw_pool g) i")
        case (Waiting cb)
        with ph r show ?thesis by (cases cb) (auto simp: in_callback_def)
      qed simp_all
      then show ?thesis using k st f coll
        by (intro exI [of _ "GTask i t"]) (auto simp: mine_member task_step_def pool_do_def Let_def)
    qed
  qed
qed

lemma background_run:
  "gw_run h ls g = Some g' \<Longrightarrow> list_all background ls \<Longrightarrow> gw_reach h w0 g \<Longrightarrow> length ls + backlog g' \<le> backlog g"
proof (induction ls arbitrary: g)
  case (Cons l ls)
  then obtain g1 where g1: "gw_step h l g = Some g1" "gw_run h ls g1 = Some g'" by (auto split: option.splits)
  have "backlog g1 < backlog g"
    by (rule background_backlog [OF g1(1)]) (use Cons.prems gw_reach_life [OF Cons.prems(3)] in simp_all)
  moreover have "length ls + backlog g' \<le> backlog g1"
    by (rule Cons.IH [OF g1(2)]) (use Cons.prems gw_reach.step [OF _ g1(1)] in auto)
  ultimately show ?case by simp
qed simp

section \<open>Properties\<close>

text \<open>
  C9. \<open>Stop\<close> returns. Take the pool of a gateway whose configuration was accepted, in any state
  the gateway can reach, and cancel its workers: every further run of the workers is no longer than
  twice the queue plus the jobs in hand plus the number of workers, and it can be continued until no
  worker is left. If \<open>Drain\<close> had emptied the queue, then no page write is outstanding at that point.
\<close>

theorem Stop_returns:
  assumes "Load parse decode file = Inr cfg" "gw_reach (gateway_of c cfg) w0 g"
    and "s = Start (nat (Workers (cfg_ResponseCache cfg))) \<lparr>sv_pool = gw_pool g, live = 0, cancelled = False\<rparr>"
    and "worker_run (redis_pages c) (pool_config cfg) ls (cancel s) = Some s'"
  shows "length ls \<le> 2 * length (queue (gw_pool g)) + length (taken (gw_pool g)) + nat (Workers (cfg_ResponseCache cfg)) \<and>
    (Stop_done s' \<or> (\<exists>l s''. worker_step (redis_pages c) (pool_config cfg) l s' = Some s'')) \<and>
    (Stop_done s' \<and> Drain_done s \<and> colls (sv_pool s') i = Some col \<longrightarrow> inflight col = 0)"
proof -
  have s: "staffed (cancel s)"
    using accepted_gateway_bounded [OF assms(1,2)] gw_reach_life [OF assms(2)]
    by (simp add: assms(3) staffed_def cancel_def Start_def bounded_def)
  have "load (cancel s) = 2 * length (queue (gw_pool g)) + length (taken (gw_pool g)) + nat (Workers (cfg_ResponseCache cfg))"
    by (simp add: load_def assms(3) cancel_def Start_def)
  moreover have "queue (sv_pool (cancel s)) = queue (sv_pool s)" "cancelled (cancel s)" by (simp_all add: cancel_def)
  ultimately show ?thesis
    using worker_run_load [OF assms(4) s] worker_run_staffed [OF assms(4) s] worker_progress [of s'] staffed_flushed [of s' i col]
    by (auto simp: Stop_done_def Drain_done_def)
qed

definition demo_config :: Config where
  "demo_config = Default\<lparr>BaseURL := ''http://u'', cfg_ResponseCache := (cfg_ResponseCache Default)\<lparr>rc_PageSize := 64, Workers := 1\<rparr>\<rparr>"

lemma demo_load: "Load (\<lambda>_. Some (''http'', ''u'')) (\<lambda>raw cfg. Some demo_config) (Some []) = Inr demo_config"
  by code_simp

lemma demo_config_request:
  "gw_step (gateway_of mem_redis demo_config) (GRequest 0 ''r'' ''u'' demo_request) (NewHandler (New, demo_db)) =
    Some (demo_forwarded (clientIdentity []))"
  by (rule demo_request_step) (simp add: gateway_of_def demo_config_def)

text \<open>A stream of two pages whose first page is with the worker when the shutdown begins.\<close>

definition demo_prefix :: "glabel list" where
  "demo_prefix = [GRequest 0 ''r'' ''u'' demo_request, GResponse 0 200 ''text/event-stream'', GRead 0 (text_stream [''A'', ''B'']), GTake]"

lemma demo_prefix_steps:
  "case gw_run (gateway_of mem_redis demo_config) (tl demo_prefix) (demo_forwarded ch) of
     None \<Rightarrow> False
   | Some g \<Rightarrow> queue (gw_pool g) = [] \<and> length (taken (gw_pool g)) = 1 \<and> (case colls (gw_pool g) 0 of None \<Rightarrow> False | Some col \<Rightarrow> seq col = 1) \<and>
      (case worker_run (redis_pages mem_redis) (pool_config demo_config) [SPut 0, SExit]
          (cancel (Start 1 \<lparr>sv_pool = gw_pool g, live = 0, cancelled = False\<rparr>)) of
         None \<Rightarrow> False
       | Some s' \<Rightarrow> (case colls (sv_pool s') 0 of None \<Rightarrow> False | Some col \<Rightarrow> seq col = 1))"
  by code_simp

lemma demo_prefix_run:
  "\<exists>g s' col0 col. gw_run (gateway_of mem_redis demo_config) demo_prefix (NewHandler (New, demo_db)) = Some g \<and>
    queue (gw_pool g) = [] \<and> length (taken (gw_pool g)) = 1 \<and> colls (gw_pool g) 0 = Some col0 \<and>
    worker_run (redis_pages mem_redis) (pool_config demo_config) [SPut 0, SExit]
      (cancel (Start 1 \<lparr>sv_pool = gw_pool g, live = 0, cancelled = False\<rparr>)) = Some s' \<and> colls (sv_pool s') 0 = Some col"
proof -
  have steps: "demo_prefix = GRequest 0 ''r'' ''u'' demo_request # tl demo_prefix" by (simp add: demo_prefix_def)
  have "gw_run (gateway_of mem_redis demo_config) demo_prefix (NewHandler (New, demo_db)) =
      gw_run (gateway_of mem_redis demo_config) (tl demo_prefix) (demo_forwarded (clientIdentity []))"
    by (subst steps) (simp only: gw_run.simps demo_config_request option.case)
  then show ?thesis using demo_prefix_steps [of "clientIdentity []"] by (auto split: option.splits)
qed

theorem Stop_returns_witness:
  "\<exists>g s' col. gw_run (gateway_of mem_redis demo_config) demo_prefix (NewHandler (New, demo_db)) = Some g \<and>
    length [SPut 0, SExit] \<le> 2 * length (queue (gw_pool g)) + length (taken (gw_pool g)) + 1 \<and>
    worker_run (redis_pages mem_redis) (pool_config demo_config) [SPut 0, SExit]
      (cancel (Start 1 \<lparr>sv_pool = gw_pool g, live = 0, cancelled = False\<rparr>)) = Some s' \<and>
    Stop_done s' \<and> colls (sv_pool s') 0 = Some col \<and> inflight col = 0"
proof -
  obtain g s' col where g: "gw_run (gateway_of mem_redis demo_config) demo_prefix (NewHandler (New, demo_db)) = Some g"
    "queue (gw_pool g) = []"
    and s': "worker_run (redis_pages mem_redis) (pool_config demo_config) [SPut 0, SExit]
      (cancel (Start 1 \<lparr>sv_pool = gw_pool g, live = 0, cancelled = False\<rparr>)) = Some s'" "colls (sv_pool s') 0 = Some col"
    using demo_prefix_run by blast
  have w: "nat (Workers (cfg_ResponseCache demo_config)) = 1" by (simp add: demo_config_def)
  have "Stop_done s'" using s'(1)
    by (auto simp: Stop_done_def worker_step_def cancel_def Start_def split: option.splits if_splits)
  with Stop_returns [OF demo_load gw_reach_run [OF gw_reach.start g(1)] refl, unfolded w, OF s'(1), of 0 col] g s' show ?thesis
    by (auto simp: Drain_done_def Start_def)
qed

text \<open>
  C19. \<open>WaitFinalize\<close> returns without its timeout: in any state the gateway can reach, however the
  workers and the detached goroutines are scheduled and whatever the store answers, they make only
  boundedly many steps on their own, and they are never stuck before every goroutine
  has ended.
\<close>

theorem WaitFinalize_returns:
  assumes "Load parse decode file = Inr cfg" "gw_reach (gateway_of c cfg) w0 g"
    and "list_all background ls" "gw_run (gateway_of c cfg) ls g = Some g'"
  shows "length ls \<le> 2 * length (queue (gw_pool g)) + length (taken (gw_pool g)) + 2 * length (tasks g) + length (running g) \<and>
    (WaitFinalize_done g' \<or> (\<exists>l g''. background l \<and> gw_step (gateway_of c cfg) l g' = Some g''))"
proof -
  have r: "gw_reach (gateway_of c cfg) w0 g'" by (rule gw_reach_run [OF assms(2,4)])
  have "0 < h_workers (gateway_of c cfg)" using Load_accepts [OF assms(1)] by (auto simp: Validate_accepts gateway_of_def)
  with background_progress [OF r] accepted_gateway_bounded [OF assms(1) r]
  have "WaitFinalize_done g' \<or> (\<exists>l g''. background l \<and> gw_step (gateway_of c cfg) l g' = Some g'')" by blast
  moreover have "length ls \<le> backlog g" using background_run [OF assms(4,3,2)] by simp
  ultimately show ?thesis by (simp add: backlog_def)
qed

text \<open>A stream closed before [DONE], with its page still in the queue: the goroutine waits for the worker.\<close>

definition demo_close :: "glabel list" where
  "demo_close =
     [GRequest 0 ''r'' ''u'' demo_request, GResponse 0 200 ''text/event-stream'',
      GRead 0 (encode_event [text_chunk ''A''] @ encode_event [text_chunk ''B'']), GClose 0]"

definition demo_background :: "glabel list" where
  "demo_background = [GTask 0 FinalizeStreamOnClose, GTake, GPut 0, GTaskEnd 0 FinalizeStreamOnClose]"

lemma demo_close_steps:
  "case gw_run (gateway_of mem_redis demo_config) (tl demo_close) (demo_forwarded ch) of
     None \<Rightarrow> False
   | Some g \<Rightarrow> length (queue (gw_pool g)) = 1 \<and> taken (gw_pool g) = [] \<and> length (tasks g) = 1 \<and> running g = [] \<and>
      (case gw_run (gateway_of mem_redis demo_config) demo_background g of None \<Rightarrow> False | Some g' \<Rightarrow> tasks g' = [] \<and> running g' = [])"
  by code_simp

theorem WaitFinalize_returns_witness:
  "\<exists>g g'. gw_run (gateway_of mem_redis demo_config) demo_close (NewHandler (New, demo_db)) = Some g \<and> \<not> WaitFinalize_done g \<and>
    gw_run (gateway_of mem_redis demo_config) demo_background g = Some g' \<and> WaitFinalize_done g' \<and>
    length demo_background \<le> 2 * length (queue (gw_pool g)) + length (taken (gw_pool g)) + 2 * length (tasks g) + length (running g)"
proof -
  have steps: "demo_close = GRequest 0 ''r'' ''u'' demo_request # tl demo_close" by (simp add: demo_close_def)
  have "gw_run (gateway_of mem_redis demo_config) demo_close (NewHandler (New, demo_db)) =
      gw_run (gateway_of mem_redis demo_config) (tl demo_close) (demo_forwarded (clientIdentity []))"
    by (subst steps) (simp only: gw_run.simps demo_config_request option.case)
  then obtain g g' where g: "gw_run (gateway_of mem_redis demo_config) demo_close (NewHandler (New, demo_db)) = Some g"
    "length (tasks g) = 1" and g': "gw_run (gateway_of mem_redis demo_config) demo_background g = Some g'" "WaitFinalize_done g'"
    using demo_close_steps [of "clientIdentity []"] by (auto simp: WaitFinalize_done_def split: option.splits)
  have "\<not> WaitFinalize_done g" using g(2) by (auto simp: WaitFinalize_done_def)
  moreover have "list_all background demo_background" by (simp add: demo_background_def)
  ultimately show ?thesis
    using g(1) g' WaitFinalize_returns [OF demo_load gw_reach_run [OF gw_reach.start g(1)] _ g'(1)] by blast
qed

end
