(* ===== verification/Provenance.thy ===== *)
theory Provenance
  imports Gateway
begin

text \<open>
  Where session mappings come from. Every entry of the mapping was written by \<open>putMapping\<close> for a
  request the gateway served, under that request's client and the conversation it completed; so a
  session is never resolved for another client or another conversation. The argument uses the
  contract \<open>shared_store\<close> only and is applied to Redis at the end.
\<close>

section \<open>Tracing a step\<close>

text \<open>What identifies a request for good once it has been prepared.\<close>

definition ident :: "reqState \<Rightarrow> bytes \<times> bytes \<times> bytes list" where
  "ident st = (clientHash st, sessionID st, canonMsgs st)"

text \<open>Entry \<open>(ch, h)\<close> with session \<open>sid\<close> was written for some request and its mapped message.\<close>

definition vouched :: "'s gateway \<Rightarrow> bytes \<Rightarrow> bytes \<Rightarrow> bytes \<Rightarrow> bool" where
  "vouched g ch h sid \<longleftrightarrow>
     (\<exists>i st a. (i, a) \<in> set (mapped g) \<and> open_reqs g i = Some st \<and> clientHash st = ch \<and> sessionID st = sid \<and>
        h = HashBytes (FullState (canonMsgs st) a))"

definition later :: "'s gateway \<Rightarrow> 's gateway \<Rightarrow> bool" where
  "later g g' \<longleftrightarrow> set (mapped g) \<subseteq> set (mapped g') \<and>
     (\<forall>i st. open_reqs g i = Some st \<longrightarrow> (\<exists>st'. open_reqs g' i = Some st' \<and> ident st' = ident st))"

lemma later_refl [simp]: "mapped g' = mapped g \<Longrightarrow> open_reqs g' = open_reqs g \<Longrightarrow> later g g'"
  by (simp add: later_def)

lemma later_trans: "later g g1 \<Longrightarrow> later g1 g2 \<Longrightarrow> later g g2"
  unfolding later_def by (metis subset_trans)

lemma vouched_later: "vouched g ch h sid \<Longrightarrow> later g g' \<Longrightarrow> vouched g' ch h sid"
  unfolding vouched_def later_def ident_def by (metis prod.inject subsetD)

lemma later_set_req:
  assumes "open_reqs g i = None \<or> map_option ident (open_reqs g i) = Some (ident st)" "mapped g' = mapped g"
    and "open_reqs g' = (open_reqs g)(i \<mapsto> st)"
  shows "later g g'"
  using assms by (auto simp: later_def)

text \<open>Every entry after a step was there before or is vouched for now.\<close>

definition traced :: "('s \<Rightarrow> bytes \<times> bytes \<Rightarrow> bytes option) \<Rightarrow> (bytes \<Rightarrow> bool) \<Rightarrow> 's gateway \<Rightarrow> 's gateway \<Rightarrow> bool" where
  "traced mp ok g g' \<longleftrightarrow> later g g' \<and>
     (\<forall>ch h sid. ok ch \<longrightarrow> mp (snd (world (gw_pool g'))) (ch, h) = Some sid \<longrightarrow>
        mp (snd (world (gw_pool g))) (ch, h) = Some sid \<or> vouched g' ch h sid)"

lemma traced_trans: "traced mp ok g g1 \<Longrightarrow> traced mp ok g1 g2 \<Longrightarrow> traced mp ok g g2"
  unfolding traced_def by (meson later_trans vouched_later)

lemma traced_same: "later g g' \<Longrightarrow> mp (snd (world (gw_pool g'))) = mp (snd (world (gw_pool g))) \<Longrightarrow> traced mp ok g g'"
  by (simp add: traced_def)

text \<open>A request that is served with a mapping has a legitimate client hash and canonical messages.\<close>

definition sound_req :: "(bytes \<Rightarrow> bool) \<Rightarrow> reqState \<Rightarrow> bool" where
  "sound_req ok st \<longleftrightarrow> ok (clientHash st) \<and> list_all is_canonical (canonMsgs st)"

lemma sound_req_ident: "ident st' = ident st \<Longrightarrow> sound_req ok st' = sound_req ok st"
  by (simp add: sound_req_def ident_def)

definition sound_reqs :: "(bytes \<Rightarrow> bool) \<Rightarrow> 's gateway \<Rightarrow> bool" where
  "sound_reqs ok g \<longleftrightarrow> (\<forall>i st. forwarded g i = Some st \<longrightarrow> participate st \<longrightarrow> sound_req ok st) \<and>
     (\<forall>i st. open_reqs g i = Some st \<longrightarrow> sound_req ok st)"

section \<open>The handler's updates of a request\<close>

lemma ident_updates [simp]:
  "ident (st\<lparr>eof := b\<rparr>) = ident st" "ident (st\<lparr>finished := b\<rparr>) = ident st" "ident (st\<lparr>earlyFinalized := b\<rparr>) = ident st"
  "ident (st\<lparr>has_collector := b\<rparr>) = ident st" "ident (st\<lparr>jsonBuf := buf\<rparr>) = ident st" "ident (st\<lparr>jsonTrunc := b\<rparr>) = ident st"
  by (simp_all add: ident_def)

lemma ident_finish: "finish st m = (us, st', m') \<Longrightarrow> ident st' = ident st"
  by (auto simp: finish_def Let_def split: if_splits)

lemma ident_json_take [simp]: "ident (json_take p st) = ident st"
  by (auto simp: json_take_def split: option.splits)

lemma ident_modifyResponse:
  "modifyResponse status ct (Some st) = (kind, Some t) \<Longrightarrow> kind \<noteq> PlainBody \<Longrightarrow> ident t = ident st \<and> participate st"
  by (auto simp: modifyResponse_def split: if_splits)

lemma ident_finalizeAtDone [simp]: "ident (fst (finalizeAtDone S cfg st out w)) = ident st"
  by (simp add: finalizeAtDone_state)

lemma prepare_sound:
  assumes "prepare S fresh r body st w = ((r', st'), w')" "participate st'" "\<not> participate st" "\<And>hd. ok (clientIdentity hd)"
  shows "sound_req ok st'"
proof -
  obtain msgs where "seq_results (map Canonicalize msgs) = Inr (canonMsgs st')" "clientHash st' = clientIdentity (Header r)"
    using assms(1-3) by (auto simp: prepare_def Let_def split: option.splits if_splits sum.splits prod.splits)
  moreover have "is_canonical c" if "map Canonicalize msgs = map Inr cs" "c \<in> set cs" for cs c
  proof -
    have "Inr c \<in> Canonicalize ` set msgs" using arg_cong [OF that(1), of set] that(2) by simp
    then show ?thesis using Canonicalize_canonical by force
  qed
  ultimately show ?thesis using assms(4) by (simp add: sound_req_def list_all_iff seq_results_Inr_iff)
qed

text \<open>What \<open>putMapping\<close> and the finalize functions may add to the mapping.\<close>

definition adds :: "('s \<Rightarrow> bytes \<times> bytes \<Rightarrow> bytes option) \<Rightarrow> (bytes \<Rightarrow> bool) \<Rightarrow> reqState \<Rightarrow> 'e + bytes \<Rightarrow> Metrics \<times> 's \<Rightarrow> Metrics \<times> 's \<Rightarrow> bool" where
  "adds mp ok st r w w' \<longleftrightarrow> (\<forall>ch h sid. ok ch \<longrightarrow> mp (snd w') (ch, h) = Some sid \<longrightarrow> mp (snd w) (ch, h) = Some sid \<or>
     (\<exists>a. r = Inr a \<and> ch = clientHash st \<and> sid = sessionID st \<and> h = HashBytes (FullState (canonMsgs st) a)))"

lemma adds_same [simp]: "snd w' = snd w \<Longrightarrow> adds mp ok st r w w'"
  by (simp add: adds_def)

text \<open>The handler's code after a \<open>Finalize\<close>: what it writes it also logs.\<close>

lemma traced_log:
  assumes "adds mp ok st r (world (gw_pool g)) (world (gw_pool g'))" "open_reqs g i = Some st"
    and "open_reqs g' i = Some st'" "\<And>j. j \<noteq> i \<Longrightarrow> open_reqs g' j = open_reqs g j" "ident st' = ident st"
    and "mapped g' = mapped g @ map (Pair i) (mapped_now r)"
  shows "traced mp ok g g'"
proof -
  have l: "later g g'" unfolding later_def using assms(2-6) by (metis Un_upper1 option.inject set_append)
  have "vouched g' (clientHash st) (HashBytes (FullState (canonMsgs st) a)) (sessionID st)" if "r = Inr a" for a
    using that assms(3,5,6) unfolding vouched_def ident_def by (intro exI [of _ i] exI [of _ st'] exI [of _ a]) (simp add: mapped_now_def)
  then show ?thesis using l assms(1) unfolding traced_def adds_def by blast
qed

lemma mapped_log_map: "mapped (log_map i r g) = mapped g @ map (Pair i) (mapped_now r)"
  by (auto simp: log_map_def mapped_now_def split: sum.splits)

lemma run_forwarded [simp]:
  "forwarded (run_done h i st g) = forwarded g" "forwarded (run_stream h i t st g) = forwarded g" "forwarded (run_json h i st g) = forwarded g"
  by (auto simp: run_done_def run_stream_def run_json_def Let_def gw_defs split: prod.splits sum.splits)

lemma mapped_runs:
  "mapped (run_done h i st g) = mapped g @ map (Pair i) (mapped_now (fst (last (results (gw_pool g) i))))"
  "mapped (run_stream h i t st g) = mapped g @ map (Pair i) (mapped_now (fst (last (results (gw_pool g) i))))"
  "mapped (run_json h i st g) = mapped g @ map (Pair i) (mapped_now (json_assistant st))"
  by (simp_all add: run_done_def run_stream_def run_json_def Let_def mapped_log_map put_world_def set_req_def split: prod.splits)

text \<open>Requests are opened by responses only.\<close>

lemma open_step_dom:
  assumes "open_step h l st g = Some g'" "open_reqs g (gtarget l) = Some st" "life_of g (gtarget l)"
  shows "dom (open_reqs g') = dom (open_reqs g) \<and> forwarded g' = forwarded g"
  using assms
  by (cases rule: open_step_elim)
    (use assms(2) in \<open>auto simp: core_def set_req_def end_body_def put_world_def parts dest!: pool_first_open\<close>)

lemma gw_step_open:
  assumes "gw_step h l g = Some g'" "\<And>st. open_reqs g (gtarget l) = Some st \<Longrightarrow> open_step h l st g = Some g' \<Longrightarrow> thesis"
    and "\<And>i rid fresh r. l = GRequest i rid fresh r \<Longrightarrow> thesis" "\<And>i status ct. l = GResponse i status ct \<Longrightarrow> thesis"
    and "dom (open_reqs g') = dom (open_reqs g) \<Longrightarrow> (\<And>i st. forwarded g' i = Some st \<Longrightarrow> forwarded g i = Some st) \<Longrightarrow> thesis"
  shows thesis
proof (cases "\<exists>st. open_reqs g (gtarget l) = Some st \<and> open_step h l st g = Some g'")
  case True
  then show thesis using assms(2) by blast
next
  case False
  then have "(\<exists>i rid fresh r. l = GRequest i rid fresh r) \<or> (\<exists>i status ct. l = GResponse i status ct) \<or>
      (dom (open_reqs g') = dom (open_reqs g) \<and> (\<forall>i st. forwarded g' i = Some st \<longrightarrow> forwarded g i = Some st))"
    using assms(1) by (cases l) (auto split: option.splits if_splits dest!: pool_do_other(1))
  then show thesis using assms(3-5) by blast
qed

lemma gw_step_opened:
  assumes "gw_step h l g = Some g'" "open_reqs g i = None" "open_reqs g' i = Some t" "\<And>j. life_of g j"
  shows "\<exists>st. forwarded g i = Some st \<and> participate st \<and> ident t = ident st"
  using assms(1)
proof (rule gw_step_open)
  fix j status ct
  assume l: "l = GResponse j status ct"
  then obtain st where st: "forwarded g j = Some st" "response_step h j status ct st g = Some g'"
    using assms(1) by (auto split: option.splits)
  obtain kind u where mr: "modifyResponse status ct (Some st) = (kind, Some u)" by (fastforce simp: modifyResponse_def)
  show ?thesis using st(2) mr assms(2,3) st(1) ident_modifyResponse [OF mr]
    by (cases kind) (auto simp: response_step_def Let_def set_req_def split: if_splits dest!: pool_do_other(1))
next
  fix j rid fresh r
  assume "l = GRequest j rid fresh r"
  then show ?thesis using assms
    by (auto simp: request_step_def put_world_def split: if_splits reply.splits option.splits prod.splits)
next
  fix st
  assume "open_reqs g (gtarget l) = Some st" "open_step h l st g = Some g'"
  with open_step_dom assms(2-4) show ?thesis by (metis domIff option.distinct(1))
next
  assume "dom (open_reqs g') = dom (open_reqs g)"
  with assms(2,3) show ?thesis by (metis domIff option.distinct(1))
qed

lemma gw_step_forwarded:
  assumes "gw_step h l g = Some g'" "forwarded g' i = Some st" "participate st" "\<And>hd. ok (clientIdentity hd)"
    and "\<And>j. life_of g j"
  shows "forwarded g i = Some st \<or> sound_req ok st"
  using assms(1)
proof (rule gw_step_open)
  fix j rid fresh r
  assume l: "l = GRequest j rid fresh r"
  have "sound_req ok st" if sv: "ServeHTTP (h_sessions h) (h_cfg h) rid fresh r (world (gw_pool g)) = (Proxy r' (Some st), w)" for r' w
  proof -
    obtain m d where w0: "world (gw_pool g) = (m, d)" by (cases "world (gw_pool g)")
    obtain m' d' where w: "w = (m', d')" by (cases w)
    obtain body q where "prepare (h_sessions h) fresh r body (new_reqState rid) (count_request ''chat'' m, d) = ((q, st), m', d')"
      using sv [unfolded w0 w] by (rule ServeHTTP_ProxyD)
    then show ?thesis by (rule prepare_sound) (simp_all add: assms(3,4))
  qed
  with l show ?thesis using assms(1,2)
    by (auto simp: request_step_def put_world_def split: if_splits reply.splits option.splits prod.splits)
next
  fix j status ct
  assume "l = GResponse j status ct"
  then show ?thesis using assms(1,2)
    by (auto simp: response_step_def Let_def set_req_def split: if_splits option.splits prod.splits body_kind.splits dest!: pool_do_other(1))
qed (use assms(2,5) open_step_dom [of h l _ g g'] in \<open>simp_all\<close>)

section \<open>Every step is traced\<close>

context shared_store
begin

lemma pool_step_mapping:
  assumes "pool_step P cfg n pl s = Some s'"
  shows "mapping (snd (world s')) = mapping (snd (world s))"
proof (cases pl)
  case (LPut k)
  obtain m d where w: "world s = (m, d)" by (cases "world s")
  have "mapping (snd (snd (flush_page P cfg j (m, d)))) = mapping d" for j
    using put_page_mapping by (fastforce simp: flush_page_def split: prod.splits sum.splits)
  then have "mapping (snd w') = mapping d" if "flush_page P cfg j (m, d) = (bad, w')" for j bad w'
    using that by (metis snd_conv)
  then show ?thesis using assms LPut w
    by (auto simp: put_step_def Let_def pool_defs split: if_splits prod.splits option.splits)
next
  case (LFinEnd i)
  obtain m d where w: "world s = (m, d)" by (cases "world s")
  have "mapping (snd w') = mapping d" if "Finalize_rest P c (m, d) = (r, w')" for c r w'
  proof -
    obtain rg m1 d1 where g: "ps_GetPages P (requestID c) (m, d) = (rg, m1, d1)" by (cases "ps_GetPages P (requestID c) (m, d)")
    obtain rd m2 d2 where e: "ps_DeletePages P (requestID c) (m1, d1) = (rd, m2, d2)" by (cases "ps_DeletePages P (requestID c) (m1, d1)")
    show ?thesis using that g e get_pages_mapping [OF g] delete_mapping [OF e]
      by (auto simp: Finalize_rest_def Let_def split: sum.splits)
  qed
  then show ?thesis using assms [unfolded LFinEnd] w by (elim step_FinEnd) auto
qed (use assms in \<open>auto simp: write_step_def fin_begin_step_def pool_defs Let_def split: option.splits if_splits prod.splits list.splits\<close>)

lemma traced_pool:
  assumes "pool_do h pl g = Some g'" "h_pages h = P"
  shows "traced mapping okey g g'"
  using assms pool_do_other(1) [OF assms(1)] pool_step_mapping by (intro traced_same) (auto simp: pool_do_def)

lemma putMapping_adds:
  assumes "okey (clientHash st)" "snd w1 = snd w"
  shows "adds mapping okey st (Inr a) w (putMapping S cfg st a w1)"
  unfolding adds_def
proof (intro allI impI)
  fix ch h sid
  let ?h = "HashBytes (FullState (canonMsgs st) a)"
  obtain m d where w1: "w1 = (m, d)" by (cases w1)
  obtain r m' d' where p: "ss_PutSession S (clientHash st) ?h (sessionID st) (Session_TTL cfg) (m, d) = (r, m', d')"
    by (cases "ss_PutSession S (clientHash st) ?h (sessionID st) (Session_TTL cfg) (m, d)")
  assume ch: "okey ch" and e: "mapping (snd (putMapping S cfg st a w1)) (ch, h) = Some sid"
  have "snd (putMapping S cfg st a w1) = d'" using w1 p by (auto simp: putMapping_def Let_def split: sum.splits)
  with e have e': "mapping d' (ch, h) = Some sid" by simp
  have "mapping d' (ch, h) \<in> {mapping d (ch, h), if (ch, h) = (clientHash st, ?h) then Some (sessionID st) else mapping d (ch, h)}"
  proof (cases r)
    case (Inl x)
    then show ?thesis using sessions.put_fail [OF p [unfolded Inl] assms(1) ch] by simp
  next
    case (Inr u)
    then have "r = Inr ()" by simp
    then show ?thesis using sessions.put_ok [OF p [unfolded \<open>r = Inr ()\<close>] assms(1) ch, of h] by simp
  qed
  then show "mapping (snd w) (ch, h) = Some sid \<or>
      (\<exists>b. Inr a = Inr b \<and> ch = clientHash st \<and> sid = sessionID st \<and> h = HashBytes (FullState (canonMsgs st) b))"
    using e' assms(2) w1 by (auto split: if_splits)
qed

lemma finalize_adds:
  assumes "okey (clientHash st)"
  shows "adds mapping okey st (fst out) w (finalizeStream S cfg st out w)" "adds mapping okey st (fst out) w (finalizeStreamOnClose S cfg st out w)"
    "adds mapping okey st (fst out) w (snd (finalizeAtDone S cfg st out w))" "adds mapping okey st (json_assistant st) w (finalizeJSON S cfg st w)"
  by (cases w; cases out; auto simp: finalizeStream_def finalizeStreamOnClose_def finalizeAtDone_def finalizeJSON_def json_assistant_def Let_def
      intro!: putMapping_adds [OF assms] split: sum.splits option.splits)+

lemma traced_run:
  assumes "open_reqs g i = Some st" "okey (clientHash st)" "h_sessions h = S"
  shows "traced mapping okey g (run_done h i st g)" "traced mapping okey g (run_stream h i t st g)"
    "traced mapping okey g (run_json h i st g)"
proof -
  note a = finalize_adds [OF assms(2)]
  show "traced mapping okey g (run_done h i st g)"
    by (rule traced_log [OF _ assms(1) _ _ _ mapped_runs(1),
          where st' = "fst (finalizeAtDone S (h_cfg h) st (last (results (gw_pool g) i)) (world (gw_pool g)))"]) (simp_all add: a(3) run_done_parts assms(3))
  show "traced mapping okey g (run_stream h i t st g)"
    by (rule traced_log [OF _ assms(1) _ _ _ mapped_runs(2)]) (simp_all add: a(1,2) run_stream_parts assms(1,3))
  show "traced mapping okey g (run_json h i st g)"
    by (rule traced_log [OF _ assms(1) _ _ _ mapped_runs(3)]) (simp_all add: a(4) run_json_parts assms(1,3))
qed

lemma traced_end_body:
  assumes "open_reqs g i = Some st" "finish st1 m = (us, st', m')" "ident st1 = ident st"
  shows "traced mapping okey g (end_body i (us, st', m') g)"
  using assms ident_finish [OF assms(2)]
  by (intro traced_same later_set_req [of g i st']) (simp_all add: end_body_parts, simp add: end_body_def gw_defs)

lemma traced_first:
  assumes "pool_first h g g1" "h_pages h = P"
  shows "traced mapping okey g g1"
proof -
  obtain pl g0 where p: "core g0 = core g" "pool_do h pl g0 = Some g1" using assms(1) by (auto simp: pool_first_def)
  then have "traced mapping okey g g0" by (intro traced_same) (auto simp: core_def)
  then show ?thesis using traced_pool [OF p(2) assms(2)] by (rule traced_trans)
qed

lemma traced_core: "core g' = core g \<Longrightarrow> traced mapping okey g g'"
  by (rule traced_same) (auto simp: core_def)

lemma traced_open:
  assumes "open_step h l st g = Some g'" "open_reqs g (gtarget l) = Some st" "life_of g (gtarget l)"
    and "okey (clientHash st)" "h_sessions h = S" "h_pages h = P"
  shows "traced mapping okey g g'"
  using assms(1-3)
proof (cases rule: open_step_elim)
  case still
  then show ?thesis by (rule traced_core)
next
  case (json p g0)
  then show ?thesis using assms(2)
    by (intro traced_same later_set_req [of g "gtarget l" "json_take p st"]) (auto simp: core_def set_req_def)
next
  case (finish e us st' m')
  then show ?thesis using traced_end_body [OF assms(2) finish(1)] by simp
next
  case (pool g1)
  then show ?thesis using traced_trans [OF traced_first [OF pool(1) assms(6)] traced_core] by simp
next
  case (run_done g1)
  have "open_reqs g1 (gtarget l) = Some st" using pool_first_open [OF run_done(1)] assms(2) by simp
  then show ?thesis using traced_trans [OF traced_first [OF run_done(1) assms(6)] traced_run(1) [OF _ assms(4,5)]] run_done(2) by simp
next
  case (run_stream t g1)
  have "open_reqs g1 (gtarget l) = Some st" using pool_first_open [OF run_stream(1)] assms(2) by simp
  then show ?thesis using traced_trans [OF traced_first [OF run_stream(1) assms(6)] traced_run(2) [OF _ assms(4,5)]] run_stream(2) by simp
next
  case (run_json g0)
  have "open_reqs g0 (gtarget l) = Some st" using run_json(1) assms(2) by (simp add: core_def)
  then show ?thesis using traced_trans [OF traced_core [OF run_json(1)] traced_run(3) [OF _ assms(4,5)]] run_json(2) by simp
qed

lemma ServeHTTP_mapping:
  assumes "ServeHTTP S cfg rid fresh r (m, d) = (rep, m', d')"
  shows "mapping d' = mapping d"
proof -
  have "mapping d1 = mapping d" if "prepare S fresh r body st (m1, d) = (x, m2, d1)" for body st m1 x m2 d1
    using that sessions.Resolve_keeps by (auto simp: prepare_def Let_def split: option.splits if_splits sum.splits prod.splits)
  then show ?thesis using assms by (auto simp: ServeHTTP_unfold split: if_splits option.splits prod.splits)
qed

lemma traced_step:
  assumes "gw_step h l g = Some g'" "\<And>i. life_of g i" "sound_reqs okey g" "h_sessions h = S" "h_pages h = P"
  shows "traced mapping okey g g'"
proof (cases "\<exists>st. open_reqs g (gtarget l) = Some st \<and> open_step h l st g = Some g'")
  case True
  then obtain st where st: "open_reqs g (gtarget l) = Some st" "open_step h l st g = Some g'" by blast
  have "okey (clientHash st)" using assms(3) st(1) by (auto simp: sound_reqs_def sound_req_def)
  then show ?thesis using traced_open [OF st(2,1) assms(2) _ assms(4,5)] by blast
next
  case no: False
  show ?thesis
  proof (cases l)
    case (GRequest i rid fresh r)
    obtain m d where w: "world (gw_pool g) = (m, d)" by (cases "world (gw_pool g)")
    obtain rep m' d' where sv: "ServeHTTP S (h_cfg h) rid fresh r (m, d) = (rep, m', d')"
      by (cases "ServeHTTP S (h_cfg h) rid fresh r (m, d)")
    have "world (gw_pool g') = (m', d') \<and> mapped g' = mapped g \<and> open_reqs g' = open_reqs g"
      using assms(1) GRequest sv w
      by (auto simp: request_step_def assms(4) put_world_def split: if_splits reply.splits option.splits)
    then show ?thesis using ServeHTTP_mapping [OF sv] w by (intro traced_same) simp_all
  next
    case (GUpstreamError i)
    then show ?thesis using assms(1) by (intro traced_same) (auto split: if_splits)
  next
    case (GResponse i status ct)
    obtain st where st: "forwarded g i = Some st" "response_step h i status ct st g = Some g'"
      using assms(1) GResponse by (auto split: option.splits)
    have o: "open_reqs g i = None" using assms(2) [of i] st(1) by (auto simp: life_of_def life_def)
    let ?g = "g\<lparr>forwarded := (forwarded g)(i := None)\<rparr>"
    have new: "traced mapping okey g1 (set_req i t g1)" if "open_reqs g1 i = None" for t and g1 :: "'s gateway"
      using that by (intro traced_same later_set_req [of g1 i t]) (simp_all add: set_req_def)
    have s: "traced mapping okey g ?g" by (rule traced_same) simp_all
    consider t g1 where "pool_do h (LNew i (st_requestID t) True) ?g = Some g1" "g' = set_req i t g1"
      | t where "g' = set_req i t ?g" | "g' = ?g"
      using st(2) by (auto simp: response_step_def Let_def split: prod.splits body_kind.splits option.splits)
    then show ?thesis
    proof cases
      case 1
      have "open_reqs g1 i = None" using pool_do_other(1) [OF 1(1)] o by simp
      from new [OF this] show ?thesis using traced_trans [OF traced_trans [OF s traced_pool [OF 1(1) assms(5)]]] 1(2) by simp
    next
      case 2
      then show ?thesis using traced_trans [OF s new] o by simp
    next
      case 3
      then show ?thesis using s by simp
    qed
  next
    case GTake
    then show ?thesis using assms(1) traced_pool [OF _ assms(5)] by simp
  next
    case (GPut k)
    then show ?thesis using assms(1) traced_pool [OF _ assms(5)] by simp
  qed (use no assms(1) in \<open>auto split: option.splits\<close>)
qed

lemma sound_reqs_step:
  assumes "gw_step h l g = Some g'" "sound_reqs okey g" "traced mapping okey g g'" "\<And>hd. okey (clientIdentity hd)"
    and "\<And>i. life_of g i"
  shows "sound_reqs okey g'"
  unfolding sound_reqs_def
proof (intro conjI allI impI)
  fix i st
  assume "forwarded g' i = Some st" "participate st"
  then show "sound_req okey st" using gw_step_forwarded [where ok = okey, OF assms(1) _ _ assms(4,5)] assms(2) unfolding sound_reqs_def by blast
next
  fix i t
  assume t: "open_reqs g' i = Some t"
  have "\<exists>st. sound_req okey st \<and> ident t = ident st"
  proof (cases "open_reqs g i")
    case None
    then show ?thesis using gw_step_opened [OF assms(1) None t assms(5)] assms(2) by (auto simp: sound_reqs_def)
  next
    case (Some st)
    then have "ident t = ident st" using assms(3) t unfolding traced_def later_def by (metis option.inject)
    moreover have "sound_req okey st" using assms(2) Some by (simp add: sound_reqs_def)
    ultimately show ?thesis by blast
  qed
  then show "sound_req okey t" using sound_req_ident by blast
qed

text \<open>In every reachable state each entry of the mapping is vouched for.\<close>

lemma gw_reach_vouched:
  assumes "gw_reach h (m0, s0) g" "h_sessions h = S" "h_pages h = P" "\<And>ch st. okey ch \<Longrightarrow> mapping s0 (ch, st) = None"
    and "\<And>hd. okey (clientIdentity hd)"
  shows "sound_reqs okey g \<and> (\<forall>ch st sid. okey ch \<longrightarrow> mapping (snd (world (gw_pool g))) (ch, st) = Some sid \<longrightarrow> vouched g ch st sid)"
  using assms(1)
proof (induction rule: gw_reach.induct)
  case start
  then show ?case using assms(4) by (simp add: sound_reqs_def NewHandler_def NewPool_def)
next
  case (step g l g')
  have life: "life_of g i" for i using gw_reach_life [OF step.hyps(1)] by blast
  have s: "sound_reqs okey g" using step.IH by blast
  note tr = traced_step [OF step.hyps(2) life s assms(2,3)]
  have "sound_reqs okey g'" by (rule sound_reqs_step [OF step.hyps(2) s tr assms(5) life])
  then show ?case using step.IH tr vouched_later unfolding traced_def by blast
qed

end

lemma mapped_canonical:
  assumes "life_of g i" "(i, a) \<in> set (mapped g)"
  shows "is_canonical a"
proof -
  have a: "a \<in> set (mine i (mapped g))" using assms(2) by (simp add: mine_member)
  then obtain st where st: "open_reqs g i = Some st" using assms(1) by (cases "open_reqs g i") (auto simp: life_of_def life_def)
  have "(\<exists>payload. extract_assistant payload = Inr a) \<or> (\<exists>msg. AssistantFromMessage msg = Inr a)"
    using assms(1) a st unfolding life_of_def life_def by (cases "has_collector st") auto
  then show ?thesis using extract_complete AssistantFromSSE_canonical AssistantFromMessage_canonical by blast
qed

text \<open>A resolved session was read from the store under the hash of the history.\<close>

lemma prepare_resolved:
  assumes "prepare S fresh r body (new_reqState rid) (m, d) = ((q, st), w')" "source st = SourceResolved"
  shows "participate st \<and> (\<exists>w1. ss_GetSession S (clientIdentity (Header r)) (HistoryHash (butlast (canonMsgs st))) (m, d) = (Inr (Some (sessionID st)), w1))"
  using assms
  by (auto simp: prepare_def new_reqState_def Resolve_def Let_def butlast_conv_take split: option.splits if_splits sum.splits prod.splits)

end
