(* ===== verification/Smoke.thy ===== *)
theory Smoke
  imports Service Provenance
begin

text \<open>
  The smoke test of the repository (\<open>scripts/smoke/main.go\<close>): its mock upstream, its configuration, the
  two chat rounds of its client and its checks, with the modelled gateway in place of the process it
  starts and an in-memory database in place of miniredis. Sleeps, ports and the process itself are
  left out, and whether it stops in time is an argument; the text of \<open>/metrics\<close>, which the Prometheus library writes, is an argument.
\<close>

section \<open>The test program\<close>

text \<open>The mock upstream: three content chunks and the sentinel, each flushed on its own.\<close>

definition mock_event :: "bytes \<Rightarrow> bytes" where
  "mock_event c = ''data: {\"choices\":[{\"index\":0,\"delta\":{\"content\":\"'' @ c @ ''\"}}]}'' @ [nl, nl]"

definition mock_writes :: "bytes list" where
  "mock_writes = map mock_event [''mock '', ''smoke '', ''ok''] @ [''data: [DONE]'' @ [nl, nl]]"

definition smoke_config :: "bytes \<Rightarrow> Config" where
  "smoke_config addr =
     \<lparr>Listen = ''127.0.0.1:18098'', BaseURL = ''http://127.0.0.1:18099/v1'',
      cfg_Redis = \<lparr>Addr = addr, DB = 0, Timeout = 2 * Second\<rparr>,
      Session_TTL = 168 * Hour,
      cfg_ResponseCache = \<lparr>rc_PageSize = 4 * 2 ^ 10, rc_TTL = 30 * Minute, Workers = 2, rc_MaxPendingPages = 4\<rparr>,
      MaxRequestBody = 32 * 2 ^ 20, Level = ''info''\<rparr>"

definition smoke_body :: "nat \<Rightarrow> bytes" where
  "smoke_body i =
     (if i = 0 then ''{\"model\":\"m\",\"stream\":true,\"messages\":[{\"role\":\"user\",\"content\":\"hi\"}]}''
      else ''{\"model\":\"m\",\"stream\":true,\"messages\":[{\"role\":\"user\",\"content\":\"hi\"},{\"role\":\"assistant\",\"content\":\"mock smoke ok\"},{\"role\":\"user\",\"content\":\"again\"}]}'')"

definition smoke_post :: "bytes \<Rightarrow> Request" where
  "smoke_post body =
     \<lparr>Method = ''POST'', Path = ''/chat/completions'', Header = [(''Content-Type'', [''application/json''])], Body = body,
      BodyError = False, ContentLength = int (length body), GetBody = None\<rparr>"

text \<open>One round: the request, the response, what the proxy reads of it, the call-back at [DONE] and the end.\<close>

definition smoke_round :: "nat \<Rightarrow> bytes \<Rightarrow> bytes \<Rightarrow> glabel list" where
  "smoke_round i rid fresh =
     [GRequest i rid fresh (smoke_post (smoke_body i)), GResponse i 200 ''text/event-stream''] @ map (GRead i) mock_writes @
     [GDone i, GDoneEnd i, GEof i, GClose i]"

text \<open>The session header the upstream sees, if the step forwards a request.\<close>

definition upstream_sees :: "'s Handler \<Rightarrow> glabel \<Rightarrow> 's gateway \<Rightarrow> bytes list" where
  "upstream_sees h l g =
     (case l of
        GRequest i rid fresh r \<Rightarrow>
          (case fst (ServeHTTP (h_sessions h) (h_cfg h) rid fresh r (world (gw_pool g))) of
             Proxy r' _ \<Rightarrow> [Header_Get (Header r') ''X-Opencode-Session'']
           | Reply _ \<Rightarrow> [])
      | _ \<Rightarrow> [])"

fun drive :: "'s Handler \<Rightarrow> glabel list \<Rightarrow> 's gateway \<times> bytes list \<Rightarrow> ('s gateway \<times> bytes list) option" where
  "drive h [] gs = Some gs"
| "drive h (l # ls) (g, ss) = (case gw_step h l g of None \<Rightarrow> None | Some g' \<Rightarrow> drive h ls (g', ss @ upstream_sees h l g))"

text \<open>
  The checks, in order; \<open>None\<close> is SMOKE OK, anything else the text given to \<open>fatal\<close>. The answer to
  \<open>/healthz\<close> is \<open>None\<close> when the request failed; an answer to a chat request is its status and its
  body; the last argument says whether the process was gone 45 seconds after the signal.
\<close>

definition smoke_health :: "int option \<Rightarrow> bytes option" where
  "smoke_health status = (if status = Some 200 then None else Some ''healthz'')"

definition smoke_wants :: "bytes list" where
  "smoke_wants = [''opgate_session_resolve_hit_total'', ''opgate_session_mapping_created_total'', ''opgate_page_flush_success_total'']"

definition smoke_checks :: "(int \<times> bytes) list \<Rightarrow> bytes list \<Rightarrow> bytes \<Rightarrow> bytes option" where
  "smoke_checks answers sessions metricsText =
     (if list_ex (\<lambda>a. fst a \<noteq> 200) answers then Some ''chat status''
      else if list_ex (\<lambda>a. \<not> Contains (snd a) ''[DONE]'') answers then Some ''stream incomplete''
      else (case sessions of
         [s0, s1] \<Rightarrow>
           if s0 = [] \<or> s0 \<noteq> s1 then Some ''session affinity broken''
           else if list_ex (\<lambda>want. \<not> Contains metricsText want) smoke_wants then Some ''metrics missing''
           else None
       | _ \<Rightarrow> Some ''expected 2 upstream requests''))"

definition smoke_shutdown :: "bool \<Rightarrow> bytes option" where
  "smoke_shutdown exited = (if exited then None else Some ''graceful shutdown timed out'')"

definition smoke_verdict :: "int option \<Rightarrow> (int \<times> bytes) list \<Rightarrow> bytes list \<Rightarrow> bytes \<Rightarrow> bool \<Rightarrow> bytes option" where
  "smoke_verdict health answers sessions metricsText exited =
     (case smoke_health health of Some e \<Rightarrow> Some e
      | None \<Rightarrow> (case smoke_checks answers sessions metricsText of Some e \<Rightarrow> Some e | None \<Rightarrow> smoke_shutdown exited))"

text \<open>The status of a GET that the mux hands to the health check.\<close>

definition get_status :: "bytes \<Rightarrow> int option" where
  "get_status p = (if mux_route p = ToHealthz then Some (rp_Status healthz) else None)"

section \<open>The configuration is what the test file says\<close>

lemma smoke_scalars:
  "Duration_UnmarshalYAML ''!!str'' ''2s'' = Some (2 * Second)" "Duration_UnmarshalYAML ''!!str'' ''168h'' = Some (168 * Hour)"
  "Duration_UnmarshalYAML ''!!str'' ''30m'' = Some (30 * Minute)" "ByteSize_UnmarshalYAML oob ''!!str'' ''4KiB'' = Some (4 * 2 ^ 10)"
  "ByteSize_UnmarshalYAML oob ''!!str'' ''32MiB'' = Some (32 * 2 ^ 20)"
  by code_simp+

section \<open>The run\<close>

definition msg1 :: bytes where "msg1 = ''{\"content\":\"hi\",\"role\":\"user\"}''"
definition msg2 :: bytes where "msg2 = ''{\"content\":\"mock smoke ok\",\"role\":\"assistant\"}''"
definition msg3 :: bytes where "msg3 = ''{\"content\":\"again\",\"role\":\"user\"}''"

lemma smoke_messages:
  "map_option (map Canonicalize) (ParseChatRequest (smoke_body 0)) = Some (map Inr [msg1])"
  "map_option (map Canonicalize) (ParseChatRequest (smoke_body 1)) = Some (map Inr [msg1, msg2, msg3])"
  by code_simp+

lemma mock_assistant: "AssistantFromSSE (concat mock_writes) = (True, Inr msg2)"
  by code_simp

text \<open>The state after the first request has been forwarded, and the state of the second request.\<close>

definition smoke_state :: "nat \<Rightarrow> bytes \<Rightarrow> bytes \<Rightarrow> bytes \<Rightarrow> bytes list \<Rightarrow> bytes \<Rightarrow> reqState" where
  "smoke_state i rid ch hh msgs sid =
     (new_reqState rid)\<lparr>canonMsgs := msgs, clientHash := ch, sessionID := sid, source := (if i = 0 then SourceNew else SourceResolved),
        historyHash := hh, participate := True\<rparr>"

definition smoke_open :: "bytes \<Rightarrow> mem_db gateway" where
  "smoke_open ch =
     (NewHandler (count_request ''chat'' New, demo_db))\<lparr>forwarded := [0 \<mapsto> smoke_state 0 ''r1'' ch [] [msg1] ''u1'']\<rparr>"

abbreviation smoke_gateway :: "bytes \<Rightarrow> mem_db Handler" where
  "smoke_gateway addr \<equiv> gateway_of mem_redis (smoke_config addr)"

definition smoke_reads :: "nat \<Rightarrow> glabel list" where
  "smoke_reads i = GResponse i 200 ''text/event-stream'' # map (GRead i) mock_writes @ [GDone i]"

definition first_mapped :: "bytes \<Rightarrow> Metrics \<times> mem_db \<Rightarrow> reqState \<Rightarrow> mem_db gateway \<Rightarrow> mem_db gateway" where
  "first_mapped a w st g = log_map 0 (Inr a :: unit + bytes) (set_req 0 (st\<lparr>earlyFinalized := True\<rparr>) (put_world w g))"

lemma first_reads:
  "case gw_run (smoke_gateway addr) (smoke_reads 0) (smoke_open ch) of None \<Rightarrow> False
   | Some g \<Rightarrow> phases (gw_pool g) 0 = Waiting True \<and>
      (case open_reqs g 0 of None \<Rightarrow> False | Some st \<Rightarrow> \<not> earlyFinalized st \<and> \<not> finished st \<and> ident st = (ch, ''u1'', [msg1])) \<and>
      (case pool_do (smoke_gateway addr) (LFinEnd 0) g of None \<Rightarrow> False
       | Some g1 \<Rightarrow> map fst (results (gw_pool g1) 0) = [Inr msg2] \<and> db_strs (snd (world (gw_pool g1))) = [] \<and>
          db_hashes (snd (world (gw_pool g1))) = [] \<and> db_faults (snd (world (gw_pool g1))) = [])"
  by code_simp

lemma second_reads:
  "case gw_run (smoke_gateway addr) (smoke_reads 0) (smoke_open ch) of None \<Rightarrow> False
   | Some g \<Rightarrow> (case open_reqs g 0 of None \<Rightarrow> False | Some st \<Rightarrow>
      (case pool_do (smoke_gateway addr) (LFinEnd 0) g of None \<Rightarrow> False | Some g1 \<Rightarrow>
        (case gw_run (smoke_gateway addr) [GEof 0, GClose 0] (first_mapped msg2 w st g1) of None \<Rightarrow> False | Some g2 \<Rightarrow>
          Option.is_none (forwarded g2 1) \<and> Option.is_none (open_reqs g2 1) \<and>
          (case gw_run (smoke_gateway addr) (smoke_reads 1)
              ((put_world (m, \<lparr>db_strs = [(k, ''u1'')], db_hashes = [], db_faults = []\<rparr>) g2)\<lparr>forwarded := (forwarded g2)(1 \<mapsto> smoke_state 1 ''r2'' ch hh [msg1, msg2, msg3] ''u1'')\<rparr>)
            of None \<Rightarrow> False
            | Some g3 \<Rightarrow> phases (gw_pool g3) 1 = Waiting True \<and> received g3 0 = concat mock_writes \<and> received g3 1 = concat mock_writes \<and>
               (case open_reqs g3 1 of None \<Rightarrow> False | Some st \<Rightarrow> \<not> earlyFinalized st \<and> \<not> finished st) \<and>
               (case pool_do (smoke_gateway addr) (LFinEnd 1) g3 of None \<Rightarrow> False
                | Some g4 \<Rightarrow> map fst (results (gw_pool g4) 1) = [Inr msg2])))))"
  by code_simp

text \<open>Hashes stay symbolic: the key under which the first round is stored is the key of the second lookup.\<close>

definition smoke_client :: bytes where
  "smoke_client = clientIdentity [(''Content-Type'', [''application/json''])]"

definition smoke_db :: mem_db where
  "smoke_db = \<lparr>db_strs = [(SessionKey smoke_client (HashBytes (FullState [msg1] msg2)), ''u1'')], db_hashes = [], db_faults = []\<rparr>"

lemma smoke_chat: "is_chat (smoke_post b)" "Header_Get (Header (smoke_post b)) ''X-Opencode-Session'' = []"
  by (simp_all add: smoke_post_def is_chat_def HasSuffix_def Header_Get_def)

lemma smoke_readBody:
  "fst (readBody (smoke_post (smoke_body i)) (MaxRequestBody (smoke_config addr))) = Some (smoke_body i, False)"
  by (simp add: readBody_ok smoke_config_def smoke_post_def smoke_body_def)

lemma smoke_prepare:
  assumes "map_option (map Canonicalize) (ParseChatRequest (smoke_body i)) = Some (map Inr msgs)" "msgs \<noteq> []"
    and "Resolve S fresh smoke_client msgs [] w = (dec, w')"
  shows "prepare S fresh (smoke_post (smoke_body i)) (smoke_body i) st w =
    (((smoke_post (smoke_body i))\<lparr>Header := Header_Set ''X-Opencode-Session'' (SessionID dec) (Header (smoke_post (smoke_body i)))\<rparr>,
      st\<lparr>canonMsgs := msgs, clientHash := smoke_client, sessionID := SessionID dec, source := dec_Source dec,
         historyHash := dec_HistoryHash dec, participate := True\<rparr>), w')"
proof -
  obtain raw where raw: "ParseChatRequest (smoke_body i) = Some raw" "map Canonicalize raw = map Inr msgs" using assms(1) by auto
  then have "seq_results (map Canonicalize raw) = Inr msgs" "raw \<noteq> []" using assms(2) by (auto simp: seq_results_Inr_iff)
  moreover have "clientIdentity (Header (smoke_post (smoke_body i))) = smoke_client" by (simp add: smoke_post_def smoke_client_def)
  ultimately show ?thesis using raw(1) assms(3) smoke_chat(2) [of "smoke_body i"] by (simp add: prepare_def Let_def)
qed

lemma smoke_serve:
  assumes "prepare (redis_sessions mem_redis) fresh (smoke_post (smoke_body i)) (smoke_body i) (new_reqState rid) (count_request ''chat'' m, d) = ((q, st), w')"
  shows "\<exists>q'. ServeHTTP (redis_sessions mem_redis) (smoke_config addr) rid fresh (smoke_post (smoke_body i)) (m, d) = (Proxy q' (Some st), w') \<and>
    Header_Get (Header q') ''X-Opencode-Session'' = Header_Get (Header q) ''X-Opencode-Session''"
  using assms smoke_chat(1) smoke_readBody [of i addr] by (simp add: ServeHTTP_unfold Header_Get_def)

lemma smoke_request_step:
  assumes "prepare (redis_sessions mem_redis) fresh (smoke_post (smoke_body i)) (smoke_body i) (new_reqState rid) (count_request ''chat'' m, d) = ((q, st), w')"
    and "world (gw_pool g) = (m, d)" "forwarded g i = None" "open_reqs g i = None"
  shows "gw_step (smoke_gateway addr) (GRequest i rid fresh (smoke_post (smoke_body i))) g = Some ((put_world w' g)\<lparr>forwarded := (forwarded g)(i \<mapsto> st)\<rparr>)"
    and "upstream_sees (smoke_gateway addr) (GRequest i rid fresh (smoke_post (smoke_body i))) g = [Header_Get (Header q) ''X-Opencode-Session'']"
  using smoke_serve [OF assms(1), of addr] assms(2-4) by (auto simp: request_step_def upstream_sees_def gateway_of_def)

lemma smoke_first_request:
  "gw_step (smoke_gateway addr) (GRequest 0 ''r1'' ''u1'' (smoke_post (smoke_body 0))) (NewHandler (New, demo_db)) = Some (smoke_open smoke_client)"
  "upstream_sees (smoke_gateway addr) (GRequest 0 ''r1'' ''u1'' (smoke_post (smoke_body 0))) (NewHandler (New, demo_db)) = [''u1'']"
proof -
  have "Resolve (redis_sessions mem_redis) ''u1'' smoke_client [msg1] [] (count_request ''chat'' New, demo_db) =
      (\<lparr>SessionID = ''u1'', dec_Source = SourceNew, dec_HistoryHash = []\<rparr>, count_request ''chat'' New, demo_db)"
    by (simp add: Resolve_def)
  note p = smoke_prepare [OF smoke_messages(1) _ this]
  have w: "world (gw_pool (NewHandler (New, demo_db))) = (New, demo_db)" "forwarded (NewHandler (New, demo_db)) 0 = None"
    "open_reqs (NewHandler (New, demo_db)) 0 = None" by (simp_all add: NewHandler_def NewPool_def)
  show "gw_step (smoke_gateway addr) (GRequest 0 ''r1'' ''u1'' (smoke_post (smoke_body 0))) (NewHandler (New, demo_db)) = Some (smoke_open smoke_client)"
    by (subst smoke_request_step(1) [OF p w])
      (simp_all add: smoke_open_def smoke_state_def new_reqState_def NewHandler_def NewPool_def put_world_def)
  show "upstream_sees (smoke_gateway addr) (GRequest 0 ''r1'' ''u1'' (smoke_post (smoke_body 0))) (NewHandler (New, demo_db)) = [''u1'']"
    by (subst smoke_request_step(2) [OF p w]) simp_all
qed

lemma smoke_second_prepare:
  "\<exists>m'. prepare (redis_sessions mem_redis) ''u2'' (smoke_post (smoke_body 1)) (smoke_body 1) (new_reqState ''r2'') (count_request ''chat'' m, smoke_db) =
    (((smoke_post (smoke_body 1))\<lparr>Header := Header_Set ''X-Opencode-Session'' ''u1'' (Header (smoke_post (smoke_body 1)))\<rparr>,
      smoke_state 1 ''r2'' smoke_client (HistoryHash [msg1, msg2]) [msg1, msg2, msg3] ''u1''), m', smoke_db)"
proof -
  have "\<exists>m'. Resolve (redis_sessions mem_redis) ''u2'' smoke_client [msg1, msg2, msg3] [] (count_request ''chat'' m, smoke_db) =
      (\<lparr>SessionID = ''u1'', dec_Source = SourceResolved, dec_HistoryHash = HistoryHash [msg1, msg2]\<rparr>, m', smoke_db)"
    by (simp add: Resolve_def Let_def redis_sessions_def GetSession_def mem_redis_def faulty_def smoke_db_def HistoryHash_def FullState_def)
  then obtain m' where "Resolve (redis_sessions mem_redis) ''u2'' smoke_client [msg1, msg2, msg3] [] (count_request ''chat'' m, smoke_db) =
      (\<lparr>SessionID = ''u1'', dec_Source = SourceResolved, dec_HistoryHash = HistoryHash [msg1, msg2]\<rparr>, m', smoke_db)" ..
  from smoke_prepare [OF smoke_messages(2) _ this] show ?thesis by (intro exI [of _ m']) (simp add: smoke_state_def new_reqState_def)
qed

lemma smoke_second_request:
  assumes "world (gw_pool g) = (m, smoke_db)" "forwarded g 1 = None" "open_reqs g 1 = None"
  shows "\<exists>m'. gw_step (smoke_gateway addr) (GRequest 1 ''r2'' ''u2'' (smoke_post (smoke_body 1))) g =
      Some ((put_world (m', smoke_db) g)\<lparr>forwarded := (forwarded g)(1 \<mapsto>
        smoke_state 1 ''r2'' smoke_client (HistoryHash [msg1, msg2]) [msg1, msg2, msg3] ''u1'')\<rparr>)"
    and "upstream_sees (smoke_gateway addr) (GRequest 1 ''r2'' ''u2'' (smoke_post (smoke_body 1))) g = [''u1'']"
  using smoke_second_prepare [of m] smoke_request_step [OF _ assms] by fastforce+

text \<open>The end of a round whose response was mapped at [DONE].\<close>

lemma closing:
  assumes "open_reqs g i = Some st" "earlyFinalized st" "\<not> finished st" "copying i g"
  shows "\<exists>g'. gw_run h [GEof i, GClose i] g = Some g' \<and> gw_pool g' = gw_pool g \<and> received g' = received g \<and> mapped g' = mapped g"
proof -
  let ?st = "st\<lparr>eof := True, finished := True\<rparr>" and ?m = "fst (world (gw_pool g))"
  let ?g = "end_body i ([], ?st, ?m) g"
  have f: "finish (st\<lparr>eof := True\<rparr>) ?m = ([], ?st, ?m)" "finish ?st ?m = ([], ?st, ?m)" using assms(2,3) by (simp_all add: finish_def)
  have g: "gw_pool ?g = gw_pool g" "open_reqs ?g i = Some ?st" "received ?g = received g" "mapped ?g = mapped g"
    by (simp_all add: end_body_def gw_defs)
  then have c: "copying i ?g" using assms(4) by (simp add: copying_def)
  have "gw_run h [GEof i, GClose i] g = Some (end_body i ([], ?st, ?m) ?g)"
    using assms f g c by (simp add: at_eof_def body_Close_def del: end_body_def)
  then show ?thesis using g by (intro exI [of _ "end_body i ([], ?st, ?m) ?g"]) (simp add: end_body_def gw_defs)
qed

lemma run_done_mapped:
  assumes "fst (last (results (gw_pool g) i)) = Inr a"
  shows "run_done h i st g = log_map i (Inr a :: unit + bytes) (set_req i (st\<lparr>earlyFinalized := True\<rparr>)
    (put_world (snd (finalizeAtDone (h_sessions h) (h_cfg h) st (last (results (gw_pool g) i)) (world (gw_pool g)))) g))"
  using assms finalizeAtDone_state [of "h_sessions h" "h_cfg h" st "last (results (gw_pool g) i)" "world (gw_pool g)"]
  by (cases "finalizeAtDone (h_sessions h) (h_cfg h) st (last (results (gw_pool g) i)) (world (gw_pool g))")
    (simp add: run_done_def Let_def log_map_def)

lemma smoke_first_mapping:
  assumes "ident st = (smoke_client, ''u1'', [msg1])" "fst out = Inr msg2" "db_strs d = []" "db_hashes d = []" "db_faults d = []"
  shows "snd (snd (finalizeAtDone (redis_sessions mem_redis) cfg st out (m, d))) = smoke_db"
proof -
  have "d = \<lparr>db_strs = [], db_hashes = [], db_faults = []\<rparr>" using assms(3-5) by simp
  then show ?thesis using assms(1,2)
    by (cases out) (simp add: finalizeAtDone_def putMapping_def Let_def redis_sessions_def PutSession_def mem_redis_def faulty_def smoke_db_def
        ident_def plain_result_def)
qed

lemma gw_run_done_end:
  assumes "phases (gw_pool g) i = Waiting True" "open_reqs g i = Some st" "pool_do h (LFinEnd i) g = Some g1"
  shows "gw_run h (GDoneEnd i # ls) g = gw_run h ls (run_done h i st g1)"
  using assms by simp

lemma smoke_round_steps:
  "smoke_round i rid fresh = GRequest i rid fresh (smoke_post (smoke_body i)) # smoke_reads i @ GDoneEnd i # [GEof i, GClose i]"
  by (simp add: smoke_round_def smoke_reads_def)

text \<open>From the end of the reads to the end of a round.\<close>

lemma round_end:
  assumes "phases (gw_pool g) i = Waiting True" "open_reqs g i = Some st" "\<not> finished st" "pool_do h (LFinEnd i) g = Some g1"
    and "fst (last (results (gw_pool g1) i)) = Inr a"
  shows "\<exists>g'. gw_run h (GDoneEnd i # [GEof i, GClose i]) g = Some g' \<and> gw_run h [GEof i, GClose i] (run_done h i st g1) = Some g' \<and>
    gw_pool g' = gw_pool (run_done h i st g1) \<and> received g' = received g \<and> mapped g' = mapped g @ [(i, a)]"
proof -
  let ?g = "run_done h i st g1"
  have e: "?g = log_map i (Inr a :: unit + bytes) (set_req i (st\<lparr>earlyFinalized := True\<rparr>)
      (put_world (snd (finalizeAtDone (h_sessions h) (h_cfg h) st (last (results (gw_pool g1) i)) (world (gw_pool g1)))) g1))"
    by (rule run_done_mapped [OF assms(5)])
  have o: "open_reqs ?g i = Some (st\<lparr>earlyFinalized := True\<rparr>)" "received ?g = received g" "mapped ?g = mapped g @ [(i, a)]"
    "phases (gw_pool ?g) i = Ended"
    unfolding e using pool_do_other(1) [OF assms(4)] do_FinEnd [OF assms(4)] by (simp_all add: gw_defs)
  then have "copying i ?g" by (simp add: copying_def)
  from closing [OF o(1) _ _ this, of h] assms(3) obtain g' where
    "gw_run h [GEof i, GClose i] ?g = Some g'" "gw_pool g' = gw_pool ?g" "received g' = received ?g" "mapped g' = mapped ?g" by auto
  then show ?thesis using gw_run_done_end [OF assms(1,2,4)] o(2,3) by auto
qed

text \<open>The first round leaves exactly one mapping, and the second round can then be completed.\<close>

lemma smoke_rounds:
  obtains g m where "gw_run (smoke_gateway addr) (smoke_reads 0 @ GDoneEnd 0 # [GEof 0, GClose 0]) (smoke_open smoke_client) = Some g"
    "world (gw_pool g) = (m, smoke_db)" "forwarded g 1 = None" "open_reqs g 1 = None" "mapped g \<noteq> []"
    "\<And>m' hh. \<exists>g3. gw_run (smoke_gateway addr) (smoke_reads 1 @ GDoneEnd 1 # [GEof 1, GClose 1])
       ((put_world (m', smoke_db) g)\<lparr>forwarded := (forwarded g)(1 \<mapsto> smoke_state 1 ''r2'' smoke_client hh [msg1, msg2, msg3] ''u1'')\<rparr>) = Some g3 \<and>
      received g3 0 = concat mock_writes \<and> received g3 1 = concat mock_writes"
proof -
  let ?h = "smoke_gateway addr"
  obtain g st g1 where g: "gw_run ?h (smoke_reads 0) (smoke_open smoke_client) = Some g" "phases (gw_pool g) 0 = Waiting True"
    "open_reqs g 0 = Some st" "\<not> finished st" "ident st = (smoke_client, ''u1'', [msg1])" "pool_do ?h (LFinEnd 0) g = Some g1"
    and r: "map fst (results (gw_pool g1) 0) = [Inr msg2]" and d: "db_strs (snd (world (gw_pool g1))) = []"
      "db_hashes (snd (world (gw_pool g1))) = []" "db_faults (snd (world (gw_pool g1))) = []"
    using first_reads [where addr = addr and ch = smoke_client] by (auto split: option.splits)
  then obtain out where out: "last (results (gw_pool g1) 0) = out" "fst out = Inr msg2" by (auto simp: map_eq_Cons_conv)
  define w where "w = snd (finalizeAtDone (redis_sessions mem_redis) (smoke_config addr) st out (world (gw_pool g1)))"
  have h: "h_sessions ?h = redis_sessions mem_redis" "h_cfg ?h = smoke_config addr" by (simp_all add: gateway_of_def)
  have w: "snd w = smoke_db" unfolding w_def
    using smoke_first_mapping [OF g(5) out(2) d, of "smoke_config addr" "fst (world (gw_pool g1))"] by simp
  have rd: "run_done ?h 0 st g1 = first_mapped msg2 w st g1"
    using run_done_mapped [of g1 0 msg2 ?h st] out by (simp add: first_mapped_def w_def h)
  obtain g2 where g2: "gw_run ?h (GDoneEnd 0 # [GEof 0, GClose 0]) g = Some g2" "gw_run ?h [GEof 0, GClose 0] (first_mapped msg2 w st g1) = Some g2"
    "gw_pool g2 = gw_pool (first_mapped msg2 w st g1)" "mapped g2 = mapped g @ [(0, msg2)]"
    using round_end [OF g(2-4,6)] out rd by auto
  have "world (gw_pool g2) = w" unfolding g2(3) by (simp add: first_mapped_def gw_defs)
  then have world: "world (gw_pool g2) = (fst w, smoke_db)" using w by (metis prod.collapse)
  note second = second_reads [where addr = addr and ch = smoke_client and w = w and k = "SessionKey smoke_client (HashBytes (FullState [msg1] msg2))", folded smoke_db_def]
  have fw: "forwarded g2 1 = None" "open_reqs g2 1 = None"
    using second g(1,3,6) g2(2) by (auto simp: Option.is_none_def)
  have "\<exists>g3. gw_run ?h (smoke_reads 1 @ GDoneEnd 1 # [GEof 1, GClose 1])
       ((put_world (m', smoke_db) g2)\<lparr>forwarded := (forwarded g2)(1 \<mapsto> smoke_state 1 ''r2'' smoke_client hh [msg1, msg2, msg3] ''u1'')\<rparr>) = Some g3 \<and>
      received g3 0 = concat mock_writes \<and> received g3 1 = concat mock_writes" (is "\<exists>g3. gw_run ?h _ ?g = Some g3 \<and> _") for m' hh
  proof -
    obtain g3 st3 g4 where s: "gw_run ?h (smoke_reads 1) ?g = Some g3" "phases (gw_pool g3) 1 = Waiting True" "open_reqs g3 1 = Some st3"
      "\<not> finished st3" "pool_do ?h (LFinEnd 1) g3 = Some g4" "map fst (results (gw_pool g4) 1) = [Inr msg2]"
      "received g3 0 = concat mock_writes" "received g3 1 = concat mock_writes"
      using second [where m = m' and hh = hh] g(1,3,6) g2(2) by (auto split: option.splits)
    then have "fst (last (results (gw_pool g4) 1)) = Inr msg2" by (auto simp: map_eq_Cons_conv)
    from round_end [OF s(2-5) this] s(1,7,8) show ?thesis unfolding gw_run_append by auto
  qed
  moreover have "gw_run ?h (smoke_reads 0 @ GDoneEnd 0 # [GEof 0, GClose 0]) (smoke_open smoke_client) = Some g2"
    using g(1) g2(1) by (simp add: gw_run_append del: gw_run.simps)
  ultimately show thesis using that world fw g2(4) by auto
qed

section \<open>The verdict\<close>

fun forwards :: "glabel \<Rightarrow> bool" where
  "forwards (GRequest i rid fresh r) = True"
| "forwards l = False"

lemma drive_quiet: "list_all (Not \<circ> forwards) ls \<Longrightarrow> drive h ls (g, ss) = map_option (\<lambda>g'. (g', ss)) (gw_run h ls g)"
proof (induction ls arbitrary: g)
  case (Cons l ls)
  then have "upstream_sees h l g = []" by (cases l) (simp_all add: upstream_sees_def)
  then show ?case using Cons by (cases "gw_step h l g") simp_all
qed simp

lemma drive_append:
  "drive h (ls @ ks) gs = (case drive h ls gs of None \<Rightarrow> None | Some gs' \<Rightarrow> drive h ks gs')"
proof (induction ls arbitrary: gs)
  case (Cons l ls)
  then show ?case by (cases gs) (auto split: option.splits)
qed simp

lemma round_quiet: "list_all (Not \<circ> forwards) (smoke_reads i @ GDoneEnd i # [GEof i, GClose i])"
  by (simp add: smoke_reads_def list_all_iff)

lemma smoke_drive:
  "\<exists>g. drive (smoke_gateway addr) (smoke_round 0 ''r1'' ''u1'' @ smoke_round 1 ''r2'' ''u2'') (NewHandler (New, demo_db), []) =
    Some (g, [''u1'', ''u1'']) \<and> received g 0 = concat mock_writes \<and> received g 1 = concat mock_writes"
proof -
  let ?h = "smoke_gateway addr"
  obtain g m where g: "gw_run ?h (smoke_reads 0 @ GDoneEnd 0 # [GEof 0, GClose 0]) (smoke_open smoke_client) = Some g"
    "world (gw_pool g) = (m, smoke_db)" "forwarded g 1 = None" "open_reqs g 1 = None" "mapped g \<noteq> []"
    and next_round: "\<And>m' hh. \<exists>g3. gw_run ?h (smoke_reads 1 @ GDoneEnd 1 # [GEof 1, GClose 1])
       ((put_world (m', smoke_db) g)\<lparr>forwarded := (forwarded g)(1 \<mapsto> smoke_state 1 ''r2'' smoke_client hh [msg1, msg2, msg3] ''u1'')\<rparr>) = Some g3 \<and>
      received g3 0 = concat mock_writes \<and> received g3 1 = concat mock_writes"
    using smoke_rounds [of addr] by blast
  have first: "drive ?h (smoke_round 0 ''r1'' ''u1'') (NewHandler (New, demo_db), []) = Some (g, [''u1''])"
    unfolding smoke_round_steps drive.simps smoke_first_request option.case append_Nil drive_quiet [OF round_quiet] g(1) by simp
  from smoke_second_request(1) [OF g(2-4), of addr] obtain m' where
    st: "gw_step ?h (GRequest 1 ''r2'' ''u2'' (smoke_post (smoke_body 1))) g =
      Some ((put_world (m', smoke_db) g)\<lparr>forwarded := (forwarded g)(1 \<mapsto>
        smoke_state 1 ''r2'' smoke_client (HistoryHash [msg1, msg2]) [msg1, msg2, msg3] ''u1'')\<rparr>)" by blast
  from next_round [where m' = m' and hh = "HistoryHash [msg1, msg2]"] obtain g3 where
    g3: "gw_run ?h (smoke_reads 1 @ GDoneEnd 1 # [GEof 1, GClose 1])
       ((put_world (m', smoke_db) g)\<lparr>forwarded := (forwarded g)(1 \<mapsto>
         smoke_state 1 ''r2'' smoke_client (HistoryHash [msg1, msg2]) [msg1, msg2, msg3] ''u1'')\<rparr>) = Some g3"
      "received g3 0 = concat mock_writes" "received g3 1 = concat mock_writes" by blast
  have "drive ?h (smoke_round 1 ''r2'' ''u2'') (g, [''u1'']) = Some (g3, [''u1'', ''u1''])"
    unfolding smoke_round_steps drive.simps st smoke_second_request(2) [OF g(2-4)] option.case drive_quiet [OF round_quiet] g3(1) by simp
  then show ?thesis using first g3(2,3) by (simp add: drive_append)
qed

section \<open>The run of the smoke test\<close>

text \<open>
  Driven through the two rounds of the test, against the test's upstream and with the test's
  configuration, the upstream sees the session of the first round again in the second, and the
  checks of the test succeed on what the steps produce. The statuses of the responses, the exit
  of the process and a text of \<open>/metrics\<close> that names every registered metric without labels are given.
\<close>

lemma smoke_test_passes:
  assumes "\<And>d. d \<in> set descriptors \<Longrightarrow> d_labels d = [] \<Longrightarrow> Contains metricsText (d_name d)"
  shows "mux_route ''/metrics'' = ToMetrics \<and> mux_route (Path (smoke_post body)) = ToHandler \<and>
    (\<exists>g sessions. drive (smoke_gateway addr) (smoke_round 0 ''r1'' ''u1'' @ smoke_round 1 ''r2'' ''u2'') (NewHandler (New, demo_db), []) =
      Some (g, sessions) \<and> smoke_verdict (get_status ''/healthz'') [(200, received g 0), (200, received g 1)] sessions metricsText True = None)"
proof -
  have route: "mux_route ''/healthz'' = ToHealthz" "mux_route ''/metrics'' = ToMetrics" "mux_route ''/chat/completions'' = ToHandler"
    by code_simp+
  have "list_all (\<lambda>want. want \<in> d_name ` set (filter (\<lambda>d. d_labels d = []) descriptors)) smoke_wants" by code_simp
  then have "Contains metricsText want" if "want \<in> set smoke_wants" for want using assms that by (auto simp: list_all_iff)
  moreover have "Contains (concat mock_writes) ''[DONE]''" by code_simp
  ultimately have "smoke_checks [(200, concat mock_writes), (200, concat mock_writes)] [''u1'', ''u1''] metricsText = None"
    by (auto simp: smoke_checks_def list_ex_iff)
  then have "smoke_verdict (get_status ''/healthz'') [(200, concat mock_writes), (200, concat mock_writes)] [''u1'', ''u1''] metricsText True = None"
    by (simp add: smoke_verdict_def smoke_health_def smoke_shutdown_def get_status_def route(1) healthz_def)
  then show ?thesis using smoke_drive [of addr] route by (auto simp: smoke_post_def)
qed

end
