(* ===== verification/Accounting.thy ===== *)
theory Accounting
  imports Provenance
begin

text \<open>
  The books of the gateway: the Prometheus counters that \<open>handler.go\<close> keeps for response bodies and
  for session mappings, over every run of the whole gateway. A response body the handler wrapped is
  counted exactly once, as completed or as aborted, although three places count (\<open>finish\<close>,
  \<open>finalizeAtDone\<close> and \<open>finalizeStreamOnClose\<close>) and race; every message given to \<open>putMapping\<close> is
  counted once, as created or as an error. The store has to leave these counters alone, which is the
  contract \<open>quiet_store\<close>; the Redis store satisfies it over every client.
\<close>

section \<open>The counters\<close>

definition counts :: "Metrics \<Rightarrow> nat \<times> nat \<times> nat \<times> nat \<times> nat \<times> nat \<times> nat" where
  "counts m = (StreamCompleted m, StreamAborted m, StreamDuration m, FinalizeSuccess m, FinalizeError m,
     SessionMappingCreated m, SessionMappingError m)"

abbreviation metrics_of :: "'s gateway \<Rightarrow> Metrics" where
  "metrics_of g \<equiv> fst (world (gw_pool g))"

text \<open>The requests whose response body has ended or was finalized at [DONE].\<close>

definition settled :: "'s gateway \<Rightarrow> nat set" where
  "settled g = {i. \<exists>st. open_reqs g i = Some st \<and> (finished st \<or> earlyFinalized st)}"

text \<open>
  A body closed before its end leaves the decision how to count it to its goroutine (\<open>closing\<close>); the
  other goroutines may still map a message of a body that was counted (\<open>due\<close>).
\<close>

definition closing :: "(nat \<times> task) list \<Rightarrow> nat" where
  "closing ts = length (filter (\<lambda>x. snd x = FinalizeStreamOnClose) ts)"

definition due :: "(nat \<times> task) list \<Rightarrow> nat" where
  "due ts = length (filter (\<lambda>x. snd x \<noteq> FinalizeStreamOnClose) ts)"

lemma closing_simps [simp]:
  "closing [] = 0" "closing (xs @ ys) = closing xs + closing ys"
  "closing ((i, t) # xs) = of_bool (t = FinalizeStreamOnClose) + closing xs"
  by (simp_all add: closing_def)

lemma due_simps [simp]:
  "due [] = 0" "due (xs @ ys) = due xs + due ys" "due ((i, t) # xs) = of_bool (t \<noteq> FinalizeStreamOnClose) + due xs"
  by (simp_all add: due_def)

lemma pending_remove1:
  "(i, t) \<in> set ts \<Longrightarrow> closing ts = closing (remove1 (i, t) ts) + of_bool (t = FinalizeStreamOnClose)"
  "(i, t) \<in> set ts \<Longrightarrow> due ts = due (remove1 (i, t) ts) + of_bool (t \<noteq> FinalizeStreamOnClose)"
  by (induction ts) auto

text \<open>The goroutines that are pending, with those (\<open>us\<close>) that are just running.\<close>

definition pending :: "(nat \<times> task) list \<Rightarrow> 's gateway \<Rightarrow> (nat \<times> task) list" where
  "pending us g = tasks g @ running g @ us"

definition stream_books :: "(nat \<times> task) list \<Rightarrow> 's gateway \<Rightarrow> bool" where
  "stream_books us g \<longleftrightarrow> finite (settled g) \<and> StreamDuration (metrics_of g) = StreamCompleted (metrics_of g) \<and>
     StreamCompleted (metrics_of g) + StreamAborted (metrics_of g) + closing (pending us g) = card (settled g) \<and>
     length (mapped g) + due (pending us g) \<le> StreamCompleted (metrics_of g)"

definition mapping_books :: "nat \<Rightarrow> Metrics \<Rightarrow> bool" where
  "mapping_books n m \<longleftrightarrow> SessionMappingCreated m + SessionMappingError m = n \<and> FinalizeSuccess m = SessionMappingCreated m \<and>
     SessionMappingError m \<le> FinalizeError m"

definition books :: "(nat \<times> task) list \<Rightarrow> 's gateway \<Rightarrow> bool" where
  "books us g \<longleftrightarrow> stream_books us g \<and> mapping_books (length (mapped g)) (metrics_of g)"

lemmas books_defs = books_def stream_books_def mapping_books_def

text \<open>What the handler may do to the counters: \<open>c\<close> bodies completed, \<open>a\<close> aborted, \<open>d\<close> messages mapped.\<close>

definition accounted :: "nat \<Rightarrow> nat \<Rightarrow> nat \<Rightarrow> Metrics \<Rightarrow> Metrics \<Rightarrow> bool" where
  "accounted c a d m m' \<longleftrightarrow> StreamCompleted m' = StreamCompleted m + c \<and> StreamAborted m' = StreamAborted m + a \<and>
     StreamDuration m' = StreamDuration m + c \<and> (\<forall>n. mapping_books n m \<longrightarrow> mapping_books (n + d) m')"

lemma accounted_counts: "counts m' = counts m \<Longrightarrow> accounted 0 0 0 m m'"
  by (simp add: accounted_def counts_def mapping_books_def)

lemma accounted_trans: "accounted c a d m m1 \<Longrightarrow> accounted c' a' d' m1 m2 \<Longrightarrow> accounted (c + c') (a + a') (d + d') m m2"
  unfolding accounted_def by (auto simp: add.assoc)

lemma accounted_steps:
  "accounted 0 0 0 m (observe_finalize stats m)" "accounted 1 0 0 m (count_completed m)"
  "accounted 0 0 0 m (m\<lparr>FinalizeError := Suc (FinalizeError m)\<rparr>)" "accounted 0 0 0 m (m\<lparr>ResponseBytes := xs\<rparr>)"
  "accounted 0 1 0 m (m\<lparr>StreamAborted := Suc (StreamAborted m), FinalizeError := Suc (FinalizeError m)\<rparr>)"
  by (auto simp: accounted_def mapping_books_def observe_finalize_def count_completed_def)

lemma books_step:
  assumes "books us g" "accounted c a d (metrics_of g) (metrics_of g')" "length (mapped g') = length (mapped g) + d"
    and "settled g' = settled g \<and> e = 0 \<or> (\<exists>i. i \<notin> settled g \<and> settled g' = insert i (settled g) \<and> e = 1)"
    and "closing (pending vs g') + c + a = closing (pending us g) + e" "due (pending vs g') + d \<le> due (pending us g) + c"
  shows "books vs g'"
proof -
  have "finite (settled g')" "card (settled g') = card (settled g) + e"
    using assms(1,4) by (auto simp: books_def stream_books_def)
  moreover have "mapping_books (length (mapped g')) (metrics_of g')"
    using assms(1-3) by (simp add: books_def accounted_def)
  ultimately show ?thesis using assms(1-3,5,6) unfolding books_def stream_books_def accounted_def by linarith
qed

lemma books_new: "books [] (NewHandler (New, s))"
  by (simp add: books_defs settled_def pending_def NewHandler_def NewPool_def New_def)

lemma settled_same: "open_reqs g' = open_reqs g \<Longrightarrow> settled g' = settled g"
  by (simp add: settled_def)

lemma settled_upd:
  assumes "open_reqs g' = (open_reqs g)(i \<mapsto> st')"
  shows "settled g' = (if finished st' \<or> earlyFinalized st' then insert i (settled g) else settled g - {i})"
  using assms by (auto simp: settled_def)

lemma in_settled: "open_reqs g i = Some st \<Longrightarrow> i \<in> settled g \<longleftrightarrow> finished st \<or> earlyFinalized st"
  by (auto simp: settled_def)

lemma json_take_flags: "finished (json_take p st) = finished st" "earlyFinalized (json_take p st) = earlyFinalized st"
  by (auto simp: json_take_def split: option.splits)

lemma books_still:
  assumes "books us g" "accounted c a d (metrics_of g) (metrics_of g')" "open_reqs g' = open_reqs g" "length (mapped g') = length (mapped g) + d"
    and "closing (pending vs g') + c + a = closing (pending us g)" "due (pending vs g') + d \<le> due (pending us g) + c"
  shows "books vs g'"
  by (rule books_step [OF assms(1,2,4), where e = 0]) (use assms(5,6) settled_same [OF assms(3)] in simp_all)

section \<open>The end of a response body\<close>

text \<open>\<open>finish\<close> counts a body, or leaves that to the goroutine it starts, unless it was counted before.\<close>

lemma finish_accounted:
  assumes "finish st m = (us, st', m')"
  shows "if finished st \<or> earlyFinalized st then us = [] \<and> m' = m
    else \<exists>c a. accounted c a 0 m m' \<and> closing (map (Pair i) us) + c + a = 1 \<and> due (map (Pair i) us) \<le> c"
  using assms by (auto simp: finish_def Let_def accounted_def mapping_books_def split: if_splits)

lemma books_end_body:
  assumes "books [] g" "open_reqs g i = Some st" "finish (if e then st\<lparr>eof := True\<rparr> else st) (metrics_of g) = (us, st', m')"
  shows "books [] (end_body i (us, st', m') g)"
proof -
  let ?g = "end_body i (us, st', m') g"
  have s: "settled ?g = insert i (settled g)"
    using settled_upd [OF end_body_parts(3), of i us st' m' g] finish_finished [OF assms(3)] by simp
  have p: "metrics_of (end_body i (vs, u, n) g) = n" "mapped (end_body i (vs, u, n) g) = mapped g"
    "pending [] (end_body i (vs, u, n) g) = tasks g @ map (Pair i) vs @ running g" for vs u n
    by (simp_all add: end_body_def gw_defs pending_def)
  note f = finish_accounted [OF assms(3), of i] and i = in_settled [OF assms(2)]
  show ?thesis
  proof (cases "finished st \<or> earlyFinalized st")
    case True
    then have "us = []" "m' = metrics_of g" "settled ?g = settled g" using f s i by (auto split: if_splits)
    then show ?thesis by (intro books_step [OF assms(1) accounted_counts, where e = 0]) (simp_all add: p, simp_all add: pending_def)
  next
    case False
    then obtain c a where "accounted c a 0 (metrics_of g) m'" "closing (map (Pair i) us) + c + a = 1" "due (map (Pair i) us) \<le> c"
      using f by (auto split: if_splits)
    then show ?thesis using False s i
      by (intro books_step [OF assms(1), where e = 1 and c = c and a = a and d = 0]) (auto simp: p, simp_all add: pending_def)
  qed
qed

section \<open>A store that leaves the counters alone\<close>

locale quiet_store =
  fixes S :: "'s SessionStore" and P :: "'s TempPageStore"
  assumes get_counts: "ss_GetSession S ch sh (m, s) = (rg, m', s') \<Longrightarrow> counts m' = counts m"
    and put_counts: "ss_PutSession S ch sh x ttl (m, s) = (rp, m', s') \<Longrightarrow> counts m' = counts m"
    and put_page_counts: "ps_PutPage P rid n b ttl (m, s) = (ru, m', s') \<Longrightarrow> counts m' = counts m"
    and get_pages_counts: "ps_GetPages P rid (m, s) = (rs, m', s') \<Longrightarrow> counts m' = counts m"
    and delete_counts: "ps_DeletePages P rid (m, s) = (rd, m', s') \<Longrightarrow> counts m' = counts m"
begin

lemma flush_counts: "counts (fst (snd (flush_page P cfg j w))) = counts (fst w)"
proof -
  obtain m s where w: "w = (m, s)" by (cases w)
  obtain r m' s' where p: "ps_PutPage P (job_requestID j) (int (job_seq j)) (job_data j) (TTL cfg) (m, s) = (r, m', s')"
    by (cases "ps_PutPage P (job_requestID j) (int (job_seq j)) (job_data j) (TTL cfg) (m, s)")
  show ?thesis using put_page_counts [OF p] w p by (simp add: flush_page_def counts_def split: sum.splits)
qed

lemma Finalize_rest_counts: "counts (fst (snd (Finalize_rest P c w))) = counts (fst w)"
proof -
  obtain m s where w: "w = (m, s)" by (cases w)
  obtain r m1 s1 where g: "ps_GetPages P (requestID c) (m, s) = (r, m1, s1)" by (cases "ps_GetPages P (requestID c) (m, s)")
  obtain r2 m2 s2 where d: "ps_DeletePages P (requestID c) (m1, s1) = (r2, m2, s2)" by (cases "ps_DeletePages P (requestID c) (m1, s1)")
  show ?thesis using get_pages_counts [OF g] delete_counts [OF d] w g d by (simp add: Finalize_rest_def Let_def split: sum.splits)
qed

lemma pool_step_counts:
  assumes "pool_step P cfg n pl s = Some s'"
  shows "counts (fst (world s')) = counts (fst (world s))"
proof (cases pl)
  case (LPut k)
  obtain bad w where "flush_page P cfg (taken s ! k) (world s) = (bad, w)" by (cases "flush_page P cfg (taken s ! k) (world s)")
  then show ?thesis using assms LPut flush_counts [of cfg "taken s ! k" "world s"]
    by (auto simp: put_step_def Let_def pool_defs split: if_splits)
next
  case (LFinEnd i)
  from assms [unfolded LFinEnd] obtain c r w where "Finalize_rest P c (world s) = (r, w)" "world s' = w"
    by (elim step_FinEnd) simp
  then show ?thesis using Finalize_rest_counts [of c "world s"] by simp
qed (use assms in \<open>auto simp: write_step_def fin_begin_step_def pool_defs Let_def split: option.splits if_splits prod.splits list.splits\<close>)

lemma books_pool:
  assumes "books us g" "pool_do h pl g = Some g'" "h_pages h = P"
  shows "books us g'"
proof (rule books_still [OF assms(1) accounted_counts])
  show "counts (metrics_of g') = counts (metrics_of g)"
    using assms(2,3) pool_step_counts by (auto simp: pool_do_def)
qed (use pool_do_other(1) [OF assms(2)] in \<open>simp_all add: pending_def\<close>)

lemma putMapping_accounted: "accounted 0 0 1 m (fst (putMapping S cfg st msg (m, s)))"
proof -
  let ?put = "ss_PutSession S (clientHash st) (HashBytes (FullState (canonMsgs st) msg)) (sessionID st) (Session_TTL cfg) (m, s)"
  obtain r m1 s1 where p: "?put = (r, m1, s1)" by (cases ?put)
  show ?thesis using p put_counts [OF p]
    by (auto simp: putMapping_def Let_def counts_def accounted_def mapping_books_def split: sum.splits)
qed

lemma finalize_accounted:
  assumes "\<not> earlyFinalized st" "k = length (mapped_now (fst out))"
  shows "accounted 0 0 k (fst w) (fst (finalizeStream S cfg st out w))"
    and "accounted k (1 - k) k (fst w) (fst (finalizeStreamOnClose S cfg st out w))"
    and "accounted k 0 k (fst w) (fst (snd (finalizeAtDone S cfg st out w)))"
proof -
  obtain r stats where out: "out = (r, stats)" by (cases out)
  obtain m s where w: "w = (m, s)" by (cases w)
  let ?m = "observe_finalize stats m"
  note o = accounted_steps(1) [of m stats]
  have e: "accounted 0 0 0 m (?m\<lparr>FinalizeError := Suc (FinalizeError ?m)\<rparr>)"
    using accounted_trans [OF o accounted_steps(3)] by simp
  have ab: "accounted 0 1 0 m (?m\<lparr>StreamAborted := Suc (StreamAborted ?m), FinalizeError := Suc (FinalizeError ?m)\<rparr>)"
    using accounted_trans [OF o accounted_steps(5)] by simp
  have p: "accounted 0 0 1 m (fst (putMapping S cfg st msg (?m, s)))" for msg
    using accounted_trans [OF o putMapping_accounted] by simp
  have q: "accounted 1 0 1 m (fst (putMapping S cfg st msg (count_completed ?m, s)))" for msg
    using accounted_trans [OF accounted_trans [OF o accounted_steps(2)] putMapping_accounted] by simp
  show "accounted 0 0 k (fst w) (fst (finalizeStream S cfg st out w))"
    using assms e p by (cases r) (simp_all add: out w finalizeStream_def Let_def mapped_now_def)
  show "accounted k (1 - k) k (fst w) (fst (finalizeStreamOnClose S cfg st out w))"
    using assms ab q by (cases r) (simp_all add: out w finalizeStreamOnClose_def Let_def mapped_now_def)
  show "accounted k 0 k (fst w) (fst (snd (finalizeAtDone S cfg st out w)))"
    using assms(2) e q by (cases r) (simp_all add: out w finalizeAtDone_def Let_def mapped_now_def)
qed

lemma finalizeJSON_accounted:
  "accounted 0 0 (length (mapped_now (json_assistant st))) (fst w) (fst (finalizeJSON S cfg st w))"
proof -
  obtain m s where w: "w = (m, s)" by (cases w)
  have bad: "accounted 0 0 0 m (m\<lparr>FinalizeError := Suc (FinalizeError m)\<rparr>)" for m by (rule accounted_steps(3))
  have body: "accounted 0 0 0 m (m\<lparr>ResponseBytes := xs, FinalizeError := Suc (FinalizeError m)\<rparr>)" for xs
    using accounted_trans [OF accounted_steps(4) accounted_steps(3), of m xs] by simp
  have put: "accounted 0 0 1 m (fst (putMapping S cfg st msg (m\<lparr>ResponseBytes := xs\<rparr>, s)))" for xs msg
    using accounted_trans [OF accounted_steps(4) putMapping_accounted] by simp
  show ?thesis using bad body put
    by (simp add: w finalizeJSON_def json_assistant_def Let_def mapped_now_def split: option.splits sum.splits)
qed

text \<open>The handler's code after \<open>Finalize\<close> settles what its goroutine owed.\<close>

lemma mapped_now_le: "length (mapped_now r) \<le> 1"
  by (simp add: mapped_now_def split: sum.splits)

lemma books_run_stream:
  assumes "books [(i, t)] g" "\<not> earlyFinalized st" "t \<noteq> FinalizeJSON" "h_sessions h = S"
  shows "books [] (run_stream h i t st g)"
proof -
  define k where k: "k = length (mapped_now (fst (last (results (gw_pool g) i))))"
  note f = finalize_accounted(1,2) [OF assms(2) k, of "world (gw_pool g)" "h_cfg h"]
  have p: "pending us (run_stream h i t st g) = pending us g" for us by (simp add: pending_def)
  have m: "length (mapped (run_stream h i t st g)) = length (mapped g) + k" by (simp add: mapped_runs k)
  note le = mapped_now_le [of "fst (last (results (gw_pool g) i))", folded k]
  show ?thesis
  proof (cases "t = FinalizeStream")
    case True
    then have "accounted 0 0 k (metrics_of g) (metrics_of (run_stream h i t st g))" using f by (simp add: run_stream_parts assms(4))
    then show ?thesis by (rule books_still [OF assms(1)]) (use le True m in \<open>simp_all add: p run_stream_parts\<close>, simp_all add: pending_def)
  next
    case False
    then have "accounted k (1 - k) k (metrics_of g) (metrics_of (run_stream h i t st g))" using f by (simp add: run_stream_parts assms(4))
    moreover have "t = FinalizeStreamOnClose" using False assms(3) by (cases t) simp_all
    ultimately show ?thesis
      by (intro books_still [OF assms(1)]) (use le m in \<open>simp_all add: p run_stream_parts\<close>, simp_all add: pending_def)
  qed
qed

lemma books_run_json:
  assumes "books [(i, FinalizeJSON)] g" "h_sessions h = S"
  shows "books [] (run_json h i st g)"
proof (rule books_still [OF assms(1)])
  show "accounted 0 0 (length (mapped_now (json_assistant st))) (metrics_of g) (metrics_of (run_json h i st g))"
    using finalizeJSON_accounted [of st "world (gw_pool g)" "h_cfg h"] by (simp add: run_json_parts assms(2))
qed (use mapped_now_le [of "json_assistant st"] in \<open>simp_all add: run_json_parts mapped_runs pending_def\<close>)

lemma books_run_done:
  assumes "books [] g" "open_reqs g i = Some st" "\<not> finished st" "\<not> earlyFinalized st" "h_sessions h = S"
  shows "books [] (run_done h i st g)"
proof -
  let ?r = "fst (last (results (gw_pool g) i))"
  define k where k: "k = length (mapped_now ?r)"
  have a: "accounted k 0 k (metrics_of g) (metrics_of (run_done h i st g))"
    using finalize_accounted(3) [OF assms(4) k, of "world (gw_pool g)" "h_cfg h"] by (simp add: run_done_parts assms(5))
  have s: "settled (run_done h i st g) = (if isl ?r then settled g - {i} else insert i (settled g))" "i \<notin> settled g"
    using settled_upd [OF run_done_parts(3), of h i st g] assms(3,4) in_settled [OF assms(2)] by (simp_all add: finalizeAtDone_state)
  have "k = (if isl ?r then 0 else 1)" by (simp add: k mapped_now_def split: sum.splits)
  then show ?thesis using s
    by (intro books_step [OF assms(1) a, where e = k]) (auto simp: mapped_runs pending_def simp flip: k split: if_splits)
qed

section \<open>Every step keeps the books\<close>

lemma books_task:
  assumes "books [] g" "(i, t) \<in> set (tasks g)" "task_step h i t st g = Some g'" "\<not> earlyFinalized st" "h_sessions h = S" "h_pages h = P"
  shows "books [] g'"
proof -
  let ?g = "g\<lparr>tasks := remove1 (i, t) (tasks g)\<rparr>"
  have b: "books [(i, t)] ?g"
    by (rule books_still [OF assms(1) accounted_counts]) (simp_all add: pending_def pending_remove1 [OF assms(2)])
  show ?thesis
  proof (cases "t = FinalizeJSON")
    case True
    then have "g' = run_json h i st ?g" using assms(3) by (simp add: task_step_def)
    with b True books_run_json [OF _ assms(5)] show ?thesis by simp
  next
    case False
    then obtain g1 where g1: "pool_do h (LFinBegin i) ?g = Some g1"
      "g' = (if phases (gw_pool g1) i = Ended then run_stream h i t st g1 else g1\<lparr>running := (i, t) # running g1\<rparr>)"
      using assms(3,4) by (auto simp: task_step_def Let_def)
    have b1: "books [(i, t)] g1" by (rule books_pool [OF b g1(1) assms(6)])
    have "books [] (g1\<lparr>running := (i, t) # running g1\<rparr>)"
      by (rule books_still [OF b1 accounted_counts]) (simp_all add: pending_def)
    with books_run_stream [OF b1 assms(4) False assms(5)] show ?thesis using g1(2) by simp
  qed
qed

lemma books_open:
  assumes "open_step h l st g = Some g'" "open_reqs g (gtarget l) = Some st" "life_of g (gtarget l)" "books [] g"
    and "h_sessions h = S" "h_pages h = P"
  shows "books [] g'"
proof (cases l)
  case (GRead i p)
  let ?g = "g\<lparr>received := (received g)(i := received g i @ p)\<rparr>"
  have b: "books [] ?g" by (rule books_still [OF assms(4) accounted_counts]) (simp_all add: pending_def)
  have "read_step h i p st g = Some g'" "\<not> finished st" using assms(1) GRead by (auto split: if_splits)
  from this(1) show ?thesis
  proof (cases rule: read_step_cases)
    case 3
    have s: "settled g' = settled g" unfolding 3 using assms(2) GRead by (auto simp: settled_def set_req_def json_take_flags)
    show ?thesis by (rule books_step [OF assms(4) accounted_counts, where e = 0]) (use s in \<open>simp_all add: 3 set_req_def pending_def\<close>)
  qed (use b books_pool [OF b _ assms(6)] in simp_all)
next
  case (GEof i)
  then show ?thesis using assms(1,2) books_end_body [OF assms(4), of i st True]
    by (cases "finish (st\<lparr>eof := True\<rparr>) (metrics_of g)") (auto simp: at_eof_def split: if_splits)
next
  case (GClose i)
  then show ?thesis using assms(1,2) books_end_body [OF assms(4), of i st False]
    by (cases "finish st (metrics_of g)") (auto simp: body_Close_def split: if_splits)
next
  case (GDone i)
  obtain g1 where d: "pool_do h (LFinBegin i) g = Some g1" "in_callback (phases (gw_pool g) i)"
    and g': "g' = (if phases (gw_pool g1) i = Ended then run_done h i st g1 else g1)"
    using assms(1) GDone by (cases "phases (gw_pool g) i = InCallback") (auto simp: in_callback_def)
  note b = books_pool [OF assms(4) d(1) assms(6)]
  have "open_reqs g1 i = Some st" "\<not> finished st" "\<not> earlyFinalized st"
    using pool_do_other(1) [OF d(1)] assms(2,3) d(2) GDone by (auto simp: life_of_def life_def)
  from b books_run_done [OF b this assms(5)] show ?thesis using g' by simp
next
  case (GDoneEnd i)
  obtain g1 where d: "pool_do h (LFinEnd i) g = Some g1" "in_callback (phases (gw_pool g) i)" and g': "g' = run_done h i st g1"
    using assms(1) GDoneEnd by (cases "phases (gw_pool g) i = Waiting True") (auto simp: in_callback_def)
  note b = books_pool [OF assms(4) d(1) assms(6)]
  have "open_reqs g1 i = Some st" "\<not> finished st" "\<not> earlyFinalized st"
    using pool_do_other(1) [OF d(1)] assms(2,3) d(2) GDoneEnd by (auto simp: life_of_def life_def)
  from books_run_done [OF b this assms(5)] show ?thesis using g' by simp
next
  case (GTask i t)
  have t: "(i, t) \<in> set (tasks g)" "task_step h i t st g = Some g'" using assms(1) GTask by (auto split: if_splits)
  then have "t \<in> set (mine i (tasks g))" by (simp add: mine_member)
  then have "\<not> earlyFinalized st" using assms(2,3) GTask by (auto simp: life_of_def life_def)
  with books_task [OF assms(4) t] assms(5,6) show ?thesis by blast
next
  case (GTaskEnd i t)
  let ?g = "g\<lparr>running := remove1 (i, t) (running g)\<rparr>"
  obtain g1 where d: "pool_do h (LFinEnd i) ?g = Some g1" "(i, t) \<in> set (running g)" and g': "g' = run_stream h i t st g1"
    using assms(1) GTaskEnd by (auto split: if_splits)
  have k: "books [(i, t)] ?g"
    by (rule books_still [OF assms(4) accounted_counts]) (simp_all add: pending_def pending_remove1 [OF d(2)])
  have m: "t \<in> set (mine i (running g))" using d(2) by (simp add: mine_member)
  then have "\<not> earlyFinalized st" "t \<noteq> FinalizeJSON" using assms(2,3) GTaskEnd by (auto simp: life_of_def life_def)
  from books_run_stream [OF books_pool [OF k d(1) assms(6)] this assms(5)] show ?thesis using g' by simp
qed (use assms(1) in auto)

lemma Resolve_counts:
  assumes "Resolve S fresh ch ms cs (m, s) = (dec, m', s')"
  shows "counts m' = counts m"
proof -
  obtain r m1 s1 where g: "ss_GetSession S ch (HistoryHash (take (length ms - 1) ms)) (m, s) = (r, m1, s1)"
    by (cases "ss_GetSession S ch (HistoryHash (take (length ms - 1) ms)) (m, s)")
  show ?thesis using assms get_counts [OF g] g
    by (auto simp: Resolve_def Let_def SessionStoreErrorInc_def counts_def split: if_splits sum.splits option.splits)
qed

lemma ServeHTTP_counts:
  assumes "ServeHTTP S cfg rid fresh r (m, s) = (rep, m', s')"
  shows "counts m' = counts m"
proof -
  have c: "counts (count_request kind m) = counts m" for kind by (simp add: counts_def count_request_def)
  have p: "counts m2 = counts m1" if "prepare S fresh r body st (m1, s1) = (x, m2, s2)" for body st m1 s1 x m2 s2
    using that by (auto simp: prepare_def Let_def dest!: Resolve_counts split: option.splits if_splits sum.splits prod.splits)
  show ?thesis using assms c by (auto simp: ServeHTTP_unfold dest: p split: if_splits option.splits prod.splits)
qed

lemma books_request:
  assumes "gw_step h (GRequest i rid fresh r) g = Some g'" "books [] g" "h_sessions h = S"
  shows "books [] g'"
proof -
  obtain m d where w: "world (gw_pool g) = (m, d)" by (cases "world (gw_pool g)")
  obtain rep m' d' where sv: "ServeHTTP S (h_cfg h) rid fresh r (m, d) = (rep, m', d')"
    by (cases "ServeHTTP S (h_cfg h) rid fresh r (m, d)")
  have "world (gw_pool g') = (m', d') \<and> mapped g' = mapped g \<and> open_reqs g' = open_reqs g \<and> pending [] g' = pending [] g"
    using assms(1) sv w
    by (auto simp: request_step_def assms(3) put_world_def pending_def split: if_splits reply.splits option.splits)
  then show ?thesis using w ServeHTTP_counts [OF sv] by (intro books_still [OF assms(2) accounted_counts]) simp_all
qed

lemma books_response:
  assumes "response_step h i status ct st g = Some g'" "forwarded g i = Some st" "life_of g i" "books [] g" "h_pages h = P"
  shows "books [] g'"
proof -
  let ?g = "g\<lparr>forwarded := (forwarded g)(i := None)\<rparr>"
  have st: "idle_state st" "open_reqs g i = None" using assms(2,3) by (auto simp: life_of_def life_def)
  have b: "books [] ?g" by (rule books_still [OF assms(4) accounted_counts]) (simp_all add: pending_def)
  have new: "books [] (set_req i t g1)" if "books [] g1" "open_reqs g1 i = None" "\<not> finished t" "\<not> earlyFinalized t" for t g1
    by (rule books_step [OF that(1) accounted_counts, where e = 0])
      (use that settled_upd [of "set_req i t g1" g1 i t] in \<open>auto simp: set_req_def pending_def settled_def\<close>)
  obtain kind t where mr: "modifyResponse status ct (Some st) = (kind, Some t)" by (fastforce simp: modifyResponse_def)
  then have t: "\<not> finished t" "\<not> earlyFinalized t" using st(1) by (auto simp: modifyResponse_def idle_state_def split: if_splits)
  show ?thesis
  proof (cases kind)
    case StreamBody
    then obtain g1 where g1: "pool_do h (LNew i (st_requestID t) True) ?g = Some g1" "g' = set_req i t g1"
      using assms(1) mr by (auto simp: response_step_def Let_def)
    then show ?thesis using new [OF books_pool [OF b g1(1) assms(5)] _ t] pool_do_other(1) [OF g1(1)] st(2) by simp
  qed (use assms(1) mr b new [OF b _ t] st(2) in \<open>auto simp: response_step_def Let_def\<close>)
qed

lemma gw_step_books:
  assumes "gw_step h l g = Some g'" "\<And>i. life_of g i" "books [] g" "h_sessions h = S" "h_pages h = P"
  shows "books [] g'"
proof (cases "\<exists>st. open_reqs g (gtarget l) = Some st \<and> open_step h l st g = Some g'")
  case True
  then show ?thesis using books_open [OF _ _ assms(2-5)] by blast
next
  case no: False
  show ?thesis
  proof (cases l)
    case (GRequest i rid fresh r)
    show ?thesis by (rule books_request [OF assms(1) [unfolded GRequest] assms(3,4)])
  next
    case (GUpstreamError i)
    then have "g' = g\<lparr>forwarded := (forwarded g)(i := None)\<rparr>" using assms(1) by (auto split: if_splits)
    then show ?thesis by (intro books_still [OF assms(3) accounted_counts]) (simp_all add: pending_def)
  next
    case (GResponse i status ct)
    then obtain st where "forwarded g i = Some st" "response_step h i status ct st g = Some g'"
      using assms(1) by (auto split: option.splits)
    then show ?thesis using books_response assms(2,3,5) by blast
  qed (use no assms(1) books_pool [OF assms(3) _ assms(5)] in \<open>auto split: option.splits\<close>)
qed

lemma gw_reach_books:
  assumes "gw_reach h (New, s0) g" "h_sessions h = S" "h_pages h = P"
  shows "books [] g"
  using assms(1)
proof (induction rule: gw_reach.induct)
  case start
  show ?case by (rule books_new)
next
  case (step g l g')
  then show ?case using gw_step_books [OF _ _ _ assms(2,3)] gw_reach_life by blast
qed

end

text \<open>The Redis store, over every client: it counts latencies and its own errors only.\<close>

lemma observe_counts [simp]: "counts (observe op r m) = counts m"
  by (simp add: observe_def SessionStoreErrorInc_def Let_def counts_def split: sum.splits redis_error.splits)

interpretation redis: quiet_store "redis_sessions c" "redis_pages c" for c
  by unfold_locales
    (auto simp: redis_sessions_def redis_pages_def GetSession_def PutSession_def PutPage_def GetPages_def DeletePages_def Let_def split: prod.splits)

text \<open>A request whose message was mapped is settled.\<close>

lemma mapped_settled:
  assumes "life_of g i" "mine i (mapped g) \<noteq> []"
  shows "i \<in> settled g"
proof (cases "open_reqs g i")
  case None
  then show ?thesis using assms by (auto simp: life_of_def life_def)
next
  case (Some st)
  then have "finished st \<or> earlyFinalized st" using assms by (auto simp: life_of_def life_def)
  then show ?thesis using Some by (simp add: in_settled)
qed

section \<open>Properties\<close>

text \<open>
  C5. Every response body the handler wrapped is counted exactly once: at any moment, the bodies that
  have ended or were finalized at [DONE] are those counted as completed, those counted as aborted
  and those closed early whose goroutine is still pending; and one duration is observed per completed body.
\<close>

theorem streams_counted_once:
  assumes "h_sessions h = redis_sessions c" "h_pages h = redis_pages c" "gw_reach h (New, s0) g"
  shows "finite (settled g) \<and>
    StreamCompleted (metrics_of g) + StreamAborted (metrics_of g) + closing (tasks g @ running g) = card (settled g) \<and>
    StreamDuration (metrics_of g) = StreamCompleted (metrics_of g)"
  using redis.gw_reach_books [OF assms(3,1,2)] by (simp add: books_def stream_books_def pending_def)

theorem streams_counted_once_witness:
  "\<exists>g. gw_run demo_handler demo_json_steps (NewHandler (New, demo_db)) = Some g \<and> 0 \<in> settled g \<and>
    StreamCompleted (metrics_of g) + StreamAborted (metrics_of g) + closing (tasks g @ running g) = card (settled g) \<and> 0 < card (settled g)"
proof -
  obtain g where g: "gw_run demo_handler demo_json_steps (NewHandler (New, demo_db)) = Some g" "mapped g = [(0, echo_canonical ''A'')]"
    using demo_json_run by blast
  have reach: "gw_reach demo_handler (New, demo_db) g" by (rule gw_reach_run [OF gw_reach.start g(1)])
  have "mine 0 (mapped g) \<noteq> []" by (simp add: g(2))
  then have "0 \<in> settled g" using gw_reach_life [OF reach] mapped_settled by blast
  then show ?thesis using g(1) streams_counted_once [OF _ _ reach, of mem_redis]
    by (auto simp: demo_handler_def card_gt_0_iff)
qed

text \<open>
  C6. The counters of session mappings agree with what was mapped: each message given to \<open>putMapping\<close>
  is counted once, as created or as an error; a success of finalization is a created mapping,
  every mapping error is also a finalization error, and no more messages are mapped than bodies completed.
\<close>

theorem mappings_counted:
  assumes "h_sessions h = redis_sessions c" "h_pages h = redis_pages c" "gw_reach h (New, s0) g"
  shows "SessionMappingCreated (metrics_of g) + SessionMappingError (metrics_of g) = length (mapped g) \<and>
    FinalizeSuccess (metrics_of g) = SessionMappingCreated (metrics_of g) \<and>
    SessionMappingError (metrics_of g) \<le> FinalizeError (metrics_of g) \<and>
    length (mapped g) \<le> StreamCompleted (metrics_of g)"
  using redis.gw_reach_books [OF assms(3,1,2)] by (simp add: books_defs)

theorem mappings_counted_witness:
  "\<exists>g. gw_run demo_handler demo_json_steps (NewHandler (New, demo_db)) = Some g \<and>
    SessionMappingCreated (metrics_of g) + SessionMappingError (metrics_of g) = 1 \<and> 0 < StreamCompleted (metrics_of g)"
proof -
  obtain g where g: "gw_run demo_handler demo_json_steps (NewHandler (New, demo_db)) = Some g" "mapped g = [(0, echo_canonical ''A'')]"
    using demo_json_run by blast
  have h: "h_sessions demo_handler = redis_sessions mem_redis" "h_pages demo_handler = redis_pages mem_redis"
    by (simp_all add: demo_handler_def)
  from mappings_counted [OF h gw_reach_run [OF gw_reach.start g(1)]] show ?thesis using g by force
qed

end
