(* ===== verification/Spec2Isabelle.thy ===== *)
theory Spec2Isabelle
  imports Smoke Accounting
begin

text \<open>
  OPGate, a reverse proxy in front of an OpenAI-compatible API (Go sources under \<open>src/\<close>). It gives every
  conversation a stable \<open>x-opencode-session\<close> header although clients send none: the state of a
  conversation is hashed, and Redis maps the hash of what the client will send as history in its next turn to the
  session of this turn. To know that history the gateway has to rebuild the assistant message
  from the response it forwards, which it collects in memory and spills page by page to Redis.

  \<^bold>\<open>Parts and theories.\<close>
  \<^item> Prelude, Utf8, Json, Decode, Sha256, GoNum: what the program uses of the Go language and its
    standard library (strings as byte lists, \<open>range\<close> over runes, \<open>encoding/json\<close>, \<open>crypto/sha256\<close>,
    \<open>strconv\<close> and \<open>time\<close> number parsing), each function under its Go name.
  \<^item> Render: reading back what a string writer wrote, as the interface \<open>string_writer\<close>.
  \<^item> Canon: \<open>internal/canon\<close> (canon.go, hash.go), canonical JSON and the state hashes.
  \<^item> Sse: \<open>internal/sse\<close> (sse.go), the event scanner with its call-back.
  \<^item> OpenAI: \<open>internal/openai\<close> (request.go, assistant.go), the messages of a request and the assistant
    message of a streamed or complete response.
  \<^item> MetricsModel: \<open>internal/metrics\<close> (metrics.go), the counters and the metrics handed to the registry.
  \<^item> Store: \<open>internal/store\<close> (store.go, redis.go), the two storage interfaces as the locales
    \<open>session_store\<close> and \<open>temp_page_store\<close>, joined in \<open>gateway_store\<close>; the operations of
    \<open>RedisStore\<close> provide them over any client that satisfies \<open>redis_client\<close>, and an
    in-memory database with injected faults is such a client.
  \<^item> Session: \<open>internal/session\<close> (resolver.go).
  \<^item> Collector: \<open>internal/collector\<close> (collector.go), each operation as a function and the pool with its
    goroutines as the transition system \<open>pool_step\<close>.
  \<^item> Config: \<open>internal/config\<close> (config.go).
  \<^item> Proxy: \<open>internal/proxy\<close> (handler.go), each function of the handler.
  \<^item> Gateway: the handler with all requests, goroutines, the pool and the store as one transition system
    \<open>gw_step\<close>; a step is one call from outside or one piece of code between two waits.
  \<^item> Provenance: where the session mappings come from, over the contract \<open>shared_store\<close> (a
    \<open>gateway_store\<close> whose pages and mappings do not disturb each other).
  \<^item> Accounting: the counters of response bodies and mappings against what the gateway did, over the
    contract \<open>quiet_store\<close> (a store that leaves these counters alone), which the Redis store satisfies.
  \<^item> Service: the life of the workers, the wait for the finalize goroutines and \<open>cmd/ocgate/main.go\<close>.
  \<^item> Smoke: the smoke test \<open>scripts/smoke/main.go\<close> with the modelled gateway in place of the process; its
    run serves as the example in which a session is resolved again.

  \<^bold>\<open>State.\<close> A Go struct is a record and its methods map it to the updated record. An operation
  that talks to the store threads a pair of the metrics and the state of the store. Errors are
  values: a sum with the error on the left, or an option. Collectors have addresses (numbers), since
  queued jobs point at them. Three histories in the state of the gateway (bytes received, bytes
  accepted, messages mapped) serve only to state properties.

  \<^bold>\<open>What is shown.\<close>
  \<^item> Canonical JSON: equal texts for equal values and only for them, independence of the iteration order
    of maps, a round trip of strings, the exact condition for an error; the hash identifies the
    messages up to a collision of SHA-256.
  \<^item> Streams: the scanner refines the declarative split into events, the accumulator refines a fold over
    the choices, and the message rebuilt from a stream of text fragments is the message a client echoes.
  \<^item> Storage: what is read after a write, on every error path, and isolation of keys.
  \<^item> Pool: bounds on pages and tails, progress of the workers, detection of the sentinel however the
    bytes are cut, that the finalized payload is the accepted bytes in every interleaving unless a page fails, and
    what is extracted when a page is lost during the wait; \<open>WaitFinalize\<close> and \<open>Stop\<close> return.
  \<^item> Handler: requests are forwarded intact (reading consumes the body, and it is put back) with the
    resolved session, oversized ones rejected; a response is mapped at most once and only when it is complete:
    from the accepted bytes, which begin the response received, with the sentinel in them; the next turn of a conversation resolves to the same session, and a session is
    never resolved for another client or another conversation (below).
  \<^item> Metrics: all metrics register; every response body is counted exactly once as completed or aborted
    and every message given to \<open>putMapping\<close> exactly once as created or failed.
  \<^item> Configuration: exact decoding of durations and sizes and where it is not exact; an
    accepted configuration bounds the pages and tails the gateway holds in memory (below).

  \<^bold>\<open>Bounds.\<close> Recursions follow the data or carry a termination proof. Two things bound the JSON
  decoder: the input, which is also its measure, and the nesting limit of 10000 of the Go decoder. Page numbers are
  Go \<open>int\<close>s, which have 64 bits throughout (the 32-bit builds are not modelled); the theorems about payloads ask for fewer than \<open>2 ^ 63\<close> pages (\<open>small\<close>), and
  \<open>gw_run_seq\<close> shows that a run of \<open>n\<close> steps stays below \<open>n\<close>. 64-bit wrap-around is written out where
  the code can reach it: seconds in a duration and the limit of \<open>readBody\<close>.

  \<^bold>\<open>Not modelled.\<close> The passing of time: a timeout is an error the store may return at any call, the
  expiry of keys is not modelled, the timeout that \<open>RedisStore\<close> holds is only kept, and whether a bounded wait of the shutdown ended is an argument. Log
  output. \<open>net/http\<close> and \<open>httputil.ReverseProxy\<close> below the calls they make on the handler, with the
  transport that \<open>NewHandler\<close> clones. The libraries go-redis, prometheus, yaml and uuid and the function
  \<open>url.Parse\<close>, which are arguments. The help texts of metrics. In the smoke test: processes, ports and sleeps.
\<close>

section \<open>Properties\<close>

text \<open>
  C8. An accepted configuration bounds the response bytes the gateway holds: with any store, in any state that
  any interleaving of requests, responses, goroutines and workers can reach, at most
  \<open>max_pending_pages\<close> pages wait, at most \<open>workers\<close> pages are being written, and every
  response in progress holds less than \<open>page_size\<close> bytes in its tail.
\<close>

theorem accepted_config_bounds_memory:
  assumes "Load parse decode file = Inr cfg" "gw_reach (gateway_of c cfg) w0 g"
  shows "int (length (queue (gw_pool g))) \<le> rc_MaxPendingPages (cfg_ResponseCache cfg) \<and>
    int (length (taken (gw_pool g))) \<le> Workers (cfg_ResponseCache cfg) \<and>
    (colls (gw_pool g) i = Some col \<longrightarrow> int (length (tail col)) < rc_PageSize (cfg_ResponseCache cfg))"
proof -
  note v = accepted_pool_config [OF assms(1)]
  have b: "length (queue (gw_pool g)) \<le> MaxPendingPages (pool_config cfg)"
    "length (taken (gw_pool g)) \<le> nat (Workers (cfg_ResponseCache cfg))"
    "colls (gw_pool g) i = Some col \<Longrightarrow> length (tail col) < PageSize (pool_config cfg)"
    using accepted_gateway_bounded [OF assms] by (auto simp: bounded_def)
  have "int (length (queue (gw_pool g))) \<le> rc_MaxPendingPages (cfg_ResponseCache cfg)" using b(1) v(3) by linarith
  moreover have "int (length (taken (gw_pool g))) \<le> Workers (cfg_ResponseCache cfg)" using b(2) v(4) by linarith
  ultimately show ?thesis using b(3) v(2) by force
qed

theorem accepted_config_bounds_memory_witness:
  "\<exists>g col. gw_run (gateway_of mem_redis demo_config) demo_prefix (NewHandler (New, demo_db)) = Some g \<and>
    length (taken (gw_pool g)) = 1 \<and> int (length (taken (gw_pool g))) \<le> 1 \<and> int (length (queue (gw_pool g))) \<le> 8 \<and>
    colls (gw_pool g) 0 = Some col \<and> int (length (tail col)) < 64"
proof -
  have v: "rc_MaxPendingPages (cfg_ResponseCache demo_config) = 8" "Workers (cfg_ResponseCache demo_config) = 1"
    "rc_PageSize (cfg_ResponseCache demo_config) = 64"
    by (simp_all add: demo_config_def Default_def)
  obtain g col where g: "gw_run (gateway_of mem_redis demo_config) demo_prefix (NewHandler (New, demo_db)) = Some g"
    "length (taken (gw_pool g)) = 1" "colls (gw_pool g) 0 = Some col"
    using demo_prefix_run by blast
  from accepted_config_bounds_memory [OF demo_load gw_reach_run [OF gw_reach.start g(1)], of 0 col] g show ?thesis
    unfolding v by blast
qed

text \<open>
  C1. Sessions are never mixed up. In any state the gateway can reach from an empty database,
  whatever the interleaving and whichever commands of Redis fail, when a request is answered with a
  session from the store, then an earlier request of the same client (same credential) was served
  with that session, and its conversation, its messages followed by the assistant message mapped for it, is exactly
  the history of the new request, unless SHA-256 collides on the two histories.
\<close>

theorem resolved_session_provenance:
  assumes "redis_client c strs hashes" "\<And>k. strs s0 k = None" "h_sessions h = redis_sessions c" "h_pages h = redis_pages c"
    and "gw_reach h (m0, s0) g"
    and "ServeHTTP (h_sessions h) (h_cfg h) rid fresh r (world (gw_pool g)) = (Proxy r' (Some st), w)" "source st = SourceResolved"
  shows "\<exists>i st1 a. (i, a) \<in> set (mapped g) \<and> open_reqs g i = Some st1 \<and> clientHash st1 = clientIdentity (Header r) \<and>
    sessionID st = sessionID st1 \<and>
    (butlast (canonMsgs st) = canonMsgs st1 @ [a] \<or>
     (MessageArray (butlast (canonMsgs st)) \<noteq> FullState (canonMsgs st1) a \<and>
      sum256 (MessageArray (butlast (canonMsgs st))) = sum256 (FullState (canonMsgs st1) a)))"
proof -
  let ?ch = "clientIdentity (Header r)" and ?hh = "HistoryHash (butlast (canonMsgs st))"
  note store = redis_client.redis_shared_store [OF assms(1)]
  obtain m d where w0: "world (gw_pool g) = (m, d)" by (cases "world (gw_pool g)")
  obtain m' d' where w: "w = (m', d')" by (cases w)
  obtain body q where p: "prepare (redis_sessions c) fresh r body (new_reqState rid) (count_request ''chat'' m, d) = ((q, st), m', d')"
    using assms(6) [unfolded w0 w assms(3)] by (rule ServeHTTP_ProxyD)
  note res = prepare_resolved [OF p assms(7)]
  have nc: "no_colon ?ch" by (rule clientIdentity_no_colon)
  from res obtain m1 d1 where get: "ss_GetSession (redis_sessions c) ?ch ?hh (count_request ''chat'' m, d) = (Inr (Some (sessionID st)), m1, d1)"
    by auto
  have "db_mapping strs d (?ch, ?hh) = Some (sessionID st)"
    using session_store.get_result [OF redis_client.redis_session_store [OF assms(1)] get nc] by simp
  moreover have inv: "sound_reqs no_colon g \<and> (\<forall>ch k sid. no_colon ch \<longrightarrow> db_mapping strs (snd (world (gw_pool g))) (ch, k) = Some sid \<longrightarrow> vouched g ch k sid)"
    by (rule shared_store.gw_reach_vouched [OF store assms(5,3,4)]) (simp_all add: db_mapping_def assms(2) clientIdentity_no_colon)
  ultimately have "vouched g ?ch ?hh (sessionID st)" using nc w0 by simp
  then obtain i st1 a where v: "(i, a) \<in> set (mapped g)" "open_reqs g i = Some st1" "clientHash st1 = ?ch" "sessionID st1 = sessionID st"
    "?hh = HashBytes (FullState (canonMsgs st1) a)" unfolding vouched_def by auto
  have "is_canonical a" by (rule mapped_canonical [OF _ v(1)]) (use gw_reach_life [OF assms(5)] in blast)
  moreover have "list_all is_canonical (canonMsgs st1)" using inv v(2) by (auto simp: sound_reqs_def sound_req_def)
  ultimately have c1: "list_all is_canonical (canonMsgs st1 @ [a])" by simp
  have "sound_req no_colon st"
    by (rule prepare_sound [OF p]) (use res in \<open>auto simp: clientIdentity_no_colon\<close>)
  then have c2: "list_all is_canonical (butlast (canonMsgs st))" by (auto simp: sound_req_def list_all_iff dest: in_set_butlastD)
  have "butlast (canonMsgs st) = canonMsgs st1 @ [a] \<or>
     (MessageArray (butlast (canonMsgs st)) \<noteq> FullState (canonMsgs st1) a \<and>
      sum256 (MessageArray (butlast (canonMsgs st))) = sum256 (FullState (canonMsgs st1) a))"
    using v(5) MessageArray_inject [OF c2 c1] by (auto simp: HistoryHash_def FullState_def HashBytes_eq)
  then show ?thesis using v by metis
qed

theorem resolved_session_provenance_witness:
  "\<exists>g r' st w i st1 a. gw_run (smoke_gateway ''a'') (smoke_round 0 ''r1'' ''u1'') (NewHandler (New, demo_db)) = Some g \<and>
    ServeHTTP (redis_sessions mem_redis) (smoke_config ''a'') ''r2'' ''u2'' (smoke_post (smoke_body 1)) (world (gw_pool g)) = (Proxy r' (Some st), w) \<and>
    (i, a) \<in> set (mapped g) \<and> open_reqs g i = Some st1 \<and> clientHash st1 = clientIdentity (Header (smoke_post (smoke_body 1))) \<and>
    sessionID st = sessionID st1"
proof -
  let ?h = "smoke_gateway ''a''"
  obtain g m where g: "gw_run ?h (smoke_reads 0 @ GDoneEnd 0 # [GEof 0, GClose 0]) (smoke_open smoke_client) = Some g"
    "world (gw_pool g) = (m, smoke_db)" by (rule smoke_rounds [of "''a''"], rule that)
  have run: "gw_run ?h (smoke_round 0 ''r1'' ''u1'') (NewHandler (New, demo_db)) = Some g"
    unfolding smoke_round_steps gw_run.simps smoke_first_request option.case by (rule g(1))
  obtain m' where p: "prepare (redis_sessions mem_redis) ''u2'' (smoke_post (smoke_body 1)) (smoke_body 1) (new_reqState ''r2'') (count_request ''chat'' m, smoke_db) =
    (((smoke_post (smoke_body 1))\<lparr>Header := Header_Set ''X-Opencode-Session'' ''u1'' (Header (smoke_post (smoke_body 1)))\<rparr>,
      smoke_state 1 ''r2'' smoke_client (HistoryHash [msg1, msg2]) [msg1, msg2, msg3] ''u1''), m', smoke_db)"
    using smoke_second_prepare by blast
  obtain r' where "ServeHTTP (redis_sessions mem_redis) (smoke_config ''a'') ''r2'' ''u2'' (smoke_post (smoke_body 1)) (m, smoke_db) =
    (Proxy r' (Some (smoke_state 1 ''r2'' smoke_client (HistoryHash [msg1, msg2]) [msg1, msg2, msg3] ''u1'')), m', smoke_db)"
    using smoke_serve [OF p] by blast
  then obtain st w where sv: "ServeHTTP (redis_sessions mem_redis) (smoke_config ''a'') ''r2'' ''u2'' (smoke_post (smoke_body 1)) (world (gw_pool g)) = (Proxy r' (Some st), w)"
    "source st = SourceResolved" unfolding g(2) by (simp add: smoke_state_def)
  have h: "h_sessions ?h = redis_sessions mem_redis" "h_pages ?h = redis_pages mem_redis" "h_cfg ?h = smoke_config ''a''" by (simp_all add: gateway_of_def)
  have e: "mem_strs demo_db k = None" for k by (simp add: mem_strs_def demo_db_def)
  from resolved_session_provenance [OF mem.redis_client_axioms e h(1,2) gw_reach_run [OF gw_reach.start run] _ sv(2), unfolded h(1,3), OF sv(1)]
  show ?thesis using run sv(1) by blast
qed

end
